theory Spec2Isabelle
  imports Main "HOL-Library.Word"
begin

unbundle bit_operations_syntax

section \<open>The virtio split-virtqueue driver of net/virtio.cc\<close>

subsection \<open>Basic types\<close>

type_synonym phys = "64 word"
type_synonym size_t = "64 word"

text \<open>
  The two ways an operation of the driver can stop instead of returning:
  a failed \<^verbatim>\<open>assert\<close>, and an array access outside the array (undefined behaviour in
  C++, made a value here so that no theorem can be about an unspecified read).
  \<open>PromiseAlreadySet\<close> is the runtime's own assertion on a second \<^verbatim>\<open>set_value\<close>.
\<close>

datatype error = AssertFailed | OutOfBounds | PromiseAlreadySet

text \<open>\<^verbatim>\<open>struct fragment { char* base; size_t size; }\<close> and the packet, a sequence of
  fragments with a destructor hook. The hook is named by a number: the packet type is move-only,
  so the number stands for the identity of the one object that owns the storage.\<close>

record fragment =
  base :: "64 word"
  size_frag :: size_t

datatype deleter = UserDeleter nat | DeleteBuf "64 word"

record packet =
  fragments :: "fragment list"
  deleter_hook :: deleter

text \<open>What a continuation attached to a completion future does when the promise fires:
  nothing (no future was taken), the TX lambda \<^verbatim>\<open>[p = std::move(p)] (size_t) {}\<close> that only
  owns the packet and so destroys it, or the RX lambda that wraps the buffer into a packet.\<close>

datatype continuation = NoContinuation | DestroyPacket packet | DeliverRx "64 word"

text \<open>Modelled from the spec: \<^verbatim>\<open>promise<size_t>\<close> of the async runtime, a single-shot
  promise. It is pending (with the continuation attached to its future) or holds its value;
  a second \<^verbatim>\<open>set_value\<close> violates the single-shot contract.\<close>

datatype promise = Pending continuation | Fulfilled size_t

definition set_value :: "promise \<Rightarrow> size_t \<Rightarrow> error + (promise \<times> (continuation \<times> size_t))" where
  "set_value p v = (case p of
      Pending c \<Rightarrow> Inr (Fulfilled v, (c, v))
    | Fulfilled _ \<Rightarrow> Inl PromiseAlreadySet)"

subsection \<open>The counting semaphore\<close>

text \<open>
  Modelled from the spec: \<^verbatim>\<open>semaphore\<close> of the async runtime, code of the repository that is
  not among the source files. The spec has the producers block on the semaphore of a ring
  until it holds the units they ask for, and \<^verbatim>\<open>free_desc\<close> signal it. A semaphore is its
  count and the waits suspended on it, oldest first, each with the number of units it asks
  for. \<^verbatim>\<open>wait(nr)\<close> takes the units at once when the count has them and nobody is waiting,
  and joins the wait list otherwise. \<^verbatim>\<open>signal()\<close> adds one unit and then serves the waits
  at the front of the list that the count covers: the units of a served wait leave the count,
  and its continuation becomes ready to run. \<open>resumed\<close> lists the served waits whose
  continuation has not run yet, each with the units it holds. \<^verbatim>\<open>try_wait(nr)\<close> is the wait
  that fails instead of suspending, \<^verbatim>\<open>current()\<close> reads the count.
\<close>

record semaphore =
  sem_count :: nat
  wait_list :: "nat list"
  resumed :: "nat list"

definition new_semaphore :: "nat \<Rightarrow> semaphore" where
  "new_semaphore n = \<lparr>sem_count = n, wait_list = [], resumed = []\<rparr>"

fun serve :: "nat \<Rightarrow> nat list \<Rightarrow> nat \<times> nat list \<times> nat list" where
  "serve c [] = (c, [], [])"
| "serve c (nr # ws) =
     (if nr \<le> c then (case serve (c - nr) ws of (c', ws', g) \<Rightarrow> (c', ws', nr # g))
      else (c, nr # ws, []))"

definition signal :: "semaphore \<Rightarrow> semaphore" where
  "signal s =
     (case serve (sem_count s + 1) (wait_list s) of
        (c, ws, g) \<Rightarrow> s\<lparr>sem_count := c, wait_list := ws, resumed := resumed s @ g\<rparr>)"

definition wait :: "nat \<Rightarrow> semaphore \<Rightarrow> bool \<times> semaphore" where
  "wait nr s =
     (if nr \<le> sem_count s \<and> wait_list s = [] then (True, s\<lparr>sem_count := sem_count s - nr\<rparr>)
      else (False, s\<lparr>wait_list := wait_list s @ [nr]\<rparr>))"

definition try_wait :: "nat \<Rightarrow> semaphore \<Rightarrow> semaphore option" where
  "try_wait nr s =
     (if nr \<le> sem_count s \<and> wait_list s = [] then Some (s\<lparr>sem_count := sem_count s - nr\<rparr>)
      else None)"

definition current :: "semaphore \<Rightarrow> nat" where
  "current s = sem_count s"

text \<open>The runtime runs the continuation of the oldest served wait.\<close>

definition run_resumed :: "semaphore \<Rightarrow> (nat \<times> semaphore) option" where
  "run_resumed s = (case resumed s of [] \<Rightarrow> None | nr # rest \<Rightarrow> Some (nr, s\<lparr>resumed := rest\<rparr>))"

text \<open>The units a semaphore has received and not yet seen used: those in its count and those
  in the hands of served waits.\<close>

definition units :: "semaphore \<Rightarrow> nat" where
  "units s = sem_count s + sum_list (resumed s)"

subsection \<open>The vring\<close>

text \<open>\<^verbatim>\<open>vring::buffer\<close>, \<^verbatim>\<open>vring::desc\<close> with its flag bit-field, \<^verbatim>\<open>used_elem\<close>.\<close>

record buffer =
  addr :: phys
  len :: "32 word"
  completed :: promise
  writeable :: bool

type_synonym buffer_chain = "buffer list"

record flags =
  has_next :: bool
  writeable_flag :: bool
  indirect :: bool

record desc =
  desc_paddr :: phys
  desc_len :: "32 word"
  desc_flags :: flags
  desc_next :: "16 word"

record used_elem =
  ue_id :: "32 word"
  ue_len :: "32 word"

text \<open>
  The state of one \<^verbatim>\<open>vring\<close>. The three shared-memory segments are held by value:
  \<open>descs\<close> is the descriptor table, \<open>avail_ring\<close>/\<open>avail_idx\<close> the available ring,
  \<open>used_elements\<close>/\<open>used_idx\<close> the used ring. \<open>avail_head\<close> and \<open>used_tail\<close> are the
  driver's private 16-bit counters, \<open>free_desc_head\<close> is the field \<^verbatim>\<open>int _free_desc\<close>,
  \<open>kicks\<close> counts the writes of 1 to the kick eventfd, \<open>available_descriptors\<close> is the
  semaphore \<^verbatim>\<open>_available_descriptors\<close>.
\<close>

record vring =
  config_size :: nat
  descs :: "desc list"
  avail_ring :: "16 word list"
  avail_idx :: "16 word"
  avail_head :: "16 word"
  used_elements :: "used_elem list"
  used_idx :: "16 word"
  used_tail :: "16 word"
  completions :: "promise list"
  available_descriptors :: semaphore
  free_desc_head :: int
  kicks :: nat

text \<open>\<^verbatim>\<open>size_t mask() { return size() - 1; }\<close> and \<^verbatim>\<open>masked(idx) = idx & mask()\<close>.\<close>

definition mask_ring :: "vring \<Rightarrow> size_t" where
  "mask_ring r = word_of_nat (config_size r) - 1"

definition masked :: "vring \<Rightarrow> size_t \<Rightarrow> size_t" where
  "masked r idx = idx AND mask_ring r"

text \<open>
  \<^verbatim>\<open>allocate_desc\<close>: the assertion compares with -1 only; any other value is used as an
  index. The new head is the 16-bit \<^verbatim>\<open>_next\<close> field read as an unsigned value.
\<close>

definition allocate_desc :: "vring \<Rightarrow> error + (nat \<times> vring)" where
  "allocate_desc r =
     (if free_desc_head r = - 1 then Inl AssertFailed
      else if free_desc_head r < 0 \<or> int (length (descs r)) \<le> free_desc_head r then Inl OutOfBounds
      else let desc = nat (free_desc_head r)
           in Inr (desc, r\<lparr>free_desc_head := uint (desc_next (descs r ! desc))\<rparr>))"

text \<open>
  \<^verbatim>\<open>free_desc(id)\<close>: the \<^verbatim>\<open>int\<close> head is stored into the 16-bit \<^verbatim>\<open>_next\<close> field
  (so -1 becomes 0xFFFF), the head becomes the freed index, the semaphore is signalled.
\<close>

definition free_desc :: "nat \<Rightarrow> vring \<Rightarrow> error + vring" where
  "free_desc did r =
     (if length (descs r) \<le> did then Inl OutOfBounds
      else Inr (r\<lparr>descs := (descs r)[did := (descs r ! did)\<lparr>desc_next := word_of_int (free_desc_head r)\<rparr>],
                  free_desc_head := int did,
                  available_descriptors := signal (available_descriptors r)\<rparr>))"

text \<open>\<^verbatim>\<open>setup\<close>: \<^verbatim>\<open>for (i = 0; i < _config.size; ++i) free_desc(i);\<close>\<close>

fun setup_from :: "nat list \<Rightarrow> vring \<Rightarrow> error + vring" where
  "setup_from [] r = Inr r"
| "setup_from (i # rest) r = (case free_desc i r of Inl e \<Rightarrow> Inl e | Inr r' \<Rightarrow> setup_from rest r')"

definition setup_vring :: "vring \<Rightarrow> error + vring" where
  "setup_vring r = setup_from [0 ..< config_size r] r"

text \<open>
  The constructor. The memory the configuration points to is a parameter: \<open>ds\<close> is what the
  descriptor table holds, \<open>av\<close> and \<open>us\<close> what the two rings hold, with both shared indices 0
  as the host expects of a new queue.
\<close>

definition vring_new :: "nat \<Rightarrow> desc list \<Rightarrow> 16 word list \<Rightarrow> used_elem list \<Rightarrow> error + vring" where
  "vring_new n ds av us =
     setup_vring \<lparr>config_size = n, descs = ds, avail_ring = av, avail_idx = 0, avail_head = 0,
            used_elements = us, used_idx = 0, used_tail = 0,
            completions = replicate n (Pending NoContinuation),
            available_descriptors = new_semaphore 0, free_desc_head = - 1, kicks = 0\<rparr>"

text \<open>
  The inner loop of \<^verbatim>\<open>run\<close> over one chain, \<^verbatim>\<open>for (i = bc.rbegin(); i != bc.rend(); ++i)\<close>:
  the list is the rest of the reversed chain, \<open>has_prev\<close> and \<open>prev_desc_idx\<close> are the two
  locals. The descriptor is written whole (flags cleared, then set). The promise the slot
  held is destroyed by the move assignment; its continuation, if it had one, is returned in
  the list of dropped continuations.
\<close>

definition dropped :: "promise \<Rightarrow> continuation list" where
  "dropped p = (case p of Pending NoContinuation \<Rightarrow> [] | Pending c \<Rightarrow> [c] | Fulfilled _ \<Rightarrow> [])"

fun link_descs :: "buffer list \<Rightarrow> bool \<Rightarrow> nat \<Rightarrow> vring \<Rightarrow> continuation list
    \<Rightarrow> error + (nat \<times> vring \<times> continuation list)" where
  "link_descs [] has_prev prev_desc_idx r dr = Inr (prev_desc_idx, r, dr)"
| "link_descs (i # rest) has_prev prev_desc_idx r dr =
     (case allocate_desc r of
        Inl e \<Rightarrow> Inl e
      | Inr (desc_idx, r1) \<Rightarrow>
          if length (completions r1) \<le> desc_idx then Inl OutOfBounds
          else
            let d = \<lparr>desc_paddr = addr i, desc_len = len i,
                     desc_flags = \<lparr>has_next = has_prev, writeable_flag = writeable i, indirect = False\<rparr>,
                     desc_next = word_of_nat prev_desc_idx\<rparr>;
                r2 = r1\<lparr>descs := (descs r1)[desc_idx := d],
                        completions := (completions r1)[desc_idx := completed i]\<rparr>
            in link_descs rest True desc_idx r2 (dr @ dropped (completions r1 ! desc_idx)))"

text \<open>One chain of the batch: link it, then
  \<^verbatim>\<open>_avail._shared->_ring[masked(_avail._head++)] = desc_head\<close>.\<close>

definition submit_chain :: "buffer_chain \<Rightarrow> vring \<Rightarrow> continuation list
    \<Rightarrow> error + (vring \<times> continuation list)" where
  "submit_chain bc r dr =
     (case link_descs (rev bc) False 0 r dr of
        Inl e \<Rightarrow> Inl e
      | Inr (desc_head, r1, dr1) \<Rightarrow>
          let slot = unat (masked r1 (ucast (avail_head r1)))
          in if length (avail_ring r1) \<le> slot then Inl OutOfBounds
             else Inr (r1\<lparr>avail_ring := (avail_ring r1)[slot := word_of_nat desc_head],
                          avail_head := avail_head r1 + 1\<rparr>, dr1))"

fun submit_chains :: "buffer_chain list \<Rightarrow> vring \<Rightarrow> continuation list
    \<Rightarrow> error + (vring \<times> continuation list)" where
  "submit_chains [] r dr = Inr (r, dr)"
| "submit_chains (bc # vbc) r dr =
     (case submit_chain bc r dr of Inl e \<Rightarrow> Inl e | Inr (r1, dr1) \<Rightarrow> submit_chains vbc r1 dr1)"

text \<open>The continuation of \<^verbatim>\<open>run\<close> up to the kick: all chains, then the release store of
  \<^verbatim>\<open>_avail._head\<close> into the shared index, then \<^verbatim>\<open>_kick.signal(1)\<close>.\<close>

definition publish :: "buffer_chain list \<Rightarrow> vring \<Rightarrow> error + (vring \<times> continuation list)" where
  "publish vbc r =
     (case submit_chains vbc r [] of
        Inl e \<Rightarrow> Inl e
      | Inr (r1, dr) \<Rightarrow> Inr (r1\<lparr>avail_idx := avail_head r1, kicks := kicks r1 + 1\<rparr>, dr))"

text \<open>
  The inner loop of \<^verbatim>\<open>complete\<close>: \<^verbatim>\<open>while (has_next) { ... free_desc(id); id = next; }\<close>.
  Nothing bounds it (a descriptor whose \<^verbatim>\<open>next\<close> is itself keeps it running), so it is a
  partial function: \<open>None\<close> is the loop that never ends.
\<close>

partial_function (option) free_chain :: "nat \<Rightarrow> vring \<Rightarrow> (error + vring) option" where
  "free_chain did r =
     (if length (descs r) \<le> did then Some (Inl OutOfBounds)
      else
        let d = descs r ! did; nxt = unat (desc_next d); hn = has_next (desc_flags d)
        in case free_desc did r of
             Inl e \<Rightarrow> Some (Inl e)
           | Inr r1 \<Rightarrow> if hn then free_chain nxt r1 else Some (Inr r1))"

text \<open>
  The outer loop of \<^verbatim>\<open>complete\<close>, with \<open>used_head\<close> the index loaded before it. Each entry:
  read the element at \<^verbatim>\<open>masked(_used._tail++)\<close>, \<^verbatim>\<open>set_value\<close> on the slot of its id, free the
  chain. The fired continuations are collected in order, each with its value.
\<close>

definition complete_entry :: "vring \<Rightarrow> (error + (vring \<times> (continuation \<times> size_t))) option" where
  "complete_entry r =
     (let slot = unat (masked r (ucast (used_tail r)));
          r1 = r\<lparr>used_tail := used_tail r + 1\<rparr>
      in if length (used_elements r1) \<le> slot then Some (Inl OutOfBounds)
         else
           let ue = used_elements r1 ! slot; did = unat (ue_id ue)
           in if length (completions r1) \<le> did then Some (Inl OutOfBounds)
              else case set_value (completions r1 ! did) (ucast (ue_len ue)) of
                     Inl e \<Rightarrow> Some (Inl e)
                   | Inr (p, f) \<Rightarrow>
                       (case free_chain did (r1\<lparr>completions := (completions r1)[did := p]\<rparr>) of
                          None \<Rightarrow> None
                        | Some (Inl e) \<Rightarrow> Some (Inl e)
                        | Some (Inr r2) \<Rightarrow> Some (Inr (r2, f))))"

partial_function (option) complete_loop :: "16 word \<Rightarrow> vring \<Rightarrow> (continuation \<times> size_t) list
    \<Rightarrow> (error + (vring \<times> (continuation \<times> size_t) list)) option" where
  "complete_loop used_head r fired =
     (if used_head = used_tail r then Some (Inr (r, fired))
      else case complete_entry r of
             None \<Rightarrow> None
           | Some (Inl e) \<Rightarrow> Some (Inl e)
           | Some (Inr (r2, f)) \<Rightarrow> complete_loop used_head r2 (fired @ [f]))"

declare free_chain.simps [code]
declare complete_loop.simps [code]

text \<open>\<^verbatim>\<open>complete\<close>: the acquire load of the shared used index, then the loop. (It then waits
  on the notify eventfd and starts again; that is the next call.)\<close>

definition complete :: "vring \<Rightarrow> (error + (vring \<times> (continuation \<times> size_t) list)) option" where
  "complete r = complete_loop (used_idx r) r []"

subsection \<open>Reading the descriptor table as lists\<close>

text \<open>
  \<open>free_list_from ds p fl\<close>: following \<^verbatim>\<open>_next\<close> from the head \<open>p\<close> visits exactly the
  descriptors \<open>fl\<close>, in this order, and then reaches a value that is no index of the table:
  -1, the initial head, or what a 16-bit field holds after -1 was stored in it.
\<close>

fun free_list_from :: "desc list \<Rightarrow> int \<Rightarrow> nat list \<Rightarrow> bool" where
  "free_list_from ds p [] = (p = - 1 \<or> (int (length ds) \<le> p \<and> p \<le> 65535))"
| "free_list_from ds p (x # xs) =
     (p = int x \<and> x < length ds \<and> free_list_from ds (uint (desc_next (ds ! x))) xs)"

text \<open>
  \<open>chain_from ds c\<close>: \<open>c\<close> is the descriptor chain that starts at its first element:
  every descriptor but the last has \<^verbatim>\<open>HAS_NEXT\<close> and \<^verbatim>\<open>_next\<close> the one after it.
\<close>

fun chain_from :: "desc list \<Rightarrow> nat list \<Rightarrow> bool" where
  "chain_from ds [] = False"
| "chain_from ds [d] = (d < length ds \<and> \<not> has_next (desc_flags (ds ! d)))"
| "chain_from ds (d # e # es) =
     (d < length ds \<and> has_next (desc_flags (ds ! d)) \<and> unat (desc_next (ds ! d)) = e
      \<and> chain_from ds (e # es))"


text \<open>\<open>pending_used r t es\<close>: the entries the reap loop reads, from its tail \<open>t\<close> up to the
  shared used index, are \<open>es\<close> in this order.\<close>

fun pending_used :: "vring \<Rightarrow> 16 word \<Rightarrow> used_elem list \<Rightarrow> bool" where
  "pending_used r t [] = (used_idx r = t)"
| "pending_used r t (e # es) =
     (used_idx r \<noteq> t \<and> used_elements r ! unat (masked r (ucast t)) = e \<and>
      pending_used r (t + 1) es)"

text \<open>The continuation a pending promise carries.\<close>

definition continuation_of :: "promise \<Rightarrow> continuation" where
  "continuation_of p = (case p of Pending k \<Rightarrow> k | Fulfilled _ \<Rightarrow> NoContinuation)"


text \<open>The sizes the constructor establishes, with a ring of at most 65535 descriptors
  (every index then fits the 16-bit fields and 0xFFFF is no index).\<close>

definition ring_ok :: "vring \<Rightarrow> bool" where
  "ring_ok r \<longleftrightarrow>
     0 < config_size r \<and> config_size r \<le> 65535 \<and>
     length (descs r) = config_size r \<and> length (completions r) = config_size r \<and>
     length (avail_ring r) = config_size r \<and> length (used_elements r) = config_size r"

text \<open>The descriptor the submit loop writes for a buffer, given the two loop locals.\<close>

definition mk_desc :: "buffer \<Rightarrow> bool \<Rightarrow> nat \<Rightarrow> desc" where
  "mk_desc b hp prev = \<lparr>desc_paddr = addr b, desc_len = len b,
      desc_flags = \<lparr>has_next = hp, writeable_flag = writeable b, indirect = False\<rparr>,
      desc_next = word_of_nat prev\<rparr>"

text \<open>\<^verbatim>\<open>available.wait(n)\<close> on the semaphore of a ring: whether the caller goes on at once
  (with the units taken) or is suspended (with its wait on the list), and the ring after it.\<close>

definition wait_available :: "nat \<Rightarrow> vring \<Rightarrow> bool \<times> vring" where
  "wait_available n r =
     (case wait n (available_descriptors r) of
        (ready, s) \<Rightarrow> (ready, r\<lparr>available_descriptors := s\<rparr>))"

text \<open>Modelled from the spec: the host's side of the used ring, as the mock host of the
  test scenarios does it: one entry is written at the shared used index, which then
  advances.\<close>

definition host_use :: "used_elem \<Rightarrow> vring \<Rightarrow> vring" where
  "host_use e r =
     r\<lparr>used_elements := (used_elements r)[unat (masked r (ucast (used_idx r))) := e],
       used_idx := used_idx r + 1\<rparr>"

subsection \<open>The TX and RX queues and the device\<close>

text \<open>\<^verbatim>\<open>virt_to_phys\<close>: the identity on addresses.\<close>

definition virt_to_phys :: "64 word \<Rightarrow> phys" where
  "virt_to_phys p = p"

text \<open>The process memory, byte by byte; \<open>None\<close> is a byte that belongs to no live object
  (the storage of a local after its scope has ended). And the bytes a fragment names in it.\<close>

type_synonym memory = "64 word \<Rightarrow> 8 word option"

definition fragment_bytes :: "memory \<Rightarrow> fragment \<Rightarrow> 8 word option list" where
  "fragment_bytes mem f = map (\<lambda>i. mem (base f + word_of_nat i)) [0 ..< unat (size_frag f)]"

text \<open>\<^verbatim>\<open>net_hdr_mrg vhdr = {}\<close>: the twelve bytes of the local at address \<open>vhdr\<close> are zeroed.
  The local is declared in the lambda that \<^verbatim>\<open>transmit\<close> attaches to the wait on the FIFO; when
  that lambda returns, the lifetime of the local ends.\<close>

definition zero_net_hdr_mrg :: "64 word \<Rightarrow> memory \<Rightarrow> memory" where
  "zero_net_hdr_mrg vhdr mem = (\<lambda>a. if a - vhdr < 12 then Some 0 else mem a)"

definition vhdr_out_of_scope :: "64 word \<Rightarrow> memory \<Rightarrow> memory" where
  "vhdr_out_of_scope vhdr mem = (\<lambda>a. if a - vhdr < 12 then None else mem a)"

text \<open>
  The packet constructor \<^verbatim>\<open>packet(fragment, packet&&)\<close> belongs to the packet type, which is
  not among the source files, and the spec of the packet type does not say whether the
  constructor keeps the pointer of the fragment or copies its bytes. The TX producer
  therefore takes the constructor as a parameter: a function of the fragment, the packet
  moved in and the memory, which returns the new packet and the memory after it.
\<close>

type_synonym packet_ctor = "fragment \<Rightarrow> packet \<Rightarrow> memory \<Rightarrow> packet \<times> memory"

text \<open>
  The TX queue. \<open>tx_held\<close> is the packet captured by the continuation that \<^verbatim>\<open>transmit\<close>
  attaches to \<^verbatim>\<open>available.wait(nbufs)\<close>, from the moment the wait suspends until the
  continuation runs.

  Modelled from the spec: the semaphore \<^verbatim>\<open>_tx_queue_length\<close> (and \<^verbatim>\<open>_rx_queue_length\<close> of the
  device) counts the packets of its FIFO and is held as that count. A wait that finds it
  zero is the caller suspended with nothing changed; the caller continues from the wait once
  the count is positive.
\<close>

record txq =
  tx_ring :: vring
  tx_queue :: "packet list"
  tx_queue_length :: nat
  tx_held :: "packet option"

text \<open>\<^verbatim>\<open>txq::post\<close>: push, signal the length semaphore.\<close>

definition post :: "packet \<Rightarrow> txq \<Rightarrow> txq" where
  "post p q = q\<lparr>tx_queue := tx_queue q @ [p], tx_queue_length := tx_queue_length q + 1\<rparr>"

text \<open>
  The continuation of \<^verbatim>\<open>available.wait(nbufs)\<close> in \<^verbatim>\<open>transmit\<close>, with the packet \<open>p\<close> it
  captured: one buffer for each fragment, none writeable, each with a promise nobody listens
  to; then the continuation that owns the packet is attached to the promise of \<^verbatim>\<open>bc[0]\<close>
  (an access outside the vector when the packet has no fragment), and the batch is the one
  chain.
\<close>

definition transmit_cont :: "packet \<Rightarrow> error + buffer_chain list" where
  "transmit_cont p =
     (let bc = map (\<lambda>f. \<lparr>addr = virt_to_phys (base f), len = ucast (size_frag f),
                         completed = Pending NoContinuation, writeable = False\<rparr>)
                  (fragments p)
      in if bc = [] then Inl OutOfBounds
         else Inr [bc[0 := (bc ! 0)\<lparr>completed := Pending (DestroyPacket p)\<rparr>]])"

text \<open>
  \<^verbatim>\<open>txq::transmit\<close>, the TX producer. \<open>prepend\<close> is the packet constructor, \<open>hl\<close> is
  \<^verbatim>\<open>_dev._header_len\<close>, \<open>vhdr\<close> the address of the local header. The result is the batch, or
  \<open>None\<close> when the producer is suspended, with the queue and the memory it leaves. Suspended on
  the FIFO, nothing has changed. Otherwise the packet is popped (\<^verbatim>\<open>front()\<close> of an empty queue
  is an access outside it), the header zeroed and prepended, and the producer waits for as
  many units as the new packet has fragments: when it gets them at once the continuation
  runs, and otherwise the wait is on the list of the semaphore and the continuation holds the
  packet. Either way the lambda that declared the header has returned.
\<close>

definition transmit :: "packet_ctor \<Rightarrow> size_t \<Rightarrow> 64 word \<Rightarrow> memory \<Rightarrow> txq
    \<Rightarrow> error + (buffer_chain list option \<times> txq \<times> memory)" where
  "transmit prepend hl vhdr mem q =
     (if tx_queue_length q = 0 then Inr (None, q, mem)
      else case tx_queue q of
        [] \<Rightarrow> Inl OutOfBounds
      | p # rest \<Rightarrow>
          (case prepend \<lparr>base = vhdr, size_frag = hl\<rparr> p (zero_net_hdr_mrg vhdr mem) of
             (qp, mem1) \<Rightarrow>
               let nbufs = length (fragments qp);
                   mem2 = vhdr_out_of_scope vhdr mem1
               in case wait_available nbufs (tx_ring q) of
                    (ready, ring1) \<Rightarrow>
                      let q1 = q\<lparr>tx_ring := ring1, tx_queue := rest,
                                 tx_queue_length := tx_queue_length q - 1\<rparr>
                      in if ready
                         then (case transmit_cont qp of
                                 Inl e \<Rightarrow> Inl e
                               | Inr vbc \<Rightarrow> Inr (Some vbc, q1, mem2))
                         else Inr (None, q1\<lparr>tx_held := Some qp\<rparr>, mem2)))"

text \<open>The producer resumed: the wait of the continuation has been served, and the
  continuation runs with the packet it holds. \<open>Inr None\<close>: no served wait, nothing runs.\<close>

definition transmit_resumed :: "txq \<Rightarrow> error + (buffer_chain list \<times> txq) option" where
  "transmit_resumed q =
     (case (run_resumed (available_descriptors (tx_ring q)), tx_held q) of
        (Some (nr, s), Some p) \<Rightarrow>
          (case transmit_cont p of
             Inl e \<Rightarrow> Inl e
           | Inr vbc \<Rightarrow>
               Inr (Some (vbc, q\<lparr>tx_ring := (tx_ring q)\<lparr>available_descriptors := s\<rparr>,
                                  tx_held := None\<rparr>)))
      | _ \<Rightarrow> Inr None)"

record rxq =
  rx_ring :: vring

text \<open>The buffer \<^verbatim>\<open>prepare_buffers\<close> builds in one round of its loop, around the 4096 bytes
  that \<^verbatim>\<open>new char[4096]\<close> returned at \<open>buf\<close>: the continuation attached to the future of
  its promise is the RX lambda, which captures \<open>buf\<close>.\<close>

definition rx_buffer :: "64 word \<Rightarrow> buffer" where
  "rx_buffer buf = \<lparr>addr = virt_to_phys buf, len = 4096,
                     completed = Pending (DeliverRx buf), writeable = True\<rparr>"

text \<open>
  The continuation of \<^verbatim>\<open>available.wait(1)\<close> in \<^verbatim>\<open>prepare_buffers\<close>, which runs holding the
  one unit: it takes all the units the semaphore has left, and returns one chain of one
  buffer for each unit. \<open>new_buf i\<close> is the address \<^verbatim>\<open>new char[4096]\<close> returns in round \<open>i\<close> of
  the loop. \<^verbatim>\<open>count\<close> is an \<^verbatim>\<open>unsigned\<close>.
\<close>

definition prepare_buffers_cont :: "(nat \<Rightarrow> 64 word) \<Rightarrow> rxq \<Rightarrow> buffer_chain list \<times> rxq" where
  "prepare_buffers_cont new_buf q =
     (let available = available_descriptors (rx_ring q);
          opportunistic = current available;
          (count, available1) = (case try_wait opportunistic available of
                                   Some s \<Rightarrow> ((1 + opportunistic) mod 2 ^ 32, s)
                                 | None \<Rightarrow> (1, available));
          ret = map (\<lambda>i. [rx_buffer (new_buf i)]) [0 ..< count]
      in (ret, q\<lparr>rx_ring := (rx_ring q)\<lparr>available_descriptors := available1\<rparr>\<rparr>))"

text \<open>\<^verbatim>\<open>rxq::prepare_buffers\<close>, the RX producer: the wait for one unit, then the
  continuation, at once or (\<open>None\<close>) when the wait is served.\<close>

definition prepare_buffers :: "(nat \<Rightarrow> 64 word) \<Rightarrow> rxq \<Rightarrow> buffer_chain list option \<times> rxq" where
  "prepare_buffers new_buf q =
     (case wait_available 1 (rx_ring q) of
        (ready, ring1) \<Rightarrow>
          if ready
          then (case prepare_buffers_cont new_buf (q\<lparr>rx_ring := ring1\<rparr>) of
                  (ret, q1) \<Rightarrow> (Some ret, q1))
          else (None, q\<lparr>rx_ring := ring1\<rparr>))"

definition prepare_buffers_resumed :: "(nat \<Rightarrow> 64 word) \<Rightarrow> rxq \<Rightarrow> (buffer_chain list \<times> rxq) option" where
  "prepare_buffers_resumed new_buf q =
     (case run_resumed (available_descriptors (rx_ring q)) of
        None \<Rightarrow> None
      | Some (nr, s) \<Rightarrow>
          Some (prepare_buffers_cont new_buf (q\<lparr>rx_ring := (rx_ring q)\<lparr>available_descriptors := s\<rparr>\<rparr>)))"

text \<open>The device. \<open>destroyed\<close> lists the packets whose destructor has run, in order.\<close>

record virtio_net_device =
  header_len :: size_t
  dev_txq :: txq
  dev_rxq :: rxq
  rx_queue_length :: nat
  rx_queue :: "packet list"
  destroyed :: "packet list"

definition queue_rx_packet :: "packet \<Rightarrow> virtio_net_device \<Rightarrow> virtio_net_device" where
  "queue_rx_packet p dev =
     dev\<lparr>rx_queue := rx_queue dev @ [p], rx_queue_length := rx_queue_length dev + 1\<rparr>"

text \<open>\<^verbatim>\<open>receive\<close>: wait on the length semaphore (\<open>Inr None\<close>: suspended), pop the front.\<close>

definition receive :: "virtio_net_device \<Rightarrow> error + (packet \<times> virtio_net_device) option" where
  "receive dev =
     (if rx_queue_length dev = 0 then Inr None
      else case rx_queue dev of
        [] \<Rightarrow> Inl OutOfBounds
      | p # rest \<Rightarrow>
          Inr (Some (p, dev\<lparr>rx_queue := rest, rx_queue_length := rx_queue_length dev - 1\<rparr>)))"

definition send :: "packet \<Rightarrow> virtio_net_device \<Rightarrow> virtio_net_device" where
  "send p dev = dev\<lparr>dev_txq := post p (dev_txq dev)\<rparr>"

text \<open>The packet the RX lambda builds from its buffer and the value of the promise:
  \<^verbatim>\<open>packet p(fragment{buf + _dev._header_len, len - _dev._header_len}, [buf] { delete[] buf; })\<close>.
  Both operands of the subtraction are \<^verbatim>\<open>size_t\<close>.\<close>

definition rx_packet :: "size_t \<Rightarrow> 64 word \<Rightarrow> size_t \<Rightarrow> packet" where
  "rx_packet hl buf n =
     \<lparr>fragments = [\<lparr>base = buf + hl, size_frag = n - hl\<rparr>], deleter_hook = DeleteBuf buf\<rparr>"

text \<open>
  A fired continuation runs with the value of its promise: the TX lambda does nothing and
  is destroyed with the packet it owns; the RX lambda queues the packet it builds.
\<close>

fun run_continuation :: "continuation \<times> size_t \<Rightarrow> virtio_net_device \<Rightarrow> virtio_net_device" where
  "run_continuation (NoContinuation, n) dev = dev"
| "run_continuation (DestroyPacket p, n) dev = dev\<lparr>destroyed := destroyed dev @ [p]\<rparr>"
| "run_continuation (DeliverRx buf, n) dev = queue_rx_packet (rx_packet (header_len dev) buf n) dev"

text \<open>A continuation destroyed without having run: a packet it owns is destroyed with it.\<close>

fun drop_continuation :: "continuation \<Rightarrow> virtio_net_device \<Rightarrow> virtio_net_device" where
  "drop_continuation (DestroyPacket p) dev = dev\<lparr>destroyed := destroyed dev @ [p]\<rparr>"
| "drop_continuation c dev = dev"

text \<open>The reap loop of the RX queue with the continuations it fires, run in order.\<close>

definition rx_complete :: "virtio_net_device \<Rightarrow> (error + virtio_net_device) option" where
  "rx_complete dev =
     (case complete (rx_ring (dev_rxq dev)) of
        None \<Rightarrow> None
      | Some (Inl e) \<Rightarrow> Some (Inl e)
      | Some (Inr (r, fired)) \<Rightarrow>
          Some (Inr (fold run_continuation fired (dev\<lparr>dev_rxq := (dev_rxq dev)\<lparr>rx_ring := r\<rparr>\<rparr>))))"

definition tx_complete :: "virtio_net_device \<Rightarrow> (error + virtio_net_device) option" where
  "tx_complete dev =
     (case complete (tx_ring (dev_txq dev)) of
        None \<Rightarrow> None
      | Some (Inl e) \<Rightarrow> Some (Inl e)
      | Some (Inr (r, fired)) \<Rightarrow>
          Some (Inr (fold run_continuation fired (dev\<lparr>dev_txq := (dev_txq dev)\<lparr>tx_ring := r\<rparr>\<rparr>))))"

text \<open>
  The continuation of \<^verbatim>\<open>run\<close> up to the kick, on the ring of the TX queue and on that of the
  RX queue, with the continuations of the promises it overwrote destroyed.
\<close>

definition tx_publish :: "buffer_chain list \<Rightarrow> txq \<Rightarrow> virtio_net_device \<Rightarrow> error + virtio_net_device" where
  "tx_publish vbc q dev =
     (case publish vbc (tx_ring q) of
        Inl e \<Rightarrow> Inl e
      | Inr (r, dr) \<Rightarrow> Inr (fold drop_continuation dr (dev\<lparr>dev_txq := q\<lparr>tx_ring := r\<rparr>\<rparr>)))"

definition rx_publish :: "buffer_chain list \<Rightarrow> rxq \<Rightarrow> virtio_net_device \<Rightarrow> error + virtio_net_device" where
  "rx_publish vbc q dev =
     (case publish vbc (rx_ring q) of
        Inl e \<Rightarrow> Inl e
      | Inr (r, dr) \<Rightarrow> Inr (fold drop_continuation dr (dev\<lparr>dev_rxq := q\<lparr>rx_ring := r\<rparr>\<rparr>)))"

text \<open>
  One round of the submit loop of a queue: \<^verbatim>\<open>run\<close> calls the producer and, when the batch
  is there, goes on up to the kick. The result says whether a batch was published; if not,
  the producer is suspended. \<open>tx_resume\<close> and \<open>rx_resume\<close> are the round that starts when the
  wait of a suspended producer has been served (\<open>None\<close>: there is no such wait).
\<close>

definition tx_submit :: "packet_ctor \<Rightarrow> 64 word \<Rightarrow> memory \<Rightarrow> virtio_net_device
    \<Rightarrow> error + (bool \<times> virtio_net_device \<times> memory)" where
  "tx_submit prepend vhdr mem dev =
     (case transmit prepend (header_len dev) vhdr mem (dev_txq dev) of
        Inl e \<Rightarrow> Inl e
      | Inr (None, q, mem1) \<Rightarrow> Inr (False, dev\<lparr>dev_txq := q\<rparr>, mem1)
      | Inr (Some vbc, q, mem1) \<Rightarrow>
          (case tx_publish vbc q dev of
             Inl e \<Rightarrow> Inl e
           | Inr dev1 \<Rightarrow> Inr (True, dev1, mem1)))"

definition tx_resume :: "virtio_net_device \<Rightarrow> error + virtio_net_device option" where
  "tx_resume dev =
     (case transmit_resumed (dev_txq dev) of
        Inl e \<Rightarrow> Inl e
      | Inr None \<Rightarrow> Inr None
      | Inr (Some (vbc, q)) \<Rightarrow>
          (case tx_publish vbc q dev of Inl e \<Rightarrow> Inl e | Inr dev1 \<Rightarrow> Inr (Some dev1)))"

definition rx_submit :: "(nat \<Rightarrow> 64 word) \<Rightarrow> virtio_net_device
    \<Rightarrow> error + (bool \<times> virtio_net_device)" where
  "rx_submit new_buf dev =
     (case prepare_buffers new_buf (dev_rxq dev) of
        (None, q) \<Rightarrow> Inr (False, dev\<lparr>dev_rxq := q\<rparr>)
      | (Some vbc, q) \<Rightarrow>
          (case rx_publish vbc q dev of Inl e \<Rightarrow> Inl e | Inr dev1 \<Rightarrow> Inr (True, dev1)))"

definition rx_resume :: "(nat \<Rightarrow> 64 word) \<Rightarrow> virtio_net_device
    \<Rightarrow> error + virtio_net_device option" where
  "rx_resume new_buf dev =
     (case prepare_buffers_resumed new_buf (dev_rxq dev) of
        None \<Rightarrow> Inr None
      | Some (vbc, q) \<Rightarrow>
          (case rx_publish vbc q dev of Inl e \<Rightarrow> Inl e | Inr dev1 \<Rightarrow> Inr (Some dev1)))"

text \<open>
  What the semaphore of a ring looks like between the rounds of the submit loop, given the
  number of units its producer is waiting for, if it is suspended: nobody else ever waits on
  the semaphore. A producer that is not suspended leaves both lists empty. A suspended one has
  its wait on the list while the count is short of it, and is resumed with its units once a
  signal has served it.
\<close>

definition producer_state :: "semaphore \<Rightarrow> nat option \<Rightarrow> bool" where
  "producer_state s w =
     (case w of
        None \<Rightarrow> wait_list s = [] \<and> resumed s = []
      | Some n \<Rightarrow> 0 < n \<and> (wait_list s = [n] \<and> resumed s = [] \<and> sem_count s < n \<or>
                             wait_list s = [] \<and> resumed s = [n]))"

text \<open>
  The chains of the TX ring between steps: \<open>fl\<close> is the free list; \<open>cps\<close> lists the chains
  the host owns, each with the packet submitted in it. The promise in the slot of a chain's
  head is pending and its continuation owns the packet; no other slot of a chain, and no slot
  of a free descriptor, holds a continuation.
\<close>

definition tx_chains :: "vring \<Rightarrow> nat list \<Rightarrow> (nat list \<times> packet) list \<Rightarrow> bool" where
  "tx_chains r fl cps \<longleftrightarrow>
     ring_ok r \<and> free_list_from (descs r) (free_desc_head r) fl \<and>
     distinct (fl @ concat (map fst cps)) \<and>
     (\<forall>(c, p)\<in>set cps. chain_from (descs r) c \<and>
         completions r ! hd c = Pending (DestroyPacket p) \<and>
         (\<forall>j\<in>set (tl c). dropped (completions r ! j) = [])) \<and>
     (\<forall>a\<in>set fl. dropped (completions r ! a) = [])"

text \<open>
  The state of the TX queue between steps: the chains as above, the units of the semaphore
  are as many as the free list is long, and the producer, when it is suspended on the
  semaphore, waits for as many units as the packet it holds has fragments.
\<close>

definition tx_inv :: "virtio_net_device \<Rightarrow> nat list \<Rightarrow> (nat list \<times> packet) list \<Rightarrow> bool" where
  "tx_inv dev fl cps \<longleftrightarrow>
     tx_chains (tx_ring (dev_txq dev)) fl cps \<and>
     units (available_descriptors (tx_ring (dev_txq dev))) = length fl \<and>
     producer_state (available_descriptors (tx_ring (dev_txq dev)))
       (map_option (\<lambda>p. length (fragments p)) (tx_held (dev_txq dev)))"

text \<open>
  The chains of the RX ring between steps: \<open>fl\<close> is the free list; \<open>hbs\<close> lists the
  descriptors the host owns, each with the address of the buffer submitted in it. Such a
  descriptor is a chain of its own, it is writeable and names the 4096 bytes of its buffer,
  and the promise in its slot is pending with the RX lambda for that buffer.
\<close>

definition rx_chains :: "vring \<Rightarrow> nat list \<Rightarrow> (nat \<times> 64 word) list \<Rightarrow> bool" where
  "rx_chains r fl hbs \<longleftrightarrow>
     ring_ok r \<and> free_list_from (descs r) (free_desc_head r) fl \<and>
     distinct (fl @ map fst hbs) \<and>
     (\<forall>(d, buf)\<in>set hbs. chain_from (descs r) [d] \<and>
         desc_paddr (descs r ! d) = buf \<and> desc_len (descs r ! d) = 4096 \<and>
         writeable_flag (desc_flags (descs r ! d)) \<and>
         completions r ! d = Pending (DeliverRx buf))"

text \<open>
  The state of the RX queue between steps: the chains as above, the units of the semaphore
  are as many as the free list is long, and the producer, when it is suspended, waits for
  one unit.
\<close>

definition rx_inv :: "virtio_net_device \<Rightarrow> nat list \<Rightarrow> (nat \<times> 64 word) list \<Rightarrow> bool" where
  "rx_inv dev fl hbs \<longleftrightarrow>
     rx_chains (rx_ring (dev_rxq dev)) fl hbs \<and>
     units (available_descriptors (rx_ring (dev_rxq dev))) = length fl \<and>
     (producer_state (available_descriptors (rx_ring (dev_rxq dev))) None \<or>
      producer_state (available_descriptors (rx_ring (dev_rxq dev))) (Some 1))"

subsection \<open>The constructor's eventfds and vhost ioctls\<close>

text \<open>
  An eventfd object is known by the file descriptor it hands out for its other end:
  \<^verbatim>\<open>readable_eventfd::get_write_fd()\<close>, \<^verbatim>\<open>writeable_eventfd::get_read_fd()\<close>.
\<close>

record readable_eventfd =
  get_write_fd :: int

record writeable_eventfd =
  get_read_fd :: int

record init =
  txq_notify :: readable_eventfd
  txq_kick :: writeable_eventfd
  rxq_notify :: readable_eventfd
  rxq_kick :: writeable_eventfd
  txq_notify_fd :: int
  txq_kick_fd :: int
  rxq_notify_fd :: int
  rxq_kick_fd :: int

text \<open>The constructor \<^verbatim>\<open>init()\<close>, from the four default-constructed eventfds.\<close>

definition init_new :: "readable_eventfd \<Rightarrow> writeable_eventfd \<Rightarrow> readable_eventfd
    \<Rightarrow> writeable_eventfd \<Rightarrow> init" where
  "init_new txn txk rxn rxk =
     \<lparr>txq_notify = txn, txq_kick = txk, rxq_notify = rxn, rxq_kick = rxk,
      txq_notify_fd = get_write_fd txn,
      txq_kick_fd = get_read_fd txk,
      rxq_notify_fd = get_write_fd rxn,
      rxq_kick_fd = get_read_fd txk\<rparr>"

text \<open>The requests the device constructor sends to the vhost file descriptor, in order,
  with the vring index and the file descriptor where they carry one.\<close>

datatype ioctl =
    VHOST_SET_OWNER
  | VHOST_SET_MEM_TABLE
  | VHOST_SET_FEATURES
  | VHOST_SET_VRING_NUM nat nat
  | VHOST_SET_VRING_ADDR nat
  | VHOST_SET_VRING_KICK nat int
  | VHOST_SET_VRING_CALL nat int
  | VHOST_NET_SET_BACKEND nat int

definition vhost_ioctls :: "init \<Rightarrow> int \<Rightarrow> ioctl list" where
  "vhost_ioctls x tap_fd =
     [VHOST_SET_OWNER, VHOST_SET_MEM_TABLE, VHOST_SET_FEATURES,
      VHOST_SET_VRING_NUM 0 256, VHOST_SET_VRING_NUM 1 256,
      VHOST_SET_VRING_ADDR 0, VHOST_SET_VRING_ADDR 1,
      VHOST_SET_VRING_KICK 0 (rxq_kick_fd x),
      VHOST_SET_VRING_CALL 0 (rxq_notify_fd x),
      VHOST_SET_VRING_KICK 1 (txq_kick_fd x),
      VHOST_SET_VRING_CALL 1 (txq_notify_fd x),
      VHOST_NET_SET_BACKEND 0 tap_fd, VHOST_NET_SET_BACKEND 1 tap_fd]"

text \<open>
  What the constructor hands to whom: the RX vring (index 0) is built with the eventfds
  \<^verbatim>\<open>x._rxq_notify\<close> and \<^verbatim>\<open>x._rxq_kick\<close>, the TX vring (index 1) with \<^verbatim>\<open>x._txq_notify\<close> and
  \<^verbatim>\<open>x._txq_kick\<close>; these are the eventfds the vring of that index signals after publishing
  and waits on in the reap loop.
\<close>

definition vring_kick_eventfd :: "init \<Rightarrow> nat \<Rightarrow> writeable_eventfd" where
  "vring_kick_eventfd x idx = (if idx = 0 then rxq_kick x else txq_kick x)"

definition vring_notify_eventfd :: "init \<Rightarrow> nat \<Rightarrow> readable_eventfd" where
  "vring_notify_eventfd x idx = (if idx = 0 then rxq_notify x else txq_notify x)"

text \<open>\<^verbatim>\<open>size_t _header_len = sizeof(net_hdr)\<close>: two bytes and four 16-bit fields.\<close>

definition sizeof_net_hdr :: size_t where
  "sizeof_net_hdr = 10"

text \<open>A ring of four descriptors as the constructor leaves it when the shared memory is
  zeroed, and two buffers, for the concrete instances below.\<close>

definition zero_desc :: desc where
  "zero_desc = \<lparr>desc_paddr = 0, desc_len = 0,
      desc_flags = \<lparr>has_next = False, writeable_flag = False, indirect = False\<rparr>, desc_next = 0\<rparr>"

definition zero_used :: used_elem where
  "zero_used = \<lparr>ue_id = 0, ue_len = 0\<rparr>"

definition ring4 :: vring where
  "ring4 = \<lparr>config_size = 4,
     descs = [zero_desc\<lparr>desc_next := 65535\<rparr>, zero_desc\<lparr>desc_next := 0\<rparr>,
              zero_desc\<lparr>desc_next := 1\<rparr>, zero_desc\<lparr>desc_next := 2\<rparr>],
     avail_ring = [0, 0, 0, 0], avail_idx = 0, avail_head = 0,
     used_elements = [zero_used, zero_used, zero_used, zero_used], used_idx = 0, used_tail = 0,
     completions = [Pending NoContinuation, Pending NoContinuation,
                    Pending NoContinuation, Pending NoContinuation],
     available_descriptors = new_semaphore 4, free_desc_head = 3, kicks = 0\<rparr>"

definition buf_a :: buffer where
  "buf_a = \<lparr>addr = 4096, len = 10, completed = Pending NoContinuation, writeable = False\<rparr>"

definition buf_b :: buffer where
  "buf_b = \<lparr>addr = 8192, len = 20, completed = Pending NoContinuation, writeable = False\<rparr>"

text \<open>The same ring after the producer waited for two units, the chain of the two buffers
  was published, and the host put the chain head 2 into the used ring.\<close>

definition ring4_inflight :: vring where
  "ring4_inflight = \<lparr>config_size = 4,
     descs = [zero_desc\<lparr>desc_next := 65535\<rparr>, zero_desc\<lparr>desc_next := 0\<rparr>,
              mk_desc buf_a True 3, mk_desc buf_b False 0],
     avail_ring = [2, 0, 0, 0], avail_idx = 1, avail_head = 1,
     used_elements = [\<lparr>ue_id = 2, ue_len = 0\<rparr>, zero_used, zero_used, zero_used],
     used_idx = 1, used_tail = 0,
     completions = [Pending NoContinuation, Pending NoContinuation,
                    Pending NoContinuation, Pending NoContinuation],
     available_descriptors = new_semaphore 2, free_desc_head = 1, kicks = 1\<rparr>"

text \<open>The file descriptors a list of requests registers as kick and as call descriptor of
  the vring with a given index.\<close>

fun kick_fds :: "ioctl list \<Rightarrow> nat \<Rightarrow> int list" where
  "kick_fds [] idx = []"
| "kick_fds (VHOST_SET_VRING_KICK i fd # rest) idx =
     (if i = idx then fd # kick_fds rest idx else kick_fds rest idx)"
| "kick_fds (_ # rest) idx = kick_fds rest idx"

fun call_fds :: "ioctl list \<Rightarrow> nat \<Rightarrow> int list" where
  "call_fds [] idx = []"
| "call_fds (VHOST_SET_VRING_CALL i fd # rest) idx =
     (if i = idx then fd # call_fds rest idx else call_fds rest idx)"
| "call_fds (_ # rest) idx = call_fds rest idx"

text \<open>An RX ring of four descriptors after the RX producer took all four units and its
  four one-buffer chains (buffers at 0x10000, 0x11000, ...) were published, the producer,
  called again, was suspended on its wait for one unit, and the host completed the first of
  the chains, descriptor 3, with 74 bytes; and the device around it, with nothing received
  yet.\<close>

definition rx_new_buf :: "nat \<Rightarrow> 64 word" where
  "rx_new_buf i = 0x10000 + 0x1000 * word_of_nat i"

definition rx_desc :: "nat \<Rightarrow> desc" where
  "rx_desc i = \<lparr>desc_paddr = rx_new_buf i, desc_len = 4096,
      desc_flags = \<lparr>has_next = False, writeable_flag = True, indirect = False\<rparr>, desc_next = 0\<rparr>"

definition ring4_rx :: vring where
  "ring4_rx = \<lparr>config_size = 4,
     descs = [rx_desc 3, rx_desc 2, rx_desc 1, rx_desc 0],
     avail_ring = [3, 2, 1, 0], avail_idx = 4, avail_head = 4,
     used_elements = [\<lparr>ue_id = 3, ue_len = 74\<rparr>, zero_used, zero_used, zero_used],
     used_idx = 1, used_tail = 0,
     completions = [Pending (DeliverRx (rx_new_buf 3)), Pending (DeliverRx (rx_new_buf 2)),
                    Pending (DeliverRx (rx_new_buf 1)), Pending (DeliverRx (rx_new_buf 0))],
     available_descriptors = \<lparr>sem_count = 0, wait_list = [1], resumed = []\<rparr>,
     free_desc_head = 65535, kicks = 1\<rparr>"

definition dev4 :: virtio_net_device where
  "dev4 = \<lparr>header_len = sizeof_net_hdr,
     dev_txq = \<lparr>tx_ring = ring4, tx_queue = [], tx_queue_length = 0, tx_held = None\<rparr>,
     dev_rxq = \<lparr>rx_ring = ring4_rx\<rparr>,
     rx_queue_length = 0, rx_queue = [], destroyed = []\<rparr>"

text \<open>A packet of two fragments queued for transmission on the ring of four.\<close>

definition pkt2 :: packet where
  "pkt2 = \<lparr>fragments = [\<lparr>base = 0x5000, size_frag = 10\<rparr>, \<lparr>base = 0x6000, size_frag = 20\<rparr>],
            deleter_hook = UserDeleter 0\<rparr>"

definition txq4 :: txq where
  "txq4 = \<lparr>tx_ring = ring4, tx_queue = [pkt2], tx_queue_length = 1, tx_held = None\<rparr>"

text \<open>Two packet constructors for the concrete instances. \<open>copy_prepend hbuf\<close> copies the
  bytes of the new fragment into storage of the packet at \<open>hbuf\<close> and prepends the copy;
  \<open>alias_prepend\<close> prepends the fragment as it is given, pointer and all.\<close>

definition copy_prepend :: "64 word \<Rightarrow> packet_ctor" where
  "copy_prepend hbuf f p mem =
     (p\<lparr>fragments := \<lparr>base = hbuf, size_frag = size_frag f\<rparr> # fragments p\<rparr>,
      (\<lambda>a. if a - hbuf < size_frag f then mem (base f + (a - hbuf)) else mem a))"

definition alias_prepend :: packet_ctor where
  "alias_prepend f p mem = (p\<lparr>fragments := f # fragments p\<rparr>, mem)"

text \<open>The packet \<open>pkt2\<close> with a header fragment of 10 bytes at \<open>hbuf\<close> in front: what
  \<open>copy_prepend hbuf\<close> makes of it and a 10-byte header.\<close>

definition pkt2_hdr :: "64 word \<Rightarrow> packet" where
  "pkt2_hdr hbuf = pkt2\<lparr>fragments := \<lparr>base = hbuf, size_frag = 10\<rparr> # fragments pkt2\<rparr>"

text \<open>Two rings the host has written a malformed entry into. In \<open>ring4_rx_long\<close> the
  entry for the 4096-byte RX buffer of descriptor 3 reports 5000 bytes. In \<open>ring4_stale\<close>
  nothing was ever submitted (all four descriptors are on the free list) and the entry names
  descriptor 0.\<close>

definition ring4_rx_long :: vring where
  "ring4_rx_long =
     ring4_rx\<lparr>used_elements := [\<lparr>ue_id = 3, ue_len = 5000\<rparr>, zero_used, zero_used, zero_used]\<rparr>"

definition ring4_stale :: vring where
  "ring4_stale =
     ring4\<lparr>used_elements := [\<lparr>ue_id = 0, ue_len = 0\<rparr>, zero_used, zero_used, zero_used],
           used_idx := 1\<rparr>"

text \<open>The RX ring with an entry that names descriptor 4, which a ring of four does not
  have.\<close>

definition ring4_rx_oob :: vring where
  "ring4_rx_oob =
     ring4_rx\<lparr>used_elements := [\<lparr>ue_id = 4, ue_len = 74\<rparr>, zero_used, zero_used, zero_used]\<rparr>"

section \<open>Properties\<close>

subsection \<open>The semaphore\<close>

lemma serve_split:
  "serve c ws = (c', ws', g) \<Longrightarrow> c' + sum_list g = c \<and> g @ ws' = ws"
proof (induction ws arbitrary: c c' ws' g)
  case Nil
  then show ?case by simp
next
  case (Cons nr ws)
  show ?case
  proof (cases "nr \<le> c")
    case True
    obtain c1 ws1 g1 where s: "serve (c - nr) ws = (c1, ws1, g1)" by (cases "serve (c - nr) ws") auto
    then have e: "c' = c1" "ws' = ws1" "g = nr # g1" using Cons.prems True by simp_all
    from Cons.IH[OF s] have "c1 + sum_list g1 = c - nr" "g1 @ ws1 = ws" by simp_all
    then show ?thesis using e True by simp
  next
    case False
    then show ?thesis using Cons.prems by simp
  qed
qed

lemma units_signal: "units (signal s) = units s + 1"
proof -
  obtain c ws g where s: "serve (sem_count s + 1) (wait_list s) = (c, ws, g)"
    by (cases "serve (sem_count s + 1) (wait_list s)") auto
  show ?thesis using s serve_split[OF s] by (simp add: signal_def units_def)
qed

lemma units_funpow_signal: "units ((signal ^^ k) s) = units s + k"
  by (induction k) (simp_all add: units_signal)

lemma signal_idle: "wait_list s = [] \<Longrightarrow> signal s = s\<lparr>sem_count := sem_count s + 1\<rparr>"
  by (simp add: signal_def)

lemma funpow_signal_idle:
  "wait_list s = [] \<Longrightarrow> (signal ^^ k) s = s\<lparr>sem_count := sem_count s + k\<rparr>"
proof (induction k)
  case 0
  then show ?case by simp
next
  case (Suc k)
  then have "(signal ^^ Suc k) s = signal (s\<lparr>sem_count := sem_count s + k\<rparr>)" by simp
  also have "\<dots> = s\<lparr>sem_count := sem_count s + Suc k\<rparr>"
    using Suc.prems by (simp add: signal_idle)
  finally show ?case .
qed

lemma producer_state_signal: "producer_state s w \<Longrightarrow> producer_state (signal s) w"
  by (cases w) (auto simp: producer_state_def signal_def)

lemma producer_state_funpow_signal: "producer_state s w \<Longrightarrow> producer_state ((signal ^^ k) s) w"
  by (induction k) (simp_all add: producer_state_signal)


subsection \<open>Frame lemmas and the two free-list operations\<close>


lemma upt4: "[0..<4] = [0, 1, 2, 3::nat]"
  by (simp add: upt_rec)

lemma vring_new_ring4:
  "vring_new 4 (replicate 4 zero_desc) (replicate 4 0) (replicate 4 zero_used) = Inr ring4"
  by code_simp

lemma free_list_from_cong:
  "length ds' = length ds \<Longrightarrow> (\<forall>j\<in>set fl. ds' ! j = ds ! j) \<Longrightarrow>
   free_list_from ds' p fl = free_list_from ds p fl"
  by (induction fl arbitrary: p) auto

lemma chain_from_cong:
  "length ds' = length ds \<Longrightarrow> (\<forall>j\<in>set c. ds' ! j = ds ! j) \<Longrightarrow>
   chain_from ds' c = chain_from ds c"
  by (induction ds c rule: chain_from.induct) auto

lemma chain_from_bound: "chain_from ds c \<Longrightarrow> j \<in> set c \<Longrightarrow> j < length ds"
  by (induction ds c rule: chain_from.induct) auto

lemma free_list_from_bound: "free_list_from ds p fl \<Longrightarrow> j \<in> set fl \<Longrightarrow> j < length ds"
  by (induction fl arbitrary: p) auto

lemma free_list_from_head_range: "free_list_from ds p fl \<Longrightarrow> length ds \<le> 65535 \<Longrightarrow> - 1 \<le> p \<and> p \<le> 65535"
  by (cases fl) auto

lemma uint_minus_one_16: "uint (- 1 :: 16 word) = 65535"
  by (simp add: unsigned_minus_1_eq_mask mask_eq_exp_minus_1)

lemma uint_word_of_int_head:
  "length ds \<le> 65535 \<Longrightarrow> free_list_from ds p fl \<Longrightarrow>
   free_list_from ds (uint (word_of_int p :: 16 word)) fl"
proof (cases fl)
  case Nil
  assume a: "length ds \<le> 65535" "free_list_from ds p fl"
  show ?thesis
  proof (cases "p = - 1")
    case True
    then show ?thesis using a Nil by (simp add: uint_minus_one_16)
  next
    case False
    then have "0 \<le> p" "p \<le> 65535" using a Nil by auto
    then have "uint (word_of_int p :: 16 word) = p" 
      by (simp add: uint_word_of_int take_bit_eq_mod)
    then show ?thesis using a by simp
  qed
next
  case (Cons x xs)
  assume a: "length ds \<le> 65535" "free_list_from ds p fl"
  then have "0 \<le> p" "p \<le> 65535" using Cons by auto
  then have "uint (word_of_int p :: 16 word) = p" 
    by (simp add: uint_word_of_int take_bit_eq_mod)
  then show ?thesis using a by simp
qed

lemma allocate_desc_ok:
  assumes "free_list_from (descs r) (free_desc_head r) (x # fl)"
  shows "allocate_desc r = Inr (x, r\<lparr>free_desc_head := uint (desc_next (descs r ! x))\<rparr>)"
  using assms by (auto simp: allocate_desc_def Let_def)

lemma free_desc_ok:
  assumes "free_list_from (descs r) (free_desc_head r) fl" "x < length (descs r)" "x \<notin> set fl"
    "length (descs r) \<le> 65535"
  shows "\<exists>r'. free_desc x r = Inr r' \<and> free_list_from (descs r') (free_desc_head r') (x # fl)
     \<and> available_descriptors r' = signal (available_descriptors r)
     \<and> length (descs r') = length (descs r) \<and> (\<forall>j. j \<noteq> x \<longrightarrow> descs r' ! j = descs r ! j)"
proof -
  let ?ds = "(descs r)[x := (descs r ! x)\<lparr>desc_next := word_of_int (free_desc_head r)\<rparr>]"
  have "\<forall>j\<in>set fl. ?ds ! j = descs r ! j"
    using assms(2,3) by (auto simp: nth_list_update)
  then have "free_list_from ?ds (uint (word_of_int (free_desc_head r) :: 16 word)) fl"
    using uint_word_of_int_head[OF assms(4) assms(1)]
    by (subst free_list_from_cong[where ds = "descs r"]) auto
  then show ?thesis using assms by (simp add: free_desc_def)
qed


lemma link_descs_ok:
  assumes "free_list_from (descs r) (free_desc_head r) fl" "distinct fl"
    "length bs \<le> length fl" "length (completions r) = length (descs r)"
  shows "\<exists>r'. link_descs bs hp prev r dr =
        Inr (if bs = [] then prev else fl ! (length bs - 1), r',
             dr @ concat (map (\<lambda>a. dropped (completions r ! a)) (take (length bs) fl))) \<and>
     free_list_from (descs r') (free_desc_head r') (drop (length bs) fl) \<and>
     length (descs r') = length (descs r) \<and> length (completions r') = length (completions r) \<and>
     (\<forall>j. j \<notin> set (take (length bs) fl) \<longrightarrow>
          descs r' ! j = descs r ! j \<and> completions r' ! j = completions r ! j) \<and>
     (\<forall>i<length bs. descs r' ! (fl ! i) = mk_desc (bs ! i) (0 < i \<or> hp) (if i = 0 then prev else fl ! (i - 1))
          \<and> completions r' ! (fl ! i) = completed (bs ! i)) \<and>
     r'\<lparr>descs := descs r, completions := completions r, free_desc_head := free_desc_head r\<rparr> = r"
  using assms
proof (induction bs arbitrary: r fl hp prev dr)
  case Nil
  then show ?case by simp
next
  case (Cons b rest)
  then obtain a fl' where fl: "fl = a # fl'" by (cases fl) auto
  have a: "a < length (descs r)" "a \<notin> set fl'" "distinct fl'" "length rest \<le> length fl'"
    using Cons.prems fl by auto
  define r1 where "r1 = r\<lparr>free_desc_head := uint (desc_next (descs r ! a))\<rparr>"
  define r2 where "r2 = r1\<lparr>descs := (descs r1)[a := mk_desc b hp prev],
                        completions := (completions r1)[a := completed b]\<rparr>"
  have alloc: "allocate_desc r = Inr (a, r1)"
    using Cons.prems(1) fl allocate_desc_ok[of r a fl'] by (simp add: r1_def)
  have step: "link_descs (b # rest) hp prev r dr =
      link_descs rest True a r2 (dr @ dropped (completions r ! a))"
    using alloc a(1) Cons.prems(4) by (simp add: r1_def r2_def mk_desc_def Let_def)
  have same: "\<forall>j\<in>set fl'. descs r2 ! j = descs r ! j"
    using a by (auto simp: r2_def r1_def nth_list_update)
  have fl2: "free_list_from (descs r2) (free_desc_head r2) fl'"
  proof -
    have "free_list_from (descs r) (uint (desc_next (descs r ! a))) fl'"
      using Cons.prems(1) fl by simp
    moreover have "length (descs r2) = length (descs r)" by (simp add: r2_def r1_def)
    moreover have "free_desc_head r2 = uint (desc_next (descs r ! a))" by (simp add: r2_def r1_def)
    ultimately show ?thesis using same free_list_from_cong[of "descs r2" "descs r" fl'] by simp
  qed
  have len2: "length (completions r2) = length (descs r2)"
    using Cons.prems(4) by (simp add: r2_def r1_def)
  from Cons.IH[OF fl2 a(3) a(4) len2, of True a "dr @ dropped (completions r ! a)"]
  obtain r' where ih:
    "link_descs rest True a r2 (dr @ dropped (completions r ! a)) =
        Inr (if rest = [] then a else fl' ! (length rest - 1), r',
             (dr @ dropped (completions r ! a)) @
               concat (map (\<lambda>a. dropped (completions r2 ! a)) (take (length rest) fl')))"
    "free_list_from (descs r') (free_desc_head r') (drop (length rest) fl')"
    "length (descs r') = length (descs r2)" "length (completions r') = length (completions r2)"
    "\<forall>j. j \<notin> set (take (length rest) fl') \<longrightarrow>
          descs r' ! j = descs r2 ! j \<and> completions r' ! j = completions r2 ! j"
    "\<forall>i<length rest. descs r' ! (fl' ! i) = mk_desc (rest ! i) (0 < i \<or> True) (if i = 0 then a else fl' ! (i - 1))
          \<and> completions r' ! (fl' ! i) = completed (rest ! i)"
    "r'\<lparr>descs := descs r2, completions := completions r2, free_desc_head := free_desc_head r2\<rparr> = r2"
    by blast
  have a_notin: "a \<notin> set (take (length rest) fl')"
    using a(2) by (meson in_set_takeD)
  have head: "(if rest = [] then a else fl' ! (length rest - 1)) = fl ! (length (b # rest) - 1)"
    using fl a(4) by (cases rest) auto
  have drp: "map (\<lambda>a. dropped (completions r2 ! a)) (take (length rest) fl') =
             map (\<lambda>a. dropped (completions r ! a)) (take (length rest) fl')"
  proof (rule map_cong[OF refl])
    fix x assume "x \<in> set (take (length rest) fl')"
    then have "x \<noteq> a" using a_notin by auto
    then show "dropped (completions r2 ! x) = dropped (completions r ! x)"
      by (simp add: r2_def r1_def)
  qed
  have c1: "link_descs (b # rest) hp prev r dr =
        Inr (if b # rest = [] then prev else fl ! (length (b # rest) - 1), r',
             dr @ concat (map (\<lambda>a. dropped (completions r ! a)) (take (length (b # rest)) fl)))"
    using step ih(1) head drp by (simp add: fl)
  have c2: "free_list_from (descs r') (free_desc_head r') (drop (length (b # rest)) fl)"
    using ih(2) fl by simp
  have c3: "length (descs r') = length (descs r)" "length (completions r') = length (completions r)"
    using ih(3,4) by (simp_all add: r2_def r1_def)
  have c4: "\<forall>j. j \<notin> set (take (length (b # rest)) fl) \<longrightarrow>
          descs r' ! j = descs r ! j \<and> completions r' ! j = completions r ! j"
    using ih(5) fl by (simp add: r2_def r1_def)
  have c5: "\<forall>i<length (b # rest). descs r' ! (fl ! i) =
            mk_desc ((b # rest) ! i) (0 < i \<or> hp) (if i = 0 then prev else fl ! (i - 1))
          \<and> completions r' ! (fl ! i) = completed ((b # rest) ! i)"
  proof (intro allI impI)
    fix i assume i: "i < length (b # rest)"
    show "descs r' ! (fl ! i) =
            mk_desc ((b # rest) ! i) (0 < i \<or> hp) (if i = 0 then prev else fl ! (i - 1))
          \<and> completions r' ! (fl ! i) = completed ((b # rest) ! i)"
    proof (cases i)
      case 0
      have "descs r' ! a = descs r2 ! a" "completions r' ! a = completions r2 ! a"
        using ih(5) a_notin by auto
      then show ?thesis using 0 fl a(1) Cons.prems(4) by (simp add: r2_def r1_def)
    next
      case (Suc k)
      then have k: "k < length rest" using i by simp
      show ?thesis using ih(6) k Suc fl by (cases k) auto
    qed
  qed
  have c6: "r'\<lparr>descs := descs r, completions := completions r, free_desc_head := free_desc_head r\<rparr> = r"
  proof -
    have "r'\<lparr>descs := descs r, completions := completions r, free_desc_head := free_desc_head r\<rparr>
        = (r'\<lparr>descs := descs r2, completions := completions r2, free_desc_head := free_desc_head r2\<rparr>)
             \<lparr>descs := descs r, completions := completions r, free_desc_head := free_desc_head r\<rparr>"
      by simp
    also have "\<dots> = r2\<lparr>descs := descs r, completions := completions r, free_desc_head := free_desc_head r\<rparr>"
      using ih(7) by simp
    also have "\<dots> = r" by (simp add: r2_def r1_def)
    finally show ?thesis .
  qed
  show ?case using c1 c2 c3 c4 c5 c6 by blast
qed


lemma chain_from_nth:
  assumes "ds \<noteq> []"
    "\<forall>i<length ds. ds ! i < length D \<and> has_next (desc_flags (D ! (ds ! i))) = (i < length ds - 1)
        \<and> (i < length ds - 1 \<longrightarrow> unat (desc_next (D ! (ds ! i))) = ds ! (i + 1))"
  shows "chain_from D ds"
  using assms
proof (induction D ds rule: chain_from.induct)
  case (1 ds)
  then show ?case by simp
next
  case (2 ds d)
  then show ?case by simp
next
  case (3 ds d e es)
  have "\<forall>i<length (e # es). (e # es) ! i < length ds
        \<and> has_next (desc_flags (ds ! ((e # es) ! i))) = (i < length (e # es) - 1)
        \<and> (i < length (e # es) - 1 \<longrightarrow> unat (desc_next (ds ! ((e # es) ! i))) = (e # es) ! (i + 1))"
  proof (intro allI impI)
    fix i assume "i < length (e # es)"
    then have "Suc i < length (d # e # es)" by simp
    from 3(3)[rule_format, OF this] show "(e # es) ! i < length ds
        \<and> has_next (desc_flags (ds ! ((e # es) ! i))) = (i < length (e # es) - 1)
        \<and> (i < length (e # es) - 1 \<longrightarrow> unat (desc_next (ds ! ((e # es) ! i))) = (e # es) ! (i + 1))"
      by auto
  qed
  then have "chain_from ds (e # es)" using 3(1) by simp
  moreover from 3(3)[rule_format, of 0] have "d < length ds" "has_next (desc_flags (ds ! d))"
     "unat (desc_next (ds ! d)) = e" by auto
  ultimately show ?case by simp
qed

lemma unat_of_nat_16: "x \<le> 65535 \<Longrightarrow> unat (word_of_nat x :: 16 word) = x"
  by (simp add: unat_of_nat)

lemma unat_of_nat_64: "x \<le> 65535 \<Longrightarrow> unat (word_of_nat x :: 64 word) = x"
  by (simp add: unat_of_nat)

lemma masked_slot_bound:
  assumes "0 < config_size r" "config_size r \<le> 65535"
  shows "unat (masked r w) < config_size r"
proof -
  obtain m where m: "config_size r = Suc m" using assms(1) by (cases "config_size r") auto
  have "(word_of_nat (config_size r) - 1 :: 64 word) = word_of_nat m"
    by (simp add: m)
  moreover have "unat (word_of_nat m :: 64 word) = m"
    using assms(2) m by (simp add: unat_of_nat_64)
  ultimately have "unat (word_of_nat (config_size r) - 1 :: 64 word) = config_size r - 1"
    by (simp add: m)
  moreover have "masked r w \<le> mask_ring r"
    unfolding masked_def by (rule word_and_le1)
  ultimately have "unat (masked r w) \<le> config_size r - 1"
    by (simp add: mask_ring_def word_le_nat_alt)
  then show ?thesis using assms by simp
qed

lemma submit_chain_ok:
  assumes ok: "ring_ok r" and fl: "free_list_from (descs r) (free_desc_head r) fl" "distinct fl"
    and bc: "bc \<noteq> []" "length bc \<le> length fl"
  shows "\<exists>r1. submit_chain bc r dr =
        Inr (r1, dr @ concat (map (\<lambda>a. dropped (completions r ! a)) (take (length bc) fl))) \<and>
     free_list_from (descs r1) (free_desc_head r1) (drop (length bc) fl) \<and>
     chain_from (descs r1) (rev (take (length bc) fl)) \<and>
     length (descs r1) = length (descs r) \<and> length (completions r1) = length (completions r) \<and>
     (\<forall>j. j \<notin> set (take (length bc) fl) \<longrightarrow>
          descs r1 ! j = descs r ! j \<and> completions r1 ! j = completions r ! j) \<and>
     (\<forall>i<length bc. descs r1 ! (rev (take (length bc) fl) ! i) =
            mk_desc (bc ! i) (i < length bc - 1)
              (if i = length bc - 1 then 0 else rev (take (length bc) fl) ! (i + 1))
          \<and> completions r1 ! (rev (take (length bc) fl) ! i) = completed (bc ! i)) \<and>
     avail_ring r1 = (avail_ring r)[unat (masked r (ucast (avail_head r))) :=
                        word_of_nat (hd (rev (take (length bc) fl)))] \<and>
     avail_head r1 = avail_head r + 1 \<and>
     r1\<lparr>descs := descs r, completions := completions r, free_desc_head := free_desc_head r,
        avail_ring := avail_ring r, avail_head := avail_head r\<rparr> = r"
proof -
  let ?k = "length bc"
  let ?as = "take ?k fl"
  let ?ds = "rev ?as"
  have lc: "length (completions r) = length (descs r)" using ok by (simp add: ring_ok_def)
  have lk: "length (rev bc) \<le> length fl" using bc by simp
  from link_descs_ok[OF fl lk lc, of False 0 dr]
  obtain r' where L:
    "link_descs (rev bc) False 0 r dr =
        Inr (fl ! (?k - 1), r', dr @ concat (map (\<lambda>a. dropped (completions r ! a)) ?as))"
    "free_list_from (descs r') (free_desc_head r') (drop ?k fl)"
    "length (descs r') = length (descs r)" "length (completions r') = length (completions r)"
    "\<forall>j. j \<notin> set ?as \<longrightarrow> descs r' ! j = descs r ! j \<and> completions r' ! j = completions r ! j"
    "\<forall>i<?k. descs r' ! (fl ! i) = mk_desc (rev bc ! i) (0 < i \<or> False) (if i = 0 then 0 else fl ! (i - 1))
          \<and> completions r' ! (fl ! i) = completed (rev bc ! i)"
    "r'\<lparr>descs := descs r, completions := completions r, free_desc_head := free_desc_head r\<rparr> = r"
    using bc by auto
  have kpos: "0 < ?k" using bc by simp
  have las: "length ?as = ?k" using bc by simp
  have dsn: "\<And>i. i < ?k \<Longrightarrow> ?ds ! i = fl ! (?k - 1 - i)"
    using las bc by (simp add: rev_nth)
  have ne: "?ds \<noteq> []" using las kpos by auto
  have hd: "hd ?ds = fl ! (?k - 1)"
    using dsn[of 0] kpos hd_conv_nth[OF ne] by simp
  have fields: "config_size r' = config_size r" "avail_head r' = avail_head r"
     "avail_ring r' = avail_ring r"
    using arg_cong[OF L(7), of config_size] arg_cong[OF L(7), of avail_head]
      arg_cong[OF L(7), of avail_ring] by simp_all
  have msk: "masked r' = masked r" by (rule ext) (simp add: masked_def mask_ring_def fields)
  have slot: "unat (masked r (ucast (avail_head r))) < length (avail_ring r)"
    using masked_slot_bound[of r] ok by (simp add: ring_ok_def)
  define r1 where "r1 = r'\<lparr>avail_ring := (avail_ring r')[unat (masked r (ucast (avail_head r))) :=
                      word_of_nat (fl ! (?k - 1))], avail_head := avail_head r' + 1\<rparr>"
  have sc: "submit_chain bc r dr = Inr (r1, dr @ concat (map (\<lambda>a. dropped (completions r ! a)) ?as))"
    using L(1) slot by (simp add: submit_chain_def Let_def msk fields r1_def)
  have pw: "\<forall>i<?k. descs r1 ! (?ds ! i) =
            mk_desc (bc ! i) (i < ?k - 1) (if i = ?k - 1 then 0 else ?ds ! (i + 1))
          \<and> completions r1 ! (?ds ! i) = completed (bc ! i)"
  proof (intro allI impI)
    fix i assume i: "i < ?k"
    let ?j = "?k - 1 - i"
    have j: "?j < ?k" using i by simp
    have rb: "rev bc ! ?j = bc ! i" using i by (simp add: rev_nth)
    have nx: "(if ?j = 0 then 0 else fl ! (?j - 1)) = (if i = ?k - 1 then 0 else ?ds ! (i + 1))"
    proof (cases "i = ?k - 1")
      case True then show ?thesis by simp
    next
      case False
      then have lt: "i + 1 < ?k" using i by simp
      then have "?ds ! (i + 1) = fl ! (?k - 1 - (i + 1))" by (rule dsn)
      moreover have "?j \<noteq> 0" "?j - 1 = ?k - 1 - (i + 1)" using lt by simp_all
      ultimately show ?thesis using False by simp
    qed
    have "(0 < ?j \<or> False) = (i < ?k - 1)" using i by auto
    then show "descs r1 ! (?ds ! i) =
            mk_desc (bc ! i) (i < ?k - 1) (if i = ?k - 1 then 0 else ?ds ! (i + 1))
          \<and> completions r1 ! (?ds ! i) = completed (bc ! i)"
      using L(6)[rule_format, OF j] rb nx dsn[OF i] by (simp add: r1_def)
  qed
  have dist: "distinct ?ds" using fl(2) by simp
  have bound: "\<And>i. i < ?k \<Longrightarrow> ?ds ! i < length (descs r)"
  proof -
    fix i assume "i < ?k"
    then have "?ds ! i = fl ! (?k - 1 - i)" "?k - 1 - i < length fl"
      using dsn bc(2) by simp_all
    then have "?ds ! i \<in> set fl" by simp
    then show "?ds ! i < length (descs r)" using free_list_from_bound[OF fl(1)] by simp
  qed
  have fits: "\<And>i. i < ?k \<Longrightarrow> unat (word_of_nat (?ds ! i) :: 16 word) = ?ds ! i"
  proof -
    fix i assume "i < ?k"
    then have "?ds ! i < length (descs r)" by (rule bound)
    then have "?ds ! i \<le> 65535" using ok by (simp add: ring_ok_def)
    then show "unat (word_of_nat (?ds ! i) :: 16 word) = ?ds ! i" by (rule unat_of_nat_16)
  qed
  have ch: "chain_from (descs r1) ?ds"
  proof (rule chain_from_nth)
    show "?ds \<noteq> []" using bc kpos las by auto
    show "\<forall>i<length ?ds. ?ds ! i < length (descs r1)
        \<and> has_next (desc_flags (descs r1 ! (?ds ! i))) = (i < length ?ds - 1)
        \<and> (i < length ?ds - 1 \<longrightarrow> unat (desc_next (descs r1 ! (?ds ! i))) = ?ds ! (i + 1))"
    proof (intro allI impI)
      fix i assume "i < length ?ds"
      then have i: "i < ?k" using las by simp
      have "descs r1 ! (?ds ! i) = mk_desc (bc ! i) (i < ?k - 1) (if i = ?k - 1 then 0 else ?ds ! (i + 1))"
        using pw i by blast
      moreover have "i < ?k - 1 \<Longrightarrow> unat (word_of_nat (?ds ! (i + 1)) :: 16 word) = ?ds ! (i + 1)"
        using fits[of "i + 1"] by simp
      ultimately show "?ds ! i < length (descs r1)
        \<and> has_next (desc_flags (descs r1 ! (?ds ! i))) = (i < length ?ds - 1)
        \<and> (i < length ?ds - 1 \<longrightarrow> unat (desc_next (descs r1 ! (?ds ! i))) = ?ds ! (i + 1))"
        using bound[OF i] L(3) las by (simp add: mk_desc_def r1_def)
    qed
  qed
  have rest: "r1\<lparr>descs := descs r, completions := completions r, free_desc_head := free_desc_head r,
        avail_ring := avail_ring r, avail_head := avail_head r\<rparr> = r"
  proof -
    have "r1\<lparr>descs := descs r, completions := completions r, free_desc_head := free_desc_head r,
        avail_ring := avail_ring r, avail_head := avail_head r\<rparr>
       = (r'\<lparr>descs := descs r, completions := completions r, free_desc_head := free_desc_head r\<rparr>)
           \<lparr>avail_ring := avail_ring r, avail_head := avail_head r\<rparr>"
      by (simp add: r1_def)
    also have "\<dots> = r" using L(7) by simp
    finally show ?thesis .
  qed
  show ?thesis
    using sc L(2,3,4,5) ch pw hd rest fields by (intro exI[of _ r1]) (simp add: r1_def)
qed


subsection \<open>Freeing a chain\<close>

lemma chain_from_frame:
  assumes "chain_from ds c" "length ds' = length ds" "\<forall>j. j \<notin> X \<longrightarrow> ds' ! j = ds ! j"
    "set c \<inter> X = {}"
  shows "chain_from ds' c"
proof -
  have "\<forall>j\<in>set c. ds' ! j = ds ! j" using assms(3,4) by auto
  then show ?thesis using chain_from_cong[OF assms(2), of c] assms(1) by simp
qed

lemma free_list_from_frame:
  assumes "free_list_from ds p fl" "length ds' = length ds" "\<forall>j. j \<notin> X \<longrightarrow> ds' ! j = ds ! j"
    "set fl \<inter> X = {}"
  shows "free_list_from ds' p fl"
proof -
  have "\<forall>j\<in>set fl. ds' ! j = ds ! j" using assms(3,4) by auto
  then show ?thesis using free_list_from_cong[OF assms(2), of fl p] assms(1) by simp
qed

lemma free_desc_frame:
  assumes "free_list_from (descs r) (free_desc_head r) fl" "x < length (descs r)" "x \<notin> set fl"
    "length (descs r) \<le> 65535"
  shows "\<exists>r'. free_desc x r = Inr r' \<and> free_list_from (descs r') (free_desc_head r') (x # fl)
     \<and> available_descriptors r' = signal (available_descriptors r)
     \<and> length (descs r') = length (descs r) \<and> (\<forall>j. j \<noteq> x \<longrightarrow> descs r' ! j = descs r ! j)
     \<and> r'\<lparr>descs := descs r, free_desc_head := free_desc_head r,
           available_descriptors := available_descriptors r\<rparr> = r"
proof -
  from free_desc_ok[OF assms] obtain r' where R: "free_desc x r = Inr r'"
    "free_list_from (descs r') (free_desc_head r') (x # fl)"
    "available_descriptors r' = signal (available_descriptors r)"
    "length (descs r') = length (descs r)" "\<forall>j. j \<noteq> x \<longrightarrow> descs r' ! j = descs r ! j"
    by blast
  have "r'\<lparr>descs := descs r, free_desc_head := free_desc_head r,
           available_descriptors := available_descriptors r\<rparr> = r"
    using R(1) assms(2) by (auto simp: free_desc_def)
  then show ?thesis using R by blast
qed

lemma free_chain_ok:
  assumes "chain_from (descs r) c" "distinct c"
    "free_list_from (descs r) (free_desc_head r) fl" "set c \<inter> set fl = {}"
    "length (descs r) \<le> 65535"
  shows "\<exists>r'. free_chain (hd c) r = Some (Inr r') \<and>
     free_list_from (descs r') (free_desc_head r') (rev c @ fl) \<and>
     available_descriptors r' = (signal ^^ length c) (available_descriptors r) \<and>
     length (descs r') = length (descs r) \<and>
     (\<forall>j. j \<notin> set c \<longrightarrow> descs r' ! j = descs r ! j) \<and>
     r'\<lparr>descs := descs r, free_desc_head := free_desc_head r,
        available_descriptors := available_descriptors r\<rparr> = r"
  using assms
proof (induction c arbitrary: r fl)
  case Nil
  then show ?case by simp
next
  case (Cons d c')
  have d: "d < length (descs r)" using Cons.prems(1) by (cases c') auto
  have dfl: "d \<notin> set fl" using Cons.prems(4) by auto
  from free_desc_frame[OF Cons.prems(3) d dfl Cons.prems(5)] obtain r1 where R1:
    "free_desc d r = Inr r1" "free_list_from (descs r1) (free_desc_head r1) (d # fl)"
    "available_descriptors r1 = signal (available_descriptors r)"
    "length (descs r1) = length (descs r)" "\<forall>j. j \<noteq> d \<longrightarrow> descs r1 ! j = descs r ! j"
    "r1\<lparr>descs := descs r, free_desc_head := free_desc_head r,
           available_descriptors := available_descriptors r\<rparr> = r"
    by blast
  show ?case
  proof (cases c')
    case Nil
    then have "\<not> has_next (desc_flags (descs r ! d))" using Cons.prems(1) by simp
    then have "free_chain d r = Some (Inr r1)"
      using d R1(1) by (subst free_chain.simps) (simp add: Let_def)
    then show ?thesis using R1 Nil by (intro exI[of _ r1]) simp
  next
    case (Cons e es)
    then have hn: "has_next (desc_flags (descs r ! d))" "unat (desc_next (descs r ! d)) = e"
      and ch: "chain_from (descs r) (e # es)"
      using Cons.prems(1) by simp_all
    have step: "free_chain d r = free_chain e r1"
      using d R1(1) hn by (subst free_chain.simps) (simp add: Let_def)
    have nd: "d \<notin> set (e # es)" using Cons.prems(2) Cons by simp
    have "\<forall>j. j \<notin> {d} \<longrightarrow> descs r1 ! j = descs r ! j" using R1(5) by simp
    moreover have "set (e # es) \<inter> {d} = {}" using nd by simp
    ultimately have "chain_from (descs r1) (e # es)"
      using chain_from_frame[OF ch R1(4)] by blast
    then have ch1: "chain_from (descs r1) c'" using Cons by simp
    have dist: "distinct c'" using Cons.prems(2) by simp
    have disj: "set c' \<inter> set (d # fl) = {}" using Cons.prems(2,4) by auto
    have len1: "length (descs r1) \<le> 65535" using R1(4) Cons.prems(5) by simp
    from Cons.IH[OF ch1 dist R1(2) disj len1] obtain r' where R':
      "free_chain (hd c') r1 = Some (Inr r')"
      "free_list_from (descs r') (free_desc_head r') (rev c' @ d # fl)"
      "available_descriptors r' = (signal ^^ length c') (available_descriptors r1)"
      "length (descs r') = length (descs r1)"
      "\<forall>j. j \<notin> set c' \<longrightarrow> descs r' ! j = descs r1 ! j"
      "r'\<lparr>descs := descs r1, free_desc_head := free_desc_head r1,
          available_descriptors := available_descriptors r1\<rparr> = r1"
      by blast
    have fr: "r'\<lparr>descs := descs r, free_desc_head := free_desc_head r,
        available_descriptors := available_descriptors r\<rparr> = r"
    proof -
      have "r'\<lparr>descs := descs r, free_desc_head := free_desc_head r,
                available_descriptors := available_descriptors r\<rparr>
          = (r'\<lparr>descs := descs r1, free_desc_head := free_desc_head r1,
                available_descriptors := available_descriptors r1\<rparr>)
              \<lparr>descs := descs r, free_desc_head := free_desc_head r,
                available_descriptors := available_descriptors r\<rparr>" by simp
      also have "\<dots> = r" using R'(6) R1(6) by simp
      finally show ?thesis .
    qed
    have "free_chain (hd (d # c')) r = Some (Inr r')" using step R'(1) Cons by simp
    moreover have "free_list_from (descs r') (free_desc_head r') (rev (d # c') @ fl)"
      using R'(2) by simp
    moreover have "available_descriptors r' = (signal ^^ length (d # c')) (available_descriptors r)"
      using R'(3) R1(3) by (simp add: funpow_swap1)
    moreover have "length (descs r') = length (descs r)" using R'(4) R1(4) by simp
    moreover have "\<forall>j. j \<notin> set (d # c') \<longrightarrow> descs r' ! j = descs r ! j"
      using R'(5) R1(5) by simp
    ultimately show ?thesis using fr by blast
  qed
qed

lemma complete_entry_ok:
  assumes ok: "ring_ok r"
    and ue: "used_elements r ! unat (masked r (ucast (used_tail r))) = ue"
    and ch: "chain_from (descs r) c" "hd c = unat (ue_id ue)" "distinct c"
    and fl: "free_list_from (descs r) (free_desc_head r) fl" "set c \<inter> set fl = {}"
    and pr: "completions r ! unat (ue_id ue) = Pending k"
  shows "\<exists>r'. complete_entry r = Some (Inr (r', (k, ucast (ue_len ue)))) \<and>
     completions r' = (completions r)[unat (ue_id ue) := Fulfilled (ucast (ue_len ue))] \<and>
     free_list_from (descs r') (free_desc_head r') (rev c @ fl) \<and>
     available_descriptors r' = (signal ^^ length c) (available_descriptors r) \<and>
     used_tail r' = used_tail r + 1 \<and>
     length (descs r') = length (descs r) \<and>
     (\<forall>j. j \<notin> set c \<longrightarrow> descs r' ! j = descs r ! j) \<and>
     r'\<lparr>descs := descs r, free_desc_head := free_desc_head r,
        available_descriptors := available_descriptors r, completions := completions r,
        used_tail := used_tail r\<rparr> = r"
proof -
  let ?id = "unat (ue_id ue)"
  let ?p = "Fulfilled (ucast (ue_len ue)) :: promise"
  define r1 where "r1 = r\<lparr>used_tail := used_tail r + 1, completions := (completions r)[?id := ?p]\<rparr>"
  have slot: "unat (masked r (ucast (used_tail r))) < length (used_elements r)"
    using masked_slot_bound[of r] ok by (simp add: ring_ok_def)
  have cne: "c \<noteq> []" using ch(1) by auto
  then have "hd c \<in> set c" by simp
  then have idb: "?id < length (descs r)" using chain_from_bound[OF ch(1)] ch(2) by simp
  then have idc: "?id < length (completions r)" using ok by (simp add: ring_ok_def)
  have len: "length (descs r) \<le> 65535" using ok by (simp add: ring_ok_def)
  have a1: "chain_from (descs r1) c" "free_list_from (descs r1) (free_desc_head r1) fl"
    "length (descs r1) \<le> 65535"
    using ch(1) fl(1) len by (simp_all add: r1_def)
  from free_chain_ok[OF a1(1) ch(3) a1(2) fl(2) a1(3)] obtain r' where R':
    "free_chain (hd c) r1 = Some (Inr r')"
    "free_list_from (descs r') (free_desc_head r') (rev c @ fl)"
    "available_descriptors r' = (signal ^^ length c) (available_descriptors r1)"
    "length (descs r') = length (descs r1)"
    "\<forall>j. j \<notin> set c \<longrightarrow> descs r' ! j = descs r1 ! j"
    "r'\<lparr>descs := descs r1, free_desc_head := free_desc_head r1,
        available_descriptors := available_descriptors r1\<rparr> = r1"
    by blast
  have ce: "complete_entry r = Some (Inr (r', (k, ucast (ue_len ue))))"
    using slot idc ue pr R'(1) ch(2)
    by (simp add: complete_entry_def Let_def set_value_def r1_def)
  have c': "completions r' = completions r1" "used_tail r' = used_tail r1"
    using arg_cong[OF R'(6), of completions] arg_cong[OF R'(6), of used_tail] by simp_all
  have fr: "r'\<lparr>descs := descs r, free_desc_head := free_desc_head r,
        available_descriptors := available_descriptors r, completions := completions r,
        used_tail := used_tail r\<rparr> = r"
  proof -
    have "r'\<lparr>descs := descs r, free_desc_head := free_desc_head r,
        available_descriptors := available_descriptors r, completions := completions r,
        used_tail := used_tail r\<rparr>
      = (r'\<lparr>descs := descs r1, free_desc_head := free_desc_head r1,
        available_descriptors := available_descriptors r1\<rparr>)
         \<lparr>descs := descs r, free_desc_head := free_desc_head r,
        available_descriptors := available_descriptors r, completions := completions r,
        used_tail := used_tail r\<rparr>" by simp
    also have "\<dots> = r" unfolding R'(6) by (simp add: r1_def)
    finally show ?thesis .
  qed
  show ?thesis
    using ce c' R'(2,3,4,5) fr by (intro exI[of _ r']) (simp add: r1_def)
qed


lemma unat_ucast_32_64: "unat (ucast (w::32 word) :: 64 word) = unat w"
proof -
  have "unat w < 2 ^ 32" using unsigned_less[of w, where 'a=nat] by simp
  then show ?thesis by (simp add: unsigned_ucast_eq take_bit_nat_eq_self_iff)
qed

lemma complete_one_ok:
  assumes ok: "ring_ok r"
    and ue: "used_elements r ! unat (masked r (ucast (used_tail r))) = ue"
    and one: "used_idx r = used_tail r + 1"
    and ch: "chain_from (descs r) c" "hd c = unat (ue_id ue)" "distinct c"
    and fl: "free_list_from (descs r) (free_desc_head r) fl" "set c \<inter> set fl = {}"
    and pr: "completions r ! unat (ue_id ue) = Pending k"
  shows "\<exists>r'. complete r = Some (Inr (r', [(k, ucast (ue_len ue))])) \<and>
     completions r' = (completions r)[unat (ue_id ue) := Fulfilled (ucast (ue_len ue))] \<and>
     free_list_from (descs r') (free_desc_head r') (rev c @ fl) \<and>
     available_descriptors r' = (signal ^^ length c) (available_descriptors r) \<and>
     used_tail r' = used_idx r"
proof -
  from complete_entry_ok[OF ok ue ch fl pr] obtain r' where R:
    "complete_entry r = Some (Inr (r', (k, ucast (ue_len ue))))"
    "completions r' = (completions r)[unat (ue_id ue) := Fulfilled (ucast (ue_len ue))]"
    "free_list_from (descs r') (free_desc_head r') (rev c @ fl)"
    "available_descriptors r' = (signal ^^ length c) (available_descriptors r)"
    "used_tail r' = used_tail r + 1"
    by blast
  have ne: "used_idx r \<noteq> used_tail r" using one by simp
  have "complete r = complete_loop (used_idx r) r' [(k, ucast (ue_len ue))]"
    unfolding complete_def using ne R(1) by (subst complete_loop.simps) simp
  also have "\<dots> = Some (Inr (r', [(k, ucast (ue_len ue))]))"
    using one R(5) by (subst complete_loop.simps) simp
  finally show ?thesis using R one by auto
qed

subsection \<open>The submit loop on one chain\<close>

text \<open>
  C1. The submit loop on one chain of k >= 1 buffers, with at least k descriptors on the
  free list: it takes exactly the first k descriptors off the free list; with d0..d(k-1)
  these k descriptors in the reverse of the order they were taken, d0 is the head stored in
  the available ring, descriptor di carries the address, length and writeable bit of buffer
  i, HAS_NEXT is set and next = d(i+1) for i < k-1, HAS_NEXT is clear for i = k-1, and the
  descriptor taken first, d(k-1), is that of the last buffer.
\<close>

theorem submit_chain_links_in_reverse:
  assumes "ring_ok r" "free_list_from (descs r) (free_desc_head r) fl" "distinct fl"
    "bc \<noteq> []" "length bc \<le> length fl"
  shows "\<exists>r1 dr1 ds. submit_chain bc r dr = Inr (r1, dr1) \<and>
     ds = rev (take (length bc) fl) \<and> length ds = length bc \<and> distinct ds \<and>
     free_list_from (descs r1) (free_desc_head r1) (drop (length bc) fl) \<and>
     avail_ring r1 ! unat (masked r (ucast (avail_head r))) = word_of_nat (ds ! 0) \<and>
     avail_head r1 = avail_head r + 1 \<and>
     (\<forall>i<length bc.
        desc_paddr (descs r1 ! (ds ! i)) = addr (bc ! i) \<and>
        desc_len (descs r1 ! (ds ! i)) = len (bc ! i) \<and>
        writeable_flag (desc_flags (descs r1 ! (ds ! i))) = writeable (bc ! i) \<and>
        has_next (desc_flags (descs r1 ! (ds ! i))) = (i < length bc - 1) \<and>
        (i < length bc - 1 \<longrightarrow> unat (desc_next (descs r1 ! (ds ! i))) = ds ! (i + 1)) \<and>
        completions r1 ! (ds ! i) = completed (bc ! i)) \<and>
     (\<exists>r0. allocate_desc r = Inr (ds ! (length bc - 1), r0))"
proof -
  let ?k = "length bc"
  let ?ds = "rev (take ?k fl)"
  from submit_chain_ok[OF assms, of dr] obtain r1 where S:
    "submit_chain bc r dr =
        Inr (r1, dr @ concat (map (\<lambda>a. dropped (completions r ! a)) (take ?k fl)))"
    "free_list_from (descs r1) (free_desc_head r1) (drop ?k fl)"
    "chain_from (descs r1) ?ds"
    "\<forall>i<?k. descs r1 ! (?ds ! i) =
            mk_desc (bc ! i) (i < ?k - 1) (if i = ?k - 1 then 0 else ?ds ! (i + 1))
          \<and> completions r1 ! (?ds ! i) = completed (bc ! i)"
    "avail_ring r1 = (avail_ring r)[unat (masked r (ucast (avail_head r))) := word_of_nat (hd ?ds)]"
    "avail_head r1 = avail_head r + 1"
    by blast
  have len: "length ?ds = ?k" using assms(5) by simp
  have ne: "?ds \<noteq> []" using len assms(4) by auto
  have slot: "unat (masked r (ucast (avail_head r))) < length (avail_ring r)"
    using masked_slot_bound[of r] assms(1) by (simp add: ring_ok_def)
  have av: "avail_ring r1 ! unat (masked r (ucast (avail_head r))) = word_of_nat (?ds ! 0)"
    using S(5) slot hd_conv_nth[OF ne] by simp
  have fields: "\<forall>i<?k.
        desc_paddr (descs r1 ! (?ds ! i)) = addr (bc ! i) \<and>
        desc_len (descs r1 ! (?ds ! i)) = len (bc ! i) \<and>
        writeable_flag (desc_flags (descs r1 ! (?ds ! i))) = writeable (bc ! i) \<and>
        has_next (desc_flags (descs r1 ! (?ds ! i))) = (i < ?k - 1) \<and>
        (i < ?k - 1 \<longrightarrow> unat (desc_next (descs r1 ! (?ds ! i))) = ?ds ! (i + 1)) \<and>
        completions r1 ! (?ds ! i) = completed (bc ! i)"
  proof (intro allI impI)
    fix i assume i: "i < ?k"
    have d: "descs r1 ! (?ds ! i) =
            mk_desc (bc ! i) (i < ?k - 1) (if i = ?k - 1 then 0 else ?ds ! (i + 1))"
      and c: "completions r1 ! (?ds ! i) = completed (bc ! i)"
      using S(4) i by blast+
    have nx: "i < ?k - 1 \<Longrightarrow> unat (desc_next (descs r1 ! (?ds ! i))) = ?ds ! (i + 1)"
    proof -
      assume lt: "i < ?k - 1"
      then have "i + 1 < length ?ds" using len by simp
      then have "?ds ! (i + 1) \<in> set ?ds" by (rule nth_mem)
      then have "?ds ! (i + 1) \<in> set fl" by (auto dest: in_set_takeD)
      then have "?ds ! (i + 1) < length (descs r)"
        using free_list_from_bound[OF assms(2)] by simp
      then have "?ds ! (i + 1) \<le> 65535" using assms(1) by (simp add: ring_ok_def)
      then have "unat (word_of_nat (?ds ! (i + 1)) :: 16 word) = ?ds ! (i + 1)"
        by (rule unat_of_nat_16)
      then show ?thesis using d lt by (simp add: mk_desc_def)
    qed
    show "desc_paddr (descs r1 ! (?ds ! i)) = addr (bc ! i) \<and>
        desc_len (descs r1 ! (?ds ! i)) = len (bc ! i) \<and>
        writeable_flag (desc_flags (descs r1 ! (?ds ! i))) = writeable (bc ! i) \<and>
        has_next (desc_flags (descs r1 ! (?ds ! i))) = (i < ?k - 1) \<and>
        (i < ?k - 1 \<longrightarrow> unat (desc_next (descs r1 ! (?ds ! i))) = ?ds ! (i + 1)) \<and>
        completions r1 ! (?ds ! i) = completed (bc ! i)"
      using nx c by (simp add: d mk_desc_def)
  qed
  have first: "\<exists>r0. allocate_desc r = Inr (?ds ! (?k - 1), r0)"
  proof -
    obtain a fl' where fl: "fl = a # fl'" using assms(4,5) by (cases fl) auto
    have "?ds ! (?k - 1) = a"
      using assms(4,5) fl len by (simp add: rev_nth)
    then show ?thesis using allocate_desc_ok[of r a fl'] assms(2) fl by auto
  qed
  show ?thesis
    using S(1,2,6) len av fields first assms(3) by (intro exI[of _ r1] exI[of _ ?ds] exI) simp
qed


theorem submit_chain_links_in_reverse_witness:
  "ring_ok ring4 \<and> free_list_from (descs ring4) (free_desc_head ring4) [3, 2, 1, 0] \<and>
   (\<exists>r1 dr1. submit_chain [buf_a, buf_b] ring4 [] = Inr (r1, dr1) \<and>
      free_list_from (descs r1) (free_desc_head r1) [1, 0] \<and>
      avail_ring r1 ! 0 = 2 \<and>
      has_next (desc_flags (descs r1 ! 2)) \<and> unat (desc_next (descs r1 ! 2)) = 3 \<and>
      \<not> has_next (desc_flags (descs r1 ! 3)) \<and>
      desc_paddr (descs r1 ! 2) = 4096 \<and> desc_paddr (descs r1 ! 3) = 8192)"
proof -
  let ?bc = "[buf_a, buf_b]"
  let ?fl = "[3, 2, 1, 0::nat]"
  have h1: "ring_ok ring4" by (simp add: ring_ok_def ring4_def)
  have h2: "free_list_from (descs ring4) (free_desc_head ring4) ?fl"
    by (simp add: ring4_def zero_desc_def)
  have h3: "distinct ?fl" by simp
  have h4: "?bc \<noteq> []" by simp
  have h5: "length ?bc \<le> length ?fl" by simp
  have m: "unat (masked ring4 (ucast (avail_head ring4))) = 0"
    by (simp add: masked_def ring4_def)
  have t: "rev (take (length ?bc) ?fl) = [2, 3]" by simp
  have d: "drop (length ?bc) ?fl = [1, 0]" by simp
  from submit_chain_links_in_reverse[OF h1 h2 h3 h4 h5, of "[]"] obtain r1 dr1 where W:
    "submit_chain ?bc ring4 [] = Inr (r1, dr1)"
    "free_list_from (descs r1) (free_desc_head r1) [1, 0]"
    "avail_ring r1 ! 0 = word_of_nat ([2, 3] ! 0)"
    "\<forall>i<length ?bc.
        desc_paddr (descs r1 ! ([2, 3] ! i)) = addr (?bc ! i) \<and>
        desc_len (descs r1 ! ([2, 3] ! i)) = len (?bc ! i) \<and>
        writeable_flag (desc_flags (descs r1 ! ([2, 3] ! i))) = writeable (?bc ! i) \<and>
        has_next (desc_flags (descs r1 ! ([2, 3] ! i))) = (i < length ?bc - 1) \<and>
        (i < length ?bc - 1 \<longrightarrow> unat (desc_next (descs r1 ! ([2, 3] ! i))) = [2, 3] ! (i + 1)) \<and>
        completions r1 ! ([2, 3] ! i) = completed (?bc ! i)"
    unfolding t d m by blast
  have i0: "desc_paddr (descs r1 ! 2) = 4096" "has_next (desc_flags (descs r1 ! 2))"
     "unat (desc_next (descs r1 ! 2)) = 3"
    using W(4)[rule_format, of 0] by (simp_all add: buf_a_def)
  have i1: "desc_paddr (descs r1 ! 3) = 8192" "\<not> has_next (desc_flags (descs r1 ! 3))"
    using W(4)[rule_format, of 1] by (simp_all add: buf_b_def)
  have av: "avail_ring r1 ! 0 = 2" using W(3) by simp
  show ?thesis using h1 h2 W(1,2) i0 i1 av by blast
qed


subsection \<open>The reap loop on one entry\<close>

text \<open>
  C2. One used-ring entry {id, len} read by the reap loop, where id is the head of a
  descriptor chain c that is not on the free list and slot id holds a pending promise:
  the promise is fulfilled, once, with len (its continuation is the one fired pair of the
  entry, and the slot then holds the value), the descriptors of c, those reached from id
  by following next while HAS_NEXT is set, are pushed on the free list and no others, the
  semaphore is signalled once for each of them (so that, when no wait is suspended on it,
  its count grows by their number), and the used tail advances by one. When the entry is
  the only one outstanding, this is all that complete() does.
\<close>

theorem complete_entry_fulfils_and_frees:
  assumes "ring_ok r"
    and "used_elements r ! unat (masked r (ucast (used_tail r))) = ue"
    and "chain_from (descs r) c" "hd c = unat (ue_id ue)" "distinct c"
    and "free_list_from (descs r) (free_desc_head r) fl" "set c \<inter> set fl = {}"
    and "completions r ! unat (ue_id ue) = Pending k"
  shows "\<exists>r'. complete_entry r = Some (Inr (r', (k, ucast (ue_len ue)))) \<and>
     completions r' = (completions r)[unat (ue_id ue) := Fulfilled (ucast (ue_len ue))] \<and>
     completions r' ! unat (ue_id ue) = Fulfilled (ucast (ue_len ue)) \<and>
     free_list_from (descs r') (free_desc_head r') (rev c @ fl) \<and>
     available_descriptors r' = (signal ^^ length c) (available_descriptors r) \<and>
     (wait_list (available_descriptors r) = [] \<longrightarrow>
        sem_count (available_descriptors r') = sem_count (available_descriptors r) + length c) \<and>
     used_tail r' = used_tail r + 1 \<and>
     (used_idx r = used_tail r + 1 \<longrightarrow> complete r = Some (Inr (r', [(k, ucast (ue_len ue))])))"
proof -
  from complete_entry_ok[OF assms] obtain r' where R:
    "complete_entry r = Some (Inr (r', (k, ucast (ue_len ue))))"
    "completions r' = (completions r)[unat (ue_id ue) := Fulfilled (ucast (ue_len ue))]"
    "free_list_from (descs r') (free_desc_head r') (rev c @ fl)"
    "available_descriptors r' = (signal ^^ length c) (available_descriptors r)"
    "used_tail r' = used_tail r + 1"
    by blast
  have "c \<noteq> []" using assms(3) by auto
  then have "hd c \<in> set c" by simp
  then have "unat (ue_id ue) < length (completions r)"
    using chain_from_bound[OF assms(3)] assms(1,4) by (simp add: ring_ok_def)
  then have slot: "completions r' ! unat (ue_id ue) = Fulfilled (ucast (ue_len ue))"
    using R(2) by simp
  have one: "complete r = Some (Inr (r', [(k, ucast (ue_len ue))]))"
    if h: "used_idx r = used_tail r + 1"
  proof -
    have ne: "used_idx r \<noteq> used_tail r" using h by simp
    have "complete r = complete_loop (used_idx r) r' [(k, ucast (ue_len ue))]"
      unfolding complete_def using ne R(1) by (subst complete_loop.simps) simp
    also have "\<dots> = Some (Inr (r', [(k, ucast (ue_len ue))]))"
      using h R(5) by (subst complete_loop.simps) simp
    finally show ?thesis .
  qed
  have cnt: "sem_count (available_descriptors r') = sem_count (available_descriptors r) + length c"
    if "wait_list (available_descriptors r) = []"
    using R(4) funpow_signal_idle[OF that, of "length c"] by simp
  show ?thesis using R slot one cnt by blast
qed

theorem complete_entry_fulfils_and_frees_witness:
  "ring_ok ring4_inflight \<and> chain_from (descs ring4_inflight) [2, 3] \<and>
   free_list_from (descs ring4_inflight) (free_desc_head ring4_inflight) [1, 0] \<and>
   (\<exists>r'. complete ring4_inflight = Some (Inr (r', [(NoContinuation, 0)])) \<and>
      completions r' ! 2 = Fulfilled 0 \<and>
      free_list_from (descs r') (free_desc_head r') [3, 2, 1, 0] \<and>
      available_descriptors r' = new_semaphore 4 \<and> used_tail r' = 1)"
proof -
  let ?ue = "\<lparr>ue_id = 2, ue_len = 0\<rparr> :: used_elem"
  have h1: "ring_ok ring4_inflight" by (simp add: ring_ok_def ring4_inflight_def)
  have h2: "used_elements ring4_inflight ! unat (masked ring4_inflight (ucast (used_tail ring4_inflight))) = ?ue"
    by (simp add: ring4_inflight_def masked_def)
  have h3: "chain_from (descs ring4_inflight) [2, 3]"
    by (simp add: ring4_inflight_def mk_desc_def)
  have h4: "hd [2, 3] = unat (ue_id ?ue)" by simp
  have h5: "distinct [2, 3::nat]" by simp
  have h6: "free_list_from (descs ring4_inflight) (free_desc_head ring4_inflight) [1, 0]"
    by (simp add: ring4_inflight_def zero_desc_def)
  have h7: "set [2, 3] \<inter> set [1, 0::nat] = {}" by simp
  have h8: "completions ring4_inflight ! unat (ue_id ?ue) = Pending NoContinuation"
    by (simp add: ring4_inflight_def)
  have h9: "used_idx ring4_inflight = used_tail ring4_inflight + 1"
    by (simp add: ring4_inflight_def)
  from complete_entry_fulfils_and_frees[OF h1 h2 h3 h4 h5 h6 h7 h8] obtain r' where W:
    "completions r' ! unat (ue_id ?ue) = Fulfilled (ucast (ue_len ?ue))"
    "free_list_from (descs r') (free_desc_head r') (rev [2, 3] @ [1, 0])"
    "available_descriptors r' = (signal ^^ length [2, 3::nat]) (available_descriptors ring4_inflight)"
    "used_tail r' = used_tail ring4_inflight + 1"
    "used_idx ring4_inflight = used_tail ring4_inflight + 1 \<longrightarrow>
       complete ring4_inflight = Some (Inr (r', [(NoContinuation, ucast (ue_len ?ue))]))"
    by blast
  have c: "complete ring4_inflight = Some (Inr (r', [(NoContinuation, 0)]))"
    using W(5) h9 by simp
  have "completions r' ! 2 = Fulfilled 0" using W(1) by simp
  moreover have "free_list_from (descs r') (free_desc_head r') [3, 2, 1, 0]" using W(2) by simp
  moreover have "available_descriptors r' = new_semaphore 4"
    using W(3) by (simp add: ring4_inflight_def new_semaphore_def signal_def)
  moreover have "used_tail r' = 1" using W(4) by (simp add: ring4_inflight_def)
  ultimately show ?thesis using h1 h3 h6 c by blast
qed


subsection \<open>The RX completion\<close>

text \<open>
  C10. The RX lambda subtracts the header length from the value of its promise with no
  comparison of the two: when the host-reported length is smaller than the header length
  (0 included), the size of the fragment is the length plus 2^64 minus the header length,
  and the packet with this size is put on the receive queue.
\<close>

theorem rx_short_length_wraps:
  assumes "n < header_len dev"
  shows "\<exists>p f. run_continuation (DeliverRx buf, n) dev = queue_rx_packet p dev \<and>
     rx_queue (run_continuation (DeliverRx buf, n) dev) = rx_queue dev @ [p] \<and>
     fragments p = [f] \<and> size_frag f = n - header_len dev \<and>
     unat (size_frag f) = 2 ^ 64 + unat n - unat (header_len dev)"
proof -
  have "unat (n - header_len dev) = 2 ^ 64 + unat n - unat (header_len dev)"
    using assms by (simp add: unat_sub_if' word_less_nat_alt)
  then show ?thesis
    by (simp add: rx_packet_def queue_rx_packet_def)
qed

theorem rx_short_length_wraps_witness:
  "(0::size_t) < header_len dev4 \<and>
   (\<exists>p f. rx_queue (run_continuation (DeliverRx 0x10000, 0) dev4) = [p] \<and> fragments p = [f] \<and>
      unat (size_frag f) = 18446744073709551606)"
proof -
  have h: "(0::size_t) < header_len dev4" by (simp add: dev4_def sizeof_net_hdr_def)
  from rx_short_length_wraps[OF h, of "0x10000"] obtain p f where W:
    "rx_queue (run_continuation (DeliverRx 0x10000, 0) dev4) = rx_queue dev4 @ [p]"
    "fragments p = [f]" "unat (size_frag f) = 2 ^ 64 + unat (0::size_t) - unat (header_len dev4)"
    by blast
  have "rx_queue (run_continuation (DeliverRx 0x10000, 0) dev4) = [p]"
    using W(1) by (simp add: dev4_def)
  moreover have "unat (size_frag f) = 18446744073709551606"
    using W(3) by (simp add: dev4_def sizeof_net_hdr_def)
  ultimately show ?thesis using h W(2) by blast
qed


subsection \<open>The eventfds registered with vhost\<close>

text \<open>
  C8. What the constructor registers with vhost: for the TX vring (index 1) the kick
  descriptor is the read end of the TX kick eventfd and the call descriptor the write end
  of the TX notify eventfd, and for the RX vring (index 0) the call descriptor is the write
  end of the RX notify eventfd; but the kick descriptor registered for the RX vring is the
  read end of the TX kick eventfd, not of the eventfd the RX vring signals.
\<close>

theorem rx_kick_fd_is_read_end_of_tx_kick:
  "kick_fds (vhost_ioctls (init_new txn txk rxn rxk) tap_fd) 0 =
     [get_read_fd (vring_kick_eventfd (init_new txn txk rxn rxk) 1)] \<and>
   kick_fds (vhost_ioctls (init_new txn txk rxn rxk) tap_fd) 1 =
     [get_read_fd (vring_kick_eventfd (init_new txn txk rxn rxk) 1)] \<and>
   call_fds (vhost_ioctls (init_new txn txk rxn rxk) tap_fd) 0 =
     [get_write_fd (vring_notify_eventfd (init_new txn txk rxn rxk) 0)] \<and>
   call_fds (vhost_ioctls (init_new txn txk rxn rxk) tap_fd) 1 =
     [get_write_fd (vring_notify_eventfd (init_new txn txk rxn rxk) 1)] \<and>
   kick_fds (vhost_ioctls (init_new \<lparr>get_write_fd = 10\<rparr> \<lparr>get_read_fd = 11\<rparr>
                                    \<lparr>get_write_fd = 12\<rparr> \<lparr>get_read_fd = 13\<rparr>) 3) 0 = [11] \<and>
   get_read_fd (vring_kick_eventfd (init_new \<lparr>get_write_fd = 10\<rparr> \<lparr>get_read_fd = 11\<rparr>
                                    \<lparr>get_write_fd = 12\<rparr> \<lparr>get_read_fd = 13\<rparr>) 0) = 13"
  by (simp add: vhost_ioctls_def init_new_def vring_kick_eventfd_def vring_notify_eventfd_def)


subsection \<open>The constructor and a whole batch\<close>

lemma setup_from_ok:
  assumes "free_list_from (descs r) (free_desc_head r) fl" "distinct xs" "set xs \<inter> set fl = {}"
    "\<forall>x\<in>set xs. x < length (descs r)" "length (descs r) \<le> 65535"
  shows "\<exists>r'. setup_from xs r = Inr r' \<and>
     free_list_from (descs r') (free_desc_head r') (rev xs @ fl) \<and>
     available_descriptors r' = (signal ^^ length xs) (available_descriptors r) \<and>
     length (descs r') = length (descs r) \<and>
     r'\<lparr>descs := descs r, free_desc_head := free_desc_head r,
        available_descriptors := available_descriptors r\<rparr> = r"
  using assms
proof (induction xs arbitrary: r fl)
  case Nil
  then show ?case by simp
next
  case (Cons x xs)
  have x: "x < length (descs r)" "x \<notin> set fl" using Cons.prems by auto
  from free_desc_frame[OF Cons.prems(1) x Cons.prems(5)] obtain r1 where R1:
    "free_desc x r = Inr r1" "free_list_from (descs r1) (free_desc_head r1) (x # fl)"
    "available_descriptors r1 = signal (available_descriptors r)"
    "length (descs r1) = length (descs r)"
    "r1\<lparr>descs := descs r, free_desc_head := free_desc_head r,
           available_descriptors := available_descriptors r\<rparr> = r"
    by blast
  have p: "distinct xs" "set xs \<inter> set (x # fl) = {}" "\<forall>y\<in>set xs. y < length (descs r1)"
    "length (descs r1) \<le> 65535"
    using Cons.prems R1(4) by auto
  from Cons.IH[OF R1(2) p] obtain r' where R':
    "setup_from xs r1 = Inr r'"
    "free_list_from (descs r') (free_desc_head r') (rev xs @ x # fl)"
    "available_descriptors r' = (signal ^^ length xs) (available_descriptors r1)"
    "length (descs r') = length (descs r1)"
    "r'\<lparr>descs := descs r1, free_desc_head := free_desc_head r1,
        available_descriptors := available_descriptors r1\<rparr> = r1"
    by blast
  have fr: "r'\<lparr>descs := descs r, free_desc_head := free_desc_head r,
        available_descriptors := available_descriptors r\<rparr> = r"
  proof -
    have "r'\<lparr>descs := descs r, free_desc_head := free_desc_head r,
              available_descriptors := available_descriptors r\<rparr>
        = (r'\<lparr>descs := descs r1, free_desc_head := free_desc_head r1,
              available_descriptors := available_descriptors r1\<rparr>)
            \<lparr>descs := descs r, free_desc_head := free_desc_head r,
              available_descriptors := available_descriptors r\<rparr>" by simp
    also have "\<dots> = r" using R'(5) R1(5) by simp
    finally show ?thesis .
  qed
  have "setup_from (x # xs) r = Inr r'" using R1(1) R'(1) by simp
  then show ?case using R'(2,3,4) R1(3,4) fr by (intro exI[of _ r']) (simp add: funpow_swap1)
qed

lemma vring_new_ok:
  assumes "0 < n" "n \<le> 65535" "length ds = n" "length av = n" "length us = n"
  shows "\<exists>r. vring_new n ds av us = Inr r \<and> ring_ok r \<and>
     free_list_from (descs r) (free_desc_head r) (rev [0 ..< n]) \<and>
     available_descriptors r = new_semaphore n \<and> avail_head r = 0 \<and> used_tail r = 0 \<and>
     used_idx r = 0 \<and> avail_ring r = av \<and> used_elements r = us \<and>
     completions r = replicate n (Pending NoContinuation)"
proof -
  define r0 where "r0 = \<lparr>config_size = n, descs = ds, avail_ring = av, avail_idx = 0, avail_head = 0,
            used_elements = us, used_idx = 0, used_tail = 0,
            completions = replicate n (Pending NoContinuation),
            available_descriptors = new_semaphore 0, free_desc_head = - 1, kicks = 0\<rparr>"
  have a: "free_list_from (descs r0) (free_desc_head r0) []" by (simp add: r0_def)
  have b: "distinct [0 ..< n]" "set [0 ..< n] \<inter> set [] = {}"
    "\<forall>x\<in>set [0 ..< n]. x < length (descs r0)" "length (descs r0) \<le> 65535"
    using assms by (simp_all add: r0_def)
  from setup_from_ok[OF a b] obtain r where R:
    "setup_from [0 ..< n] r0 = Inr r"
    "free_list_from (descs r) (free_desc_head r) (rev [0 ..< n] @ [])"
    "available_descriptors r = (signal ^^ length [0 ..< n]) (available_descriptors r0)"
    "length (descs r) = length (descs r0)"
    "r\<lparr>descs := descs r0, free_desc_head := free_desc_head r0,
        available_descriptors := available_descriptors r0\<rparr> = r0"
    by blast
  have v: "vring_new n ds av us = Inr r"
    using R(1) by (simp add: vring_new_def setup_vring_def r0_def)
  have f: "config_size r = n" "avail_head r = 0" "used_tail r = 0" "used_idx r = 0"
    "avail_ring r = av" "used_elements r = us" "completions r = replicate n (Pending NoContinuation)"
    using arg_cong[OF R(5), of config_size] arg_cong[OF R(5), of avail_head]
      arg_cong[OF R(5), of used_tail] arg_cong[OF R(5), of used_idx]
      arg_cong[OF R(5), of avail_ring] arg_cong[OF R(5), of used_elements]
      arg_cong[OF R(5), of completions]
    by (simp_all add: r0_def)
  have ok: "ring_ok r" using f R(4) assms by (simp add: ring_ok_def r0_def)
  have sm: "available_descriptors r = new_semaphore n"
    using R(3) by (simp add: r0_def new_semaphore_def funpow_signal_idle)
  show ?thesis using v ok R(2) sm f by simp
qed










subsection \<open>The reap loop over several entries\<close>

lemma pending_used_cong:
  assumes "used_idx r1 = used_idx r" "used_elements r1 = used_elements r"
    "config_size r1 = config_size r"
  shows "pending_used r1 t es = pending_used r t es"
proof -
  have "masked r1 = masked r" by (rule ext) (simp add: masked_def mask_ring_def assms)
  then show ?thesis using assms by (induction es arbitrary: t) auto
qed

lemma chain_from_nonempty: "chain_from ds c \<Longrightarrow> c \<noteq> []"
  by auto

lemma complete_loop_ok:
  assumes ok: "ring_ok r" and pu: "pending_used r (used_tail r) es"
    and fl: "free_list_from (descs r) (free_desc_head r) fl"
    and ch: "\<forall>c\<in>set cs. chain_from (descs r) c"
    and dist: "distinct (fl @ concat cs)"
    and ids: "distinct (map (\<lambda>e. unat (ue_id e)) es)"
    and named: "\<forall>e\<in>set es. \<exists>c\<in>set cs. hd c = unat (ue_id e)"
    and pend: "\<forall>e\<in>set es. \<exists>k. completions r ! unat (ue_id e) = Pending k"
  shows "\<exists>r' fl' cs'.
     complete_loop (used_idx r) r fired =
       Some (Inr (r', fired @ map (\<lambda>e. (continuation_of (completions r ! unat (ue_id e)),
                                          ucast (ue_len e))) es)) \<and>
     ring_ok r' \<and> free_list_from (descs r') (free_desc_head r') fl' \<and>
     (\<forall>c\<in>set cs'. chain_from (descs r') c) \<and>
     distinct (fl' @ concat cs') \<and>
     set (fl' @ concat cs') = set (fl @ concat cs) \<and>
     set (map hd cs') = set (map hd cs) - set (map (\<lambda>e. unat (ue_id e)) es) \<and>
     (\<exists>k. available_descriptors r' = (signal ^^ k) (available_descriptors r) \<and>
          k + length (concat cs') = length (concat cs)) \<and>
     used_tail r' = used_idx r"
  using assms
proof (induction es arbitrary: r fl cs fired)
  case Nil
  then have "used_idx r = used_tail r" by simp
  then have "complete_loop (used_idx r) r fired = Some (Inr (r, fired))"
    by (subst complete_loop.simps) simp
  moreover have "\<exists>k. available_descriptors r = (signal ^^ k) (available_descriptors r) \<and>
          k + length (concat cs) = length (concat cs)"
    by (intro exI[of _ 0]) simp
  ultimately show ?case using Nil.prems \<open>used_idx r = used_tail r\<close>
    by (intro exI[of _ r] exI[of _ fl] exI[of _ cs]) simp
next
  case (Cons e es)
  let ?id = "unat (ue_id e)"
  have ne: "used_idx r \<noteq> used_tail r"
    and ue: "used_elements r ! unat (masked r (ucast (used_tail r))) = e"
    and pu': "pending_used r (used_tail r + 1) es"
    using Cons.prems(2) by simp_all
  obtain c where c: "c \<in> set cs" "hd c = ?id" using Cons.prems(7) by auto
  obtain xs ys where sp: "cs = xs @ c # ys" using c(1) by (meson split_list)
  have chc: "chain_from (descs r) c" using Cons.prems(4) c(1) by simp
  have cne: "c \<noteq> []" using chc by auto
  have dc: "distinct c" "set c \<inter> set fl = {}"
    "set c \<inter> set (concat (xs @ ys)) = {}" "distinct (fl @ concat (xs @ ys))"
    using Cons.prems(5) unfolding sp by auto
  obtain k where k: "completions r ! ?id = Pending k" using Cons.prems(8) by auto
  from complete_entry_ok[OF Cons.prems(1) ue chc c(2) dc(1) Cons.prems(3) dc(2) k]
  obtain r1 where R1:
    "complete_entry r = Some (Inr (r1, (k, ucast (ue_len e))))"
    "completions r1 = (completions r)[?id := Fulfilled (ucast (ue_len e))]"
    "free_list_from (descs r1) (free_desc_head r1) (rev c @ fl)"
    "available_descriptors r1 = (signal ^^ length c) (available_descriptors r)"
    "used_tail r1 = used_tail r + 1"
    "length (descs r1) = length (descs r)"
    "\<forall>j. j \<notin> set c \<longrightarrow> descs r1 ! j = descs r ! j"
    "r1\<lparr>descs := descs r, free_desc_head := free_desc_head r,
        available_descriptors := available_descriptors r, completions := completions r,
        used_tail := used_tail r\<rparr> = r"
    by blast
  have f: "used_idx r1 = used_idx r" "used_elements r1 = used_elements r"
    "config_size r1 = config_size r" "avail_ring r1 = avail_ring r"
    using arg_cong[OF R1(8), of used_idx] arg_cong[OF R1(8), of used_elements]
      arg_cong[OF R1(8), of config_size] arg_cong[OF R1(8), of avail_ring]
    by simp_all
  have step: "complete_loop (used_idx r) r fired =
              complete_loop (used_idx r1) r1 (fired @ [(k, ucast (ue_len e))])"
    using ne R1(1) f(1) by (subst complete_loop.simps) simp
  have ok1: "ring_ok r1"
    using Cons.prems(1) f R1(2,6) by (simp add: ring_ok_def)
  have pu1: "pending_used r1 (used_tail r1) es"
    using pu' pending_used_cong[OF f(1,2,3)] R1(5) by simp
  have ch1: "\<forall>c'\<in>set (xs @ ys). chain_from (descs r1) c'"
  proof
    fix c' assume m: "c' \<in> set (xs @ ys)"
    then have "c' \<in> set cs" using sp by auto
    then have a: "chain_from (descs r) c'" using Cons.prems(4) by simp
    have "set c' \<subseteq> set (concat (xs @ ys))" using m by auto
    then have b: "set c' \<inter> set c = {}" using dc(3) by auto
    show "chain_from (descs r1) c'" using chain_from_frame[OF a R1(6) R1(7) b] .
  qed
  have dist1: "distinct ((rev c @ fl) @ concat (xs @ ys))"
    using dc by auto
  have ids1: "distinct (map (\<lambda>e. unat (ue_id e)) es)" "?id \<notin> set (map (\<lambda>e. unat (ue_id e)) es)"
    using Cons.prems(6) by simp_all
  have notin: "unat (ue_id e') \<noteq> ?id" if m: "e' \<in> set es" for e'
  proof
    assume eq: "unat (ue_id e') = ?id"
    from m have "(\<lambda>e. unat (ue_id e)) e' \<in> (\<lambda>e. unat (ue_id e)) ` set es" by (rule imageI)
    then have "?id \<in> set (map (\<lambda>e. unat (ue_id e)) es)" using eq by simp
    then show False using ids1(2) by simp
  qed
  have hd_notin: "?id \<notin> set (map hd (xs @ ys))"
  proof
    assume "?id \<in> set (map hd (xs @ ys))"
    then have "?id \<in> hd ` set (xs @ ys)" by (simp only: set_map)
    then obtain c' where c0: "c' \<in> set (xs @ ys)" "?id = hd c'" by blast
    then have c': "c' \<in> set (xs @ ys)" "hd c' = ?id" by simp_all
    then have "chain_from (descs r1) c'" using ch1 by simp
    then have "c' \<noteq> []" by auto
    then have "hd c' \<in> set c'" by simp
    then have "?id \<in> set (concat (xs @ ys))" using c' by auto
    moreover have "?id \<in> set c" using cne c(2) by (metis hd_in_set)
    ultimately show False using dc(3) by auto
  qed
  have named1: "\<forall>e'\<in>set es. \<exists>c'\<in>set (xs @ ys). hd c' = unat (ue_id e')"
  proof
    fix e' assume m: "e' \<in> set es"
    then obtain c' where c': "c' \<in> set cs" "hd c' = unat (ue_id e')"
      using Cons.prems(7) by auto
    have "unat (ue_id e') \<noteq> ?id" using notin[OF m] .
    then have "c' \<noteq> c" using c' c(2) by auto
    then have "c' \<in> set (xs @ ys)" using c'(1) sp by auto
    then show "\<exists>c'\<in>set (xs @ ys). hd c' = unat (ue_id e')" using c'(2) by blast
  qed
  have same: "\<And>e'. e' \<in> set es \<Longrightarrow> completions r1 ! unat (ue_id e') = completions r ! unat (ue_id e')"
  proof -
    fix e' assume "e' \<in> set es"
    then have "unat (ue_id e') \<noteq> ?id" by (rule notin)
    then show "completions r1 ! unat (ue_id e') = completions r ! unat (ue_id e')"
      using R1(2) by simp
  qed
  have pend1: "\<forall>e'\<in>set es. \<exists>k. completions r1 ! unat (ue_id e') = Pending k"
    using Cons.prems(8) same by simp
  from Cons.IH[OF ok1 pu1 R1(3) ch1 dist1 ids1(1) named1 pend1, of "fired @ [(k, ucast (ue_len e))]"]
  obtain r' fl' cs' where R':
    "complete_loop (used_idx r1) r1 (fired @ [(k, ucast (ue_len e))]) =
       Some (Inr (r', (fired @ [(k, ucast (ue_len e))]) @
          map (\<lambda>e. (continuation_of (completions r1 ! unat (ue_id e)), ucast (ue_len e))) es))"
    "ring_ok r'" "free_list_from (descs r') (free_desc_head r') fl'"
    "\<forall>c\<in>set cs'. chain_from (descs r') c"
    "distinct (fl' @ concat cs')"
    "set (fl' @ concat cs') = set ((rev c @ fl) @ concat (xs @ ys))"
    "set (map hd cs') = set (map hd (xs @ ys)) - set (map (\<lambda>e. unat (ue_id e)) es)"
    "\<exists>k. available_descriptors r' = (signal ^^ k) (available_descriptors r1) \<and>
          k + length (concat cs') = length (concat (xs @ ys))"
    "used_tail r' = used_idx r1"
    by blast
  have fm: "map (\<lambda>e. (continuation_of (completions r1 ! unat (ue_id e)), ucast (ue_len e) :: size_t)) es =
            map (\<lambda>e. (continuation_of (completions r ! unat (ue_id e)), ucast (ue_len e))) es"
    by (rule map_cong[OF refl]) (simp add: same)
  have kk: "continuation_of (completions r ! ?id) = k" using k by (simp add: continuation_of_def)
  have c1: "complete_loop (used_idx r) r fired =
       Some (Inr (r', fired @ map (\<lambda>e. (continuation_of (completions r ! unat (ue_id e)),
                                          ucast (ue_len e))) (e # es)))"
    using step R'(1) fm kk by simp
  have c6: "set (fl' @ concat cs') = set (fl @ concat cs)"
    using R'(6) unfolding sp by auto
  have c7: "set (map hd cs') = set (map hd cs) - set (map (\<lambda>e. unat (ue_id e)) (e # es))"
    using R'(7) hd_notin c(2) unfolding sp by auto
  have c8: "\<exists>k. available_descriptors r' = (signal ^^ k) (available_descriptors r) \<and>
          k + length (concat cs') = length (concat cs)"
  proof -
    from R'(8) obtain k' where k':
      "available_descriptors r' = (signal ^^ k') (available_descriptors r1)"
      "k' + length (concat cs') = length (concat (xs @ ys))" by blast
    have "available_descriptors r' = (signal ^^ (k' + length c)) (available_descriptors r)"
      using k'(1) R1(4) by (simp add: funpow_add)
    moreover have "(k' + length c) + length (concat cs') = length (concat cs)"
      using k'(2) unfolding sp by simp
    ultimately show ?thesis by blast
  qed
  have c9: "used_tail r' = used_idx r" using R'(9) f(1) by simp
  show ?case using c1 R'(2,3,4,5) c6 c7 c8 c9 by blast
qed


subsection \<open>The available ring after a batch\<close>


















subsection \<open>The lifetime of a transmitted packet\<close>

lemma concat_all_nil: "(\<forall>x\<in>set xs. f x = []) \<Longrightarrow> concat (map f xs) = []"
  by (induction xs) auto

lemma tx_chains_semaphore [simp]:
  "tx_chains (r\<lparr>available_descriptors := s\<rparr>) fl cps = tx_chains r fl cps"
  by (simp add: tx_chains_def ring_ok_def)

lemma transmit_cont_ok:
  assumes "fragments qp \<noteq> []"
  shows "\<exists>bc. transmit_cont qp = Inr [bc] \<and> length bc = length (fragments qp) \<and>
     (\<forall>i<length bc. addr (bc ! i) = base (fragments qp ! i) \<and>
        len (bc ! i) = ucast (size_frag (fragments qp ! i)) \<and> \<not> writeable (bc ! i) \<and>
        completed (bc ! i) = (if i = 0 then Pending (DestroyPacket qp) else Pending NoContinuation))"
proof -
  let ?bc = "map (\<lambda>f. \<lparr>addr = virt_to_phys (base f), len = ucast (size_frag f),
                        completed = Pending NoContinuation, writeable = False\<rparr>) (fragments qp)"
  let ?bc1 = "?bc[0 := (?bc ! 0)\<lparr>completed := Pending (DestroyPacket qp)\<rparr>]"
  have t: "transmit_cont qp = Inr [?bc1]" using assms by (simp add: transmit_cont_def Let_def)
  have l: "length ?bc1 = length (fragments qp)" by simp
  have p: "\<forall>i<length ?bc1. addr (?bc1 ! i) = base (fragments qp ! i) \<and>
        len (?bc1 ! i) = ucast (size_frag (fragments qp ! i)) \<and> \<not> writeable (?bc1 ! i) \<and>
        completed (?bc1 ! i) = (if i = 0 then Pending (DestroyPacket qp) else Pending NoContinuation)"
  proof (intro allI impI)
    fix i assume "i < length ?bc1"
    then have i: "i < length (fragments qp)" by simp
    show "addr (?bc1 ! i) = base (fragments qp ! i) \<and>
        len (?bc1 ! i) = ucast (size_frag (fragments qp ! i)) \<and> \<not> writeable (?bc1 ! i) \<and>
        completed (?bc1 ! i) = (if i = 0 then Pending (DestroyPacket qp) else Pending NoContinuation)"
      using i by (cases i) (simp_all add: virt_to_phys_def)
  qed
  show ?thesis using t l p by blast
qed

lemma transmit_cont_nonempty: "transmit_cont qp = Inr vbc \<Longrightarrow> fragments qp \<noteq> []"
  by (auto simp: transmit_cont_def Let_def split: if_splits)

lemma tx_publish_ok:
  assumes inv: "tx_chains (tx_ring q) fl cps"
    and tc: "transmit_cont qp = Inr vbc"
    and cap: "length (fragments qp) \<le> length fl"
  shows "\<exists>dev'. tx_publish vbc q dev = Inr dev' \<and>
     destroyed dev' = destroyed dev \<and> header_len dev' = header_len dev \<and>
     tx_chains (tx_ring (dev_txq dev')) (drop (length (fragments qp)) fl)
       ((rev (take (length (fragments qp)) fl), qp) # cps) \<and>
     dev_txq dev' = q\<lparr>tx_ring := tx_ring (dev_txq dev')\<rparr> \<and>
     available_descriptors (tx_ring (dev_txq dev')) = available_descriptors (tx_ring q) \<and>
     used_idx (tx_ring (dev_txq dev')) = used_idx (tx_ring q) \<and>
     used_tail (tx_ring (dev_txq dev')) = used_tail (tx_ring q) \<and>
     used_elements (tx_ring (dev_txq dev')) = used_elements (tx_ring q) \<and>
     config_size (tx_ring (dev_txq dev')) = config_size (tx_ring q)"
proof -
  let ?r = "tx_ring q"
  let ?k = "length (fragments qp)"
  let ?c = "rev (take ?k fl)"
  have I: "ring_ok ?r" "free_list_from (descs ?r) (free_desc_head ?r) fl"
    "distinct (fl @ concat (map fst cps))"
    "\<forall>(c, p)\<in>set cps. chain_from (descs ?r) c \<and>
          completions ?r ! hd c = Pending (DestroyPacket p) \<and>
          (\<forall>j\<in>set (tl c). dropped (completions ?r ! j) = [])"
    "\<forall>a\<in>set fl. dropped (completions ?r ! a) = []"
    using inv by (simp_all add: tx_chains_def)
  have fq: "fragments qp \<noteq> []" using tc by (rule transmit_cont_nonempty)
  from transmit_cont_ok[OF fq] tc obtain bc1 where B: "vbc = [bc1]" "length bc1 = ?k"
    "\<forall>i<length bc1. addr (bc1 ! i) = base (fragments qp ! i) \<and>
        len (bc1 ! i) = ucast (size_frag (fragments qp ! i)) \<and> \<not> writeable (bc1 ! i) \<and>
        completed (bc1 ! i) = (if i = 0 then Pending (DestroyPacket qp) else Pending NoContinuation)"
    by auto
  have kpos: "0 < ?k" using fq by simp
  have dfl: "distinct fl" using I(3) by simp
  have ne: "bc1 \<noteq> []" using B(2) kpos by auto
  have le: "length bc1 \<le> length fl" using cap B(2) by simp
  from submit_chain_ok[OF I(1) I(2) dfl ne le, of "[]"] obtain r2 where S:
    "submit_chain bc1 ?r [] =
        Inr (r2, [] @ concat (map (\<lambda>a. dropped (completions ?r ! a)) (take (length bc1) fl)))"
    "free_list_from (descs r2) (free_desc_head r2) (drop (length bc1) fl)"
    "chain_from (descs r2) (rev (take (length bc1) fl))"
    "length (descs r2) = length (descs ?r)" "length (completions r2) = length (completions ?r)"
    "\<forall>j. j \<notin> set (take (length bc1) fl) \<longrightarrow>
          descs r2 ! j = descs ?r ! j \<and> completions r2 ! j = completions ?r ! j"
    "\<forall>i<length bc1. descs r2 ! (rev (take (length bc1) fl) ! i) =
            mk_desc (bc1 ! i) (i < length bc1 - 1)
              (if i = length bc1 - 1 then 0 else rev (take (length bc1) fl) ! (i + 1))
          \<and> completions r2 ! (rev (take (length bc1) fl) ! i) = completed (bc1 ! i)"
    "r2\<lparr>descs := descs ?r, completions := completions ?r, free_desc_head := free_desc_head ?r,
        avail_ring := avail_ring ?r, avail_head := avail_head ?r\<rparr> = ?r"
    "avail_ring r2 = (avail_ring ?r)[unat (masked ?r (ucast (avail_head ?r))) :=
                        word_of_nat (hd (rev (take (length bc1) fl)))]"
    by blast
  note S' = S[unfolded B(2)]
  have nodrop: "concat (map (\<lambda>a. dropped (completions ?r ! a)) (take ?k fl)) = []"
  proof (rule concat_all_nil)
    show "\<forall>a\<in>set (take ?k fl). dropped (completions ?r ! a) = []"
      using I(5) by (auto dest: in_set_takeD)
  qed
  define r3 where "r3 = r2\<lparr>avail_idx := avail_head r2, kicks := kicks r2 + 1\<rparr>"
  have pb: "publish vbc ?r = Inr (r3, [])"
    using S'(1) nodrop by (simp add: publish_def r3_def B(1))
  define dev' where "dev' = dev\<lparr>dev_txq := q\<lparr>tx_ring := r3\<rparr>\<rparr>"
  have ts: "tx_publish vbc q dev = Inr dev'"
    using pb by (simp add: tx_publish_def dev'_def)
  have ds: "destroyed dev' = destroyed dev" "header_len dev' = header_len dev"
    by (simp_all add: dev'_def)
  have r3': "tx_ring (dev_txq dev') = r3" by (simp add: dev'_def)
  have q3: "dev_txq dev' = q\<lparr>tx_ring := tx_ring (dev_txq dev')\<rparr>" by (simp add: dev'_def)
  have f3: "used_idx r3 = used_idx ?r" "used_tail r3 = used_tail ?r"
    "used_elements r3 = used_elements ?r" "config_size r3 = config_size ?r"
    "available_descriptors r3 = available_descriptors ?r"
    using arg_cong[OF S'(8), of used_idx] arg_cong[OF S'(8), of used_tail]
      arg_cong[OF S'(8), of used_elements] arg_cong[OF S'(8), of config_size]
      arg_cong[OF S'(8), of available_descriptors]
    by (simp_all add: r3_def)
  have f2: "config_size r2 = config_size ?r" "length (used_elements r2) = length (used_elements ?r)"
    "length (avail_ring r2) = length (avail_ring ?r)"
    using arg_cong[OF S'(8), of config_size] arg_cong[OF S'(8), of used_elements] S'(9)
    by simp_all
  have ok3: "ring_ok r3"
    using I(1) f2 S'(4,5) by (simp add: ring_ok_def r3_def)
  have fl3: "free_list_from (descs r3) (free_desc_head r3) (drop ?k fl)"
    using S'(2) by (simp add: r3_def)
  have lc: "length ?c = ?k" using cap by simp
  have dist3: "distinct (drop ?k fl @ concat (map fst ((?c, qp) # cps)))"
  proof -
    have "distinct (take ?k fl @ drop ?k fl)" using dfl by simp
    then have a: "distinct (take ?k fl)" "distinct (drop ?k fl)"
      "set (take ?k fl) \<inter> set (drop ?k fl) = {}" by (simp_all only: distinct_append)
    have b: "distinct (concat (map fst cps))" "set fl \<inter> set (concat (map fst cps)) = {}"
      using I(3) by (simp_all only: distinct_append)
    have "set (take ?k fl) \<subseteq> set fl" "set (drop ?k fl) \<subseteq> set fl"
      by (auto dest: in_set_takeD in_set_dropD)
    then have c: "set (take ?k fl) \<inter> set (concat (map fst cps)) = {}"
      "set (drop ?k fl) \<inter> set (concat (map fst cps)) = {}" using b(2) by blast+
    show ?thesis using a b(1) c by (simp only: distinct_append list.map fst_conv concat.simps
          set_append set_rev distinct_rev) blast
  qed
  have comp: "\<And>i. i < ?k \<Longrightarrow> completions r3 ! (?c ! i) = completed (bc1 ! i)"
    using S'(7) by (simp add: r3_def)
  have cne: "?c \<noteq> []" using lc kpos by auto
  have hdc: "hd ?c = ?c ! 0" using cne by (rule hd_conv_nth)
  have head3: "completions r3 ! hd ?c = Pending (DestroyPacket qp)"
    using comp[OF kpos] hdc B(3)[rule_format, of 0] kpos B(2) by simp
  have tl3: "\<forall>j\<in>set (tl ?c). dropped (completions r3 ! j) = []"
  proof
    fix j assume "j \<in> set (tl ?c)"
    then obtain i where i: "i < length (tl ?c)" "tl ?c ! i = j" by (meson in_set_conv_nth)
    then have si: "Suc i < ?k" using lc by simp
    have "j = ?c ! Suc i" using i by (simp add: nth_tl)
    then have "completions r3 ! j = completed (bc1 ! Suc i)" using comp[OF si] by simp
    also have "\<dots> = Pending NoContinuation"
      using B(3)[rule_format, of "Suc i"] si B(2) by simp
    finally show "dropped (completions r3 ! j) = []" by (simp add: dropped_def)
  qed
  have new3: "chain_from (descs r3) ?c" using S'(3) by (simp add: r3_def)
  have frame3: "\<And>j. j \<notin> set (take ?k fl) \<Longrightarrow>
      descs r3 ! j = descs ?r ! j \<and> completions r3 ! j = completions ?r ! j"
    using S'(6) by (simp add: r3_def)
  have len3: "length (descs r3) = length (descs ?r)" using S'(4) by (simp add: r3_def)
  have old3: "\<forall>(c, p)\<in>set cps. chain_from (descs r3) c \<and>
          completions r3 ! hd c = Pending (DestroyPacket p) \<and>
          (\<forall>j\<in>set (tl c). dropped (completions r3 ! j) = [])"
  proof (intro ballI, clarify)
    fix c p' assume m: "(c, p') \<in> set cps"
    then have o: "chain_from (descs ?r) c" "completions ?r ! hd c = Pending (DestroyPacket p')"
      "\<forall>j\<in>set (tl c). dropped (completions ?r ! j) = []"
      using I(4) by auto
    have "set c \<subseteq> set (concat (map fst cps))" using m by force
    moreover have "set (take ?k fl) \<subseteq> set fl" by (auto dest: in_set_takeD)
    moreover have "set fl \<inter> set (concat (map fst cps)) = {}" using I(3) by (simp only: distinct_append)
    ultimately have dj: "set c \<inter> set (take ?k fl) = {}" by blast
    have "\<forall>j. j \<notin> set (take ?k fl) \<longrightarrow> descs r3 ! j = descs ?r ! j" using frame3 by simp
    then have a: "chain_from (descs r3) c" using chain_from_frame[OF o(1) len3 _ dj] by blast
    have cne: "c \<noteq> []" using o(1) by auto
    then have "hd c \<in> set c" by simp
    then have "hd c \<notin> set (take ?k fl)" using dj by auto
    then have b: "completions r3 ! hd c = Pending (DestroyPacket p')" using frame3 o(2) by simp
    have c': "\<forall>j\<in>set (tl c). dropped (completions r3 ! j) = []"
    proof
      fix j assume "j \<in> set (tl c)"
      then have "j \<in> set c" using cne by (meson list.set_sel(2))
      then have "j \<notin> set (take ?k fl)" using dj by auto
      then show "dropped (completions r3 ! j) = []"
        using frame3 o(3) \<open>j \<in> set (tl c)\<close> by simp
    qed
    show "chain_from (descs r3) c \<and> completions r3 ! hd c = Pending (DestroyPacket p') \<and>
          (\<forall>j\<in>set (tl c). dropped (completions r3 ! j) = [])"
      using a b c' by blast
  qed
  have free3: "\<forall>a\<in>set (drop ?k fl). dropped (completions r3 ! a) = []"
  proof
    fix a assume m: "a \<in> set (drop ?k fl)"
    have "distinct (take ?k fl @ drop ?k fl)" using dfl by simp
    then have "a \<notin> set (take ?k fl)" using m by (simp only: distinct_append) blast
    moreover have "a \<in> set fl" using m by (rule in_set_dropD)
    ultimately show "dropped (completions r3 ! a) = []" using frame3 I(5) by simp
  qed
  have "tx_chains r3 (drop ?k fl) ((?c, qp) # cps)"
    unfolding tx_chains_def
    using ok3 fl3 dist3 new3 head3 tl3 old3 free3 by simp
  then show ?thesis using ts ds f3 q3 unfolding r3'[symmetric] by blast
qed

lemma tx_submit_ok:
  assumes inv: "tx_inv dev fl cps" and idle: "tx_held (dev_txq dev) = None"
    and q: "tx_queue (dev_txq dev) = p # rest" "0 < tx_queue_length (dev_txq dev)"
    and pre: "prepend \<lparr>base = vhdr, size_frag = header_len dev\<rparr> p (zero_net_hdr_mrg vhdr mem) =
                (qp, mem1)"
    and ne: "fragments qp \<noteq> []" and cap: "length (fragments qp) \<le> length fl"
  shows "\<exists>dev'. tx_submit prepend vhdr mem dev = Inr (True, dev', vhdr_out_of_scope vhdr mem1) \<and>
     destroyed dev' = destroyed dev \<and> header_len dev' = header_len dev \<and>
     tx_inv dev' (drop (length (fragments qp)) fl)
       ((rev (take (length (fragments qp)) fl), qp) # cps) \<and>
     tx_held (dev_txq dev') = None \<and> tx_queue (dev_txq dev') = rest \<and>
     used_idx (tx_ring (dev_txq dev')) = used_idx (tx_ring (dev_txq dev)) \<and>
     used_tail (tx_ring (dev_txq dev')) = used_tail (tx_ring (dev_txq dev)) \<and>
     used_elements (tx_ring (dev_txq dev')) = used_elements (tx_ring (dev_txq dev)) \<and>
     config_size (tx_ring (dev_txq dev')) = config_size (tx_ring (dev_txq dev))"
proof -
  let ?r = "tx_ring (dev_txq dev)"
  let ?s = "available_descriptors ?r"
  let ?k = "length (fragments qp)"
  have I: "tx_chains ?r fl cps" "units ?s = length fl" "wait_list ?s = []" "resumed ?s = []"
    using inv idle by (simp_all add: tx_inv_def producer_state_def)
  have cnt: "sem_count ?s = length fl" using I(2,4) by (simp add: units_def)
  define s1 where "s1 = ?s\<lparr>sem_count := sem_count ?s - ?k\<rparr>"
  define q1 where "q1 = (dev_txq dev)\<lparr>tx_ring := ?r\<lparr>available_descriptors := s1\<rparr>, tx_queue := rest,
                          tx_queue_length := tx_queue_length (dev_txq dev) - 1\<rparr>"
  from transmit_cont_ok[OF ne] obtain bc where tc: "transmit_cont qp = Inr [bc]" by blast
  have w: "wait_available ?k ?r = (True, ?r\<lparr>available_descriptors := s1\<rparr>)"
    using cap cnt I(3) by (simp add: wait_available_def wait_def s1_def)
  have t: "transmit prepend (header_len dev) vhdr mem (dev_txq dev) =
             Inr (Some [bc], q1, vhdr_out_of_scope vhdr mem1)"
    using q pre w tc by (simp add: transmit_def Let_def q1_def)
  have ch1: "tx_chains (tx_ring q1) fl cps" using I(1) by (simp add: q1_def)
  from tx_publish_ok[OF ch1 tc cap, of dev] obtain dev' where P:
    "tx_publish [bc] q1 dev = Inr dev'" "destroyed dev' = destroyed dev"
    "header_len dev' = header_len dev"
    "tx_chains (tx_ring (dev_txq dev')) (drop ?k fl) ((rev (take ?k fl), qp) # cps)"
    "dev_txq dev' = q1\<lparr>tx_ring := tx_ring (dev_txq dev')\<rparr>"
    "available_descriptors (tx_ring (dev_txq dev')) = available_descriptors (tx_ring q1)"
    "used_idx (tx_ring (dev_txq dev')) = used_idx (tx_ring q1)"
    "used_tail (tx_ring (dev_txq dev')) = used_tail (tx_ring q1)"
    "used_elements (tx_ring (dev_txq dev')) = used_elements (tx_ring q1)"
    "config_size (tx_ring (dev_txq dev')) = config_size (tx_ring q1)"
    by blast
  have ts: "tx_submit prepend vhdr mem dev = Inr (True, dev', vhdr_out_of_scope vhdr mem1)"
    using t P(1) by (simp add: tx_submit_def)
  have h: "tx_held (dev_txq dev') = None" "tx_queue (dev_txq dev') = rest"
    using arg_cong[OF P(5), of tx_held] arg_cong[OF P(5), of tx_queue] idle
    by (simp_all add: q1_def)
  have s': "available_descriptors (tx_ring (dev_txq dev')) = s1" using P(6) by (simp add: q1_def)
  have u: "units s1 = length (drop ?k fl)" using cnt I(4) by (simp add: units_def s1_def)
  have ps: "producer_state s1 None" using I(3,4) by (simp add: producer_state_def s1_def)
  have "tx_inv dev' (drop ?k fl) ((rev (take ?k fl), qp) # cps)"
    using P(4) u ps h(1) by (simp add: tx_inv_def s')
  moreover have "used_idx (tx_ring (dev_txq dev')) = used_idx ?r"
    "used_tail (tx_ring (dev_txq dev')) = used_tail ?r"
    "used_elements (tx_ring (dev_txq dev')) = used_elements ?r"
    "config_size (tx_ring (dev_txq dev')) = config_size ?r"
    using P(7,8,9,10) by (simp_all add: q1_def)
  ultimately show ?thesis using ts P(2,3) h by blast
qed

lemma tx_submit_suspends:
  assumes inv: "tx_inv dev fl cps" and idle: "tx_held (dev_txq dev) = None"
    and q: "tx_queue (dev_txq dev) = p # rest" "0 < tx_queue_length (dev_txq dev)"
    and pre: "prepend \<lparr>base = vhdr, size_frag = header_len dev\<rparr> p (zero_net_hdr_mrg vhdr mem) =
                (qp, mem1)"
    and short: "length fl < length (fragments qp)"
  shows "\<exists>dev'. tx_submit prepend vhdr mem dev = Inr (False, dev', vhdr_out_of_scope vhdr mem1) \<and>
     destroyed dev' = destroyed dev \<and> header_len dev' = header_len dev \<and>
     tx_inv dev' fl cps \<and>
     tx_held (dev_txq dev') = Some qp \<and> tx_queue (dev_txq dev') = rest \<and>
     wait_list (available_descriptors (tx_ring (dev_txq dev'))) = [length (fragments qp)] \<and>
     used_idx (tx_ring (dev_txq dev')) = used_idx (tx_ring (dev_txq dev)) \<and>
     used_tail (tx_ring (dev_txq dev')) = used_tail (tx_ring (dev_txq dev)) \<and>
     used_elements (tx_ring (dev_txq dev')) = used_elements (tx_ring (dev_txq dev)) \<and>
     config_size (tx_ring (dev_txq dev')) = config_size (tx_ring (dev_txq dev))"
proof -
  let ?r = "tx_ring (dev_txq dev)"
  let ?s = "available_descriptors ?r"
  let ?k = "length (fragments qp)"
  have I: "tx_chains ?r fl cps" "units ?s = length fl" "wait_list ?s = []" "resumed ?s = []"
    using inv idle by (simp_all add: tx_inv_def producer_state_def)
  have cnt: "sem_count ?s = length fl" using I(2,4) by (simp add: units_def)
  define s1 where "s1 = ?s\<lparr>wait_list := [?k]\<rparr>"
  define q1 where "q1 = (dev_txq dev)\<lparr>tx_ring := ?r\<lparr>available_descriptors := s1\<rparr>, tx_queue := rest,
                          tx_queue_length := tx_queue_length (dev_txq dev) - 1, tx_held := Some qp\<rparr>"
  define dev' where "dev' = dev\<lparr>dev_txq := q1\<rparr>"
  have w: "wait_available ?k ?r = (False, ?r\<lparr>available_descriptors := s1\<rparr>)"
    using short cnt I(3) by (simp add: wait_available_def wait_def s1_def)
  have t: "transmit prepend (header_len dev) vhdr mem (dev_txq dev) =
             Inr (None, q1, vhdr_out_of_scope vhdr mem1)"
    using q pre w by (simp add: transmit_def Let_def q1_def)
  have ts: "tx_submit prepend vhdr mem dev = Inr (False, dev', vhdr_out_of_scope vhdr mem1)"
    using t by (simp add: tx_submit_def dev'_def)
  have u: "units s1 = length fl" using I(2) by (simp add: units_def s1_def)
  have "0 < ?k" using short by (cases "fragments qp") simp_all
  then have ps: "producer_state s1 (Some ?k)"
    using short cnt I(4) by (simp add: producer_state_def s1_def)
  have "tx_inv dev' fl cps"
    using I(1) u ps by (simp add: tx_inv_def dev'_def q1_def)
  then show ?thesis using ts by (intro exI[of _ dev']) (simp add: dev'_def q1_def s1_def)
qed

lemma tx_resume_ok:
  assumes inv: "tx_inv dev fl cps" and held: "tx_held (dev_txq dev) = Some qp"
    and res: "resumed (available_descriptors (tx_ring (dev_txq dev))) \<noteq> []"
  shows "\<exists>dev'. tx_resume dev = Inr (Some dev') \<and>
     destroyed dev' = destroyed dev \<and> header_len dev' = header_len dev \<and>
     length (fragments qp) \<le> length fl \<and>
     tx_inv dev' (drop (length (fragments qp)) fl)
       ((rev (take (length (fragments qp)) fl), qp) # cps) \<and>
     tx_held (dev_txq dev') = None \<and> tx_queue (dev_txq dev') = tx_queue (dev_txq dev) \<and>
     used_idx (tx_ring (dev_txq dev')) = used_idx (tx_ring (dev_txq dev)) \<and>
     used_tail (tx_ring (dev_txq dev')) = used_tail (tx_ring (dev_txq dev)) \<and>
     used_elements (tx_ring (dev_txq dev')) = used_elements (tx_ring (dev_txq dev)) \<and>
     config_size (tx_ring (dev_txq dev')) = config_size (tx_ring (dev_txq dev))"
proof -
  let ?r = "tx_ring (dev_txq dev)"
  let ?s = "available_descriptors ?r"
  let ?k = "length (fragments qp)"
  have I: "tx_chains ?r fl cps" "units ?s = length fl" "producer_state ?s (Some ?k)"
    using inv held by (simp_all add: tx_inv_def)
  have st: "0 < ?k" "wait_list ?s = []" "resumed ?s = [?k]"
    using I(3) res by (auto simp: producer_state_def)
  have ne: "fragments qp \<noteq> []" using st(1) by simp
  have cap: "?k \<le> length fl" using I(2) st(3) by (simp add: units_def)
  define s1 where "s1 = ?s\<lparr>resumed := []\<rparr>"
  define q1 where "q1 = (dev_txq dev)\<lparr>tx_ring := ?r\<lparr>available_descriptors := s1\<rparr>, tx_held := None\<rparr>"
  from transmit_cont_ok[OF ne] obtain bc where tc: "transmit_cont qp = Inr [bc]" by blast
  have rr: "run_resumed ?s = Some (?k, s1)" using st(3) by (simp add: run_resumed_def s1_def)
  have t: "transmit_resumed (dev_txq dev) = Inr (Some ([bc], q1))"
    using rr held tc by (simp add: transmit_resumed_def q1_def)
  have ch1: "tx_chains (tx_ring q1) fl cps" using I(1) by (simp add: q1_def)
  from tx_publish_ok[OF ch1 tc cap, of dev] obtain dev' where P:
    "tx_publish [bc] q1 dev = Inr dev'" "destroyed dev' = destroyed dev"
    "header_len dev' = header_len dev"
    "tx_chains (tx_ring (dev_txq dev')) (drop ?k fl) ((rev (take ?k fl), qp) # cps)"
    "dev_txq dev' = q1\<lparr>tx_ring := tx_ring (dev_txq dev')\<rparr>"
    "available_descriptors (tx_ring (dev_txq dev')) = available_descriptors (tx_ring q1)"
    "used_idx (tx_ring (dev_txq dev')) = used_idx (tx_ring q1)"
    "used_tail (tx_ring (dev_txq dev')) = used_tail (tx_ring q1)"
    "used_elements (tx_ring (dev_txq dev')) = used_elements (tx_ring q1)"
    "config_size (tx_ring (dev_txq dev')) = config_size (tx_ring q1)"
    by blast
  have ts: "tx_resume dev = Inr (Some dev')"
    using t P(1) by (simp add: tx_resume_def)
  have h: "tx_held (dev_txq dev') = None" "tx_queue (dev_txq dev') = tx_queue (dev_txq dev)"
    using arg_cong[OF P(5), of tx_held] arg_cong[OF P(5), of tx_queue]
    by (simp_all add: q1_def)
  have s': "available_descriptors (tx_ring (dev_txq dev')) = s1" using P(6) by (simp add: q1_def)
  have u: "units s1 = length (drop ?k fl)" using I(2) st(3) by (simp add: units_def s1_def)
  have ps: "producer_state s1 None" using st(2) by (simp add: producer_state_def s1_def)
  have "tx_inv dev' (drop ?k fl) ((rev (take ?k fl), qp) # cps)"
    using P(4) u ps h(1) by (simp add: tx_inv_def s')
  moreover have "used_idx (tx_ring (dev_txq dev')) = used_idx ?r"
    "used_tail (tx_ring (dev_txq dev')) = used_tail ?r"
    "used_elements (tx_ring (dev_txq dev')) = used_elements ?r"
    "config_size (tx_ring (dev_txq dev')) = config_size ?r"
    using P(7,8,9,10) by (simp_all add: q1_def)
  ultimately show ?thesis using ts P(2,3) h cap by blast
qed

lemma tx_entry_ok:
  assumes inv: "tx_chains r fl cps" and m: "(c, p) \<in> set cps"
    and ue: "used_elements r ! unat (masked r (ucast (used_tail r))) = ue"
    and hd: "hd c = unat (ue_id ue)"
  shows "\<exists>r' cps'. complete_entry r = Some (Inr (r', (DestroyPacket p, ucast (ue_len ue)))) \<and>
     tx_chains r' (rev c @ fl) cps' \<and>
     set cps' = set cps - {(c, p)} \<and>
     available_descriptors r' = (signal ^^ length c) (available_descriptors r) \<and>
     used_idx r' = used_idx r \<and>
     used_tail r' = used_tail r + 1 \<and>
     used_elements r' = used_elements r \<and>
     config_size r' = config_size r"
proof -
  let ?r = "r"
  let ?v = "ucast (ue_len ue) :: size_t"
  have I: "ring_ok ?r" "free_list_from (descs ?r) (free_desc_head ?r) fl"
    "True" "distinct (fl @ concat (map fst cps))"
    "\<forall>(c, p)\<in>set cps. chain_from (descs ?r) c \<and>
          completions ?r ! hd c = Pending (DestroyPacket p) \<and>
          (\<forall>j\<in>set (tl c). dropped (completions ?r ! j) = [])"
    "\<forall>a\<in>set fl. dropped (completions ?r ! a) = []"
    using inv by (simp_all add: tx_chains_def)
  have o: "chain_from (descs ?r) c" "completions ?r ! hd c = Pending (DestroyPacket p)"
    "\<forall>j\<in>set (tl c). dropped (completions ?r ! j) = []"
    using I(5) m by auto
  have cne: "c \<noteq> []" using o(1) by auto
  obtain xs ys where sp: "cps = xs @ (c, p) # ys" using m by (meson split_list)
  have cc: "concat (map fst cps) = concat (map fst xs) @ c @ concat (map fst ys)"
    unfolding sp by simp
  have D: "distinct fl" "distinct c" "distinct (concat (map fst xs))" "distinct (concat (map fst ys))"
    "set fl \<inter> set c = {}" "set fl \<inter> set (concat (map fst xs)) = {}"
    "set fl \<inter> set (concat (map fst ys)) = {}"
    "set c \<inter> set (concat (map fst xs)) = {}" "set c \<inter> set (concat (map fst ys)) = {}"
    "set (concat (map fst xs)) \<inter> set (concat (map fst ys)) = {}"
    using I(4) unfolding cc by auto
  have dj: "set c \<inter> set fl = {}" using D(5) by blast
  have pr: "completions ?r ! unat (ue_id ue) = Pending (DestroyPacket p)" using o(2) hd by simp
  from complete_entry_ok[OF I(1) ue o(1) hd D(2) I(2) dj pr] obtain r' where R0:
    "complete_entry ?r = Some (Inr (r', (DestroyPacket p, ?v)))"
    "completions r' = (completions ?r)[unat (ue_id ue) := Fulfilled ?v]"
    "free_list_from (descs r') (free_desc_head r') (rev c @ fl)"
    "available_descriptors r' = (signal ^^ length c) (available_descriptors ?r)"
    "used_tail r' = used_tail ?r + 1"
    "length (descs r') = length (descs ?r)"
    "\<forall>j. j \<notin> set c \<longrightarrow> descs r' ! j = descs ?r ! j"
    "r'\<lparr>descs := descs ?r, free_desc_head := free_desc_head ?r,
        available_descriptors := available_descriptors ?r, completions := completions ?r,
        used_tail := used_tail ?r\<rparr> = ?r"
    by blast
  have fr: "config_size r' = config_size ?r" "avail_ring r' = avail_ring ?r"
    "used_elements r' = used_elements ?r" "used_idx r' = used_idx ?r"
    using arg_cong[OF R0(8), of config_size] arg_cong[OF R0(8), of avail_ring]
      arg_cong[OF R0(8), of used_elements] arg_cong[OF R0(8), of used_idx] by simp_all
  have ok': "ring_ok r'" using I(1) fr R0(2,6) by (simp add: ring_ok_def)
  note R = R0(1,2,3,4,6,7) ok'
  have idb: "unat (ue_id ue) < length (completions ?r)"
  proof -
    have "hd c \<in> set c" using cne by simp
    then have "hd c < length (descs ?r)" using chain_from_bound[OF o(1)] by simp
    then show ?thesis using I(1) hd by (simp add: ring_ok_def)
  qed
  have comp: "\<And>j. j \<noteq> hd c \<Longrightarrow> completions r' ! j = completions ?r ! j"
    using R(2) hd by simp
  have comph: "dropped (completions r' ! hd c) = []"
    using R(2) hd idb by (simp add: dropped_def)
  have dist: "distinct ((rev c @ fl) @ concat (map fst (xs @ ys)))"
    using D by auto
  have free: "\<forall>a\<in>set (rev c @ fl). dropped (completions r' ! a) = []"
  proof
    fix a assume a: "a \<in> set (rev c @ fl)"
    show "dropped (completions r' ! a) = []"
    proof (cases "a = hd c")
      case True
      then show ?thesis using comph by simp
    next
      case False
      then have e: "completions r' ! a = completions ?r ! a" by (rule comp)
      have "a \<in> set (tl c) \<or> a \<in> set fl"
        using a False cne by (cases c) auto
      then show ?thesis using e o(3) I(6) by auto
    qed
  qed
  have old: "\<forall>(c', p')\<in>set (xs @ ys). chain_from (descs r') c' \<and>
          completions r' ! hd c' = Pending (DestroyPacket p') \<and>
          (\<forall>j\<in>set (tl c'). dropped (completions r' ! j) = [])"
  proof (intro ballI, clarify)
    fix c' p' assume m': "(c', p') \<in> set (xs @ ys)"
    then have "(c', p') \<in> set cps" using sp by auto
    then have o': "chain_from (descs ?r) c'" "completions ?r ! hd c' = Pending (DestroyPacket p')"
      "\<forall>j\<in>set (tl c'). dropped (completions ?r ! j) = []"
      using I(5) by auto
    have "set c' \<subseteq> set (concat (map fst xs)) \<union> set (concat (map fst ys))" using m' by force
    then have dj': "set c' \<inter> set c = {}" using D(8,9) by blast
    have a: "chain_from (descs r') c'" using chain_from_frame[OF o'(1) R(5) R(6) dj'] .
    have cne': "c' \<noteq> []" using o'(1) by auto
    have "hd c \<in> set c" using cne by simp
    then have nin: "hd c \<notin> set c'" using dj' by auto
    have "hd c' \<in> set c'" using cne' by simp
    then have "hd c' \<noteq> hd c" using nin by auto
    then have b: "completions r' ! hd c' = Pending (DestroyPacket p')" using comp o'(2) by simp
    have c'': "\<forall>j\<in>set (tl c'). dropped (completions r' ! j) = []"
    proof
      fix j assume j: "j \<in> set (tl c')"
      then have "j \<in> set c'" using cne' by (meson list.set_sel(2))
      then have "j \<noteq> hd c" using nin by auto
      then show "dropped (completions r' ! j) = []" using comp o'(3) j by simp
    qed
    show "chain_from (descs r') c' \<and> completions r' ! hd c' = Pending (DestroyPacket p') \<and>
          (\<forall>j\<in>set (tl c'). dropped (completions r' ! j) = [])"
      using a b c'' by blast
  qed
  have inv': "tx_chains r' (rev c @ fl) (xs @ ys)"
    unfolding tx_chains_def
    using R(7) R(3) dist old free by simp
  have notin: "(c, p) \<notin> set (xs @ ys)"
  proof
    assume "(c, p) \<in> set (xs @ ys)"
    then have "set c \<subseteq> set (concat (map fst xs)) \<union> set (concat (map fst ys))" by force
    then have "set c \<inter> set c = {}" using D(8,9) by blast
    then show False using cne by simp
  qed
  have "set (xs @ ys) = set cps - {(c, p)}" using notin unfolding sp by auto
  then show ?thesis using R0(1,4,5) inv' fr(1,3,4) by blast
qed


lemma tx_inv_ring:
  "dev_txq d1 = dev_txq d2 \<Longrightarrow> tx_inv d1 fl cps = tx_inv d2 fl cps"
  by (simp add: tx_inv_def)

lemma fold_destroy:
  assumes "map fst fs = map (\<lambda>x. DestroyPacket (snd x)) eps"
  shows "destroyed (fold run_continuation fs d) = destroyed d @ map snd eps \<and>
         dev_txq (fold run_continuation fs d) = dev_txq d \<and>
         header_len (fold run_continuation fs d) = header_len d"
  using assms
proof (induction fs arbitrary: eps d)
  case Nil
  then show ?case by simp
next
  case (Cons f fs)
  then obtain x eps' where e: "eps = x # eps'" by (cases eps) auto
  obtain k v where f: "f = (k, v)" by (cases f)
  have k: "k = DestroyPacket (snd x)" and r: "map fst fs = map (\<lambda>x. DestroyPacket (snd x)) eps'"
    using Cons.prems e f by simp_all
  from Cons.IH[OF r, of "d\<lparr>destroyed := destroyed d @ [snd x]\<rparr>"]
  show ?case using e f k by simp
qed

lemma complete_loop_tx:
  assumes inv: "tx_chains r fl cps"
    and pu: "pending_used r (used_tail r) es"
    and eps: "distinct eps" "set eps \<subseteq> set cps"
      "map (\<lambda>e. unat (ue_id e)) es = map (\<lambda>x. hd (fst x)) eps"
  shows "\<exists>r' cps' fs.
     complete_loop (used_idx r) r fired = Some (Inr (r', fired @ fs)) \<and>
     map fst fs = map (\<lambda>x. DestroyPacket (snd x)) eps \<and>
     map snd fs = map (\<lambda>e. ucast (ue_len e)) es \<and>
     tx_chains r' (rev (concat (map fst eps)) @ fl) cps' \<and>
     set cps' = set cps - set eps \<and>
     available_descriptors r' =
       (signal ^^ length (concat (map fst eps))) (available_descriptors r) \<and>
     used_tail r' = used_idx r \<and> used_idx r' = used_idx r \<and>
     used_elements r' = used_elements r \<and> config_size r' = config_size r"
  using assms
proof (induction es arbitrary: r fl cps eps fired)
  case Nil
  have e: "eps = []" using Nil.prems(5) by simp
  have t: "used_idx r = used_tail r" using Nil.prems(2) by simp
  then have "complete_loop (used_idx r) r fired = Some (Inr (r, fired @ []))"
    by (subst complete_loop.simps) simp
  then show ?case using Nil.prems(1) t unfolding e
    by (intro exI[of _ r] exI[of _ cps] exI[of _ "[]"]) simp
next
  case (Cons e es)
  obtain x eps' where x: "eps = x # eps'" using Cons.prems(5) by (cases eps) auto
  obtain c p where cp: "x = (c, p)" by (cases x)
  have m: "(c, p) \<in> set cps" using Cons.prems(4) x cp by simp
  have hd: "hd c = unat (ue_id e)" using Cons.prems(5) x cp by simp
  have ne: "used_idx r \<noteq> used_tail r"
    and ue: "used_elements r ! unat (masked r (ucast (used_tail r))) = e"
    and pu': "pending_used r (used_tail r + 1) es"
    using Cons.prems(2) by simp_all
  from tx_entry_ok[OF Cons.prems(1) m ue hd] obtain r1 cps1 where R1:
    "complete_entry r = Some (Inr (r1, (DestroyPacket p, ucast (ue_len e))))"
    "tx_chains r1 (rev c @ fl) cps1"
    "set cps1 = set cps - {(c, p)}"
    "available_descriptors r1 = (signal ^^ length c) (available_descriptors r)"
    "used_idx r1 = used_idx r" "used_tail r1 = used_tail r + 1"
    "used_elements r1 = used_elements r" "config_size r1 = config_size r"
    by blast
  have step: "complete_loop (used_idx r) r fired =
              complete_loop (used_idx r1) r1 (fired @ [(DestroyPacket p, ucast (ue_len e))])"
    using ne R1(1,5) by (subst complete_loop.simps) simp
  have pu1: "pending_used r1 (used_tail r1) es"
    using pu' pending_used_cong[OF R1(5,7,8)] R1(6) by simp
  have e1: "distinct eps'" "set eps' \<subseteq> set cps1"
    "map (\<lambda>e. unat (ue_id e)) es = map (\<lambda>x. hd (fst x)) eps'"
    using Cons.prems(3,4,5) R1(3) x cp by auto
  from Cons.IH[OF R1(2) pu1 e1, of "fired @ [(DestroyPacket p, ucast (ue_len e))]"]
  obtain r' cps' fs where R':
    "complete_loop (used_idx r1) r1 (fired @ [(DestroyPacket p, ucast (ue_len e))]) =
       Some (Inr (r', (fired @ [(DestroyPacket p, ucast (ue_len e))]) @ fs))"
    "map fst fs = map (\<lambda>x. DestroyPacket (snd x)) eps'"
    "map snd fs = map (\<lambda>e. ucast (ue_len e)) es"
    "tx_chains r' (rev (concat (map fst eps')) @ rev c @ fl) cps'"
    "set cps' = set cps1 - set eps'"
    "available_descriptors r' =
       (signal ^^ length (concat (map fst eps'))) (available_descriptors r1)"
    "used_tail r' = used_idx r1" "used_idx r' = used_idx r1"
    "used_elements r' = used_elements r1" "config_size r' = config_size r1"
    by blast
  have a: "complete_loop (used_idx r) r fired =
       Some (Inr (r', fired @ ((DestroyPacket p, ucast (ue_len e)) # fs)))"
    using step R'(1) by simp
  have b: "map fst ((DestroyPacket p, ucast (ue_len e) :: size_t) # fs) =
           map (\<lambda>x. DestroyPacket (snd x)) eps"
    using R'(2) x cp by simp
  have b2: "map snd ((DestroyPacket p, ucast (ue_len e) :: size_t) # fs) =
           map (\<lambda>e. ucast (ue_len e)) (e # es)"
    using R'(3) by simp
  have c: "tx_chains r' (rev (concat (map fst eps)) @ fl) cps'"
    using R'(4) x cp by simp
  have d: "set cps' = set cps - set eps" using R'(5) R1(3) x cp by auto
  have s: "available_descriptors r' =
       (signal ^^ length (concat (map fst eps))) (available_descriptors r)"
  proof -
    have "length (concat (map fst eps)) = length (concat (map fst eps')) + length c"
      using x cp by simp
    then show ?thesis using R'(6) R1(4) by (simp only: funpow_add o_apply)
  qed
  have f: "used_tail r' = used_idx r" "used_idx r' = used_idx r"
    "used_elements r' = used_elements r" "config_size r' = config_size r"
    using R'(7,8,9,10) R1(5,7,8) by simp_all
  show ?case using a b b2 c d s f by blast
qed

lemma tx_complete_ok:
  assumes inv: "tx_inv dev fl cps"
    and pu: "pending_used (tx_ring (dev_txq dev)) (used_tail (tx_ring (dev_txq dev))) es"
    and eps: "distinct eps" "set eps \<subseteq> set cps"
      "map (\<lambda>e. unat (ue_id e)) es = map (\<lambda>x. hd (fst x)) eps"
  shows "\<exists>dev' cps'. tx_complete dev = Some (Inr dev') \<and>
     destroyed dev' = destroyed dev @ map snd eps \<and> header_len dev' = header_len dev \<and>
     tx_inv dev' (rev (concat (map fst eps)) @ fl) cps' \<and> set cps' = set cps - set eps \<and>
     tx_held (dev_txq dev') = tx_held (dev_txq dev) \<and>
     tx_queue (dev_txq dev') = tx_queue (dev_txq dev) \<and>
     available_descriptors (tx_ring (dev_txq dev')) =
       (signal ^^ length (concat (map fst eps))) (available_descriptors (tx_ring (dev_txq dev)))"
proof -
  let ?r = "tx_ring (dev_txq dev)"
  let ?n = "length (concat (map fst eps))"
  have I: "tx_chains ?r fl cps" "units (available_descriptors ?r) = length fl"
    "producer_state (available_descriptors ?r)
       (map_option (\<lambda>p. length (fragments p)) (tx_held (dev_txq dev)))"
    using inv by (simp_all add: tx_inv_def)
  from complete_loop_tx[OF I(1) pu eps, of "[]"] obtain r' cps' fs where R0:
    "complete_loop (used_idx ?r) ?r [] = Some (Inr (r', [] @ fs))"
    "map fst fs = map (\<lambda>x. DestroyPacket (snd x)) eps"
    "tx_chains r' (rev (concat (map fst eps)) @ fl) cps'"
    "set cps' = set cps - set eps"
    "available_descriptors r' = (signal ^^ ?n) (available_descriptors ?r)"
    by blast
  have R1: "complete ?r = Some (Inr (r', fs))"
    using R0(1) by (simp add: complete_def)
  define d1 where "d1 = dev\<lparr>dev_txq := (dev_txq dev)\<lparr>tx_ring := r'\<rparr>\<rparr>"
  define dev' where "dev' = fold run_continuation fs d1"
  have tc: "tx_complete dev = Some (Inr dev')"
    using R1 by (simp add: tx_complete_def dev'_def d1_def)
  have f: "destroyed dev' = destroyed d1 @ map snd eps" "dev_txq dev' = dev_txq d1"
    "header_len dev' = header_len d1"
    using fold_destroy[OF R0(2), of d1] unfolding dev'_def by blast+
  have ds: "destroyed dev' = destroyed dev @ map snd eps" "header_len dev' = header_len dev"
    using f(1,3) by (simp_all add: d1_def)
  have u: "units (available_descriptors r') = length (rev (concat (map fst eps)) @ fl)"
    using R0(5) I(2) by (simp add: units_funpow_signal)
  have ps: "producer_state (available_descriptors r')
       (map_option (\<lambda>p. length (fragments p)) (tx_held (dev_txq dev)))"
    unfolding R0(5) using I(3) by (rule producer_state_funpow_signal)
  have "tx_inv d1 (rev (concat (map fst eps)) @ fl) cps'"
    using R0(3) u ps by (simp add: tx_inv_def d1_def)
  then have "tx_inv dev' (rev (concat (map fst eps)) @ fl) cps'"
    using tx_inv_ring[OF f(2)] by simp
  moreover have "tx_held (dev_txq dev') = tx_held (dev_txq dev)"
    "tx_queue (dev_txq dev') = tx_queue (dev_txq dev)"
    "available_descriptors (tx_ring (dev_txq dev')) = (signal ^^ ?n) (available_descriptors ?r)"
    using f(2) R0(5) by (simp_all add: d1_def)
  ultimately show ?thesis using tc ds R0(4) by blast
qed

lemma tx_inv_host_use:
  assumes "tx_inv dev fl cps"
  shows "tx_inv (dev\<lparr>dev_txq := (dev_txq dev)\<lparr>tx_ring := host_use e (tx_ring (dev_txq dev))\<rparr>\<rparr>) fl cps"
  using assms by (simp add: tx_inv_def tx_chains_def host_use_def ring_ok_def)

lemma tx_inv_fresh:
  assumes "0 < n" "n \<le> 65535" "length ds = n" "length av = n" "length us = n"
    and "vring_new n ds av us = Inr (tx_ring (dev_txq dev))"
    and "tx_held (dev_txq dev) = None"
  shows "tx_inv dev (rev [0 ..< n]) []"
proof -
  from vring_new_ok[OF assms(1-5)] assms(6) have R:
    "ring_ok (tx_ring (dev_txq dev))"
    "free_list_from (descs (tx_ring (dev_txq dev))) (free_desc_head (tx_ring (dev_txq dev))) (rev [0 ..< n])"
    "available_descriptors (tx_ring (dev_txq dev)) = new_semaphore n"
    "completions (tx_ring (dev_txq dev)) = replicate n (Pending NoContinuation)"
    by auto
  have "\<forall>a\<in>set (rev [0 ..< n]). dropped (completions (tx_ring (dev_txq dev)) ! a) = []"
    using R(4) by (simp add: dropped_def)
  then show ?thesis using R(1,2,3) assms(7)
    by (simp add: tx_inv_def tx_chains_def producer_state_def units_def new_semaphore_def)
qed

text \<open>
  C6. The destructor of a TX packet runs when, and only when, the promise of its chain's
  head fires. The TX queue is in a state where the free list and the chains the host owns
  are disjoint, the slot of each such chain's head holds the pending promise whose
  continuation owns the chain's packet, and no other slot holds a continuation; the
  constructor establishes this state with no chain in flight. Then a round of the submit
  loop on the packet at the front of the FIFO destroys no packet, neither the new one nor
  one in flight: when the free list covers the fragments of the new packet, the round leaves
  the queue in such a state with the new chain and its packet added to those the host owns;
  when it does not, the producer is suspended holding the new packet, and the round that
  starts when its wait has been served adds the chain and the packet in the same way, again
  destroying nothing. And when the reap loop consumes used entries that name the heads of
  distinct chains the host owns, the promises of these heads fire and the list of destroyed
  packets grows by exactly the packets of these chains, in the order of the entries; the
  other chains stay with the host, their packets alive, and so does a packet the suspended
  producer holds. The new packet is whatever the packet constructor returns, as long as it
  has a fragment.
\<close>

theorem tx_packet_destroyed_at_completion:
  assumes "tx_inv dev fl cps"
  shows "(\<forall>prepend vhdr mem p rest qp mem1.
        tx_held (dev_txq dev) = None \<and>
        tx_queue (dev_txq dev) = p # rest \<and> 0 < tx_queue_length (dev_txq dev) \<and>
        prepend \<lparr>base = vhdr, size_frag = header_len dev\<rparr> p (zero_net_hdr_mrg vhdr mem) =
          (qp, mem1) \<and>
        fragments qp \<noteq> [] \<and> length (fragments qp) \<le> length fl
      \<longrightarrow> (\<exists>dev'. tx_submit prepend vhdr mem dev = Inr (True, dev', vhdr_out_of_scope vhdr mem1) \<and>
           destroyed dev' = destroyed dev \<and> header_len dev' = header_len dev \<and>
           tx_inv dev' (drop (length (fragments qp)) fl)
             ((rev (take (length (fragments qp)) fl), qp) # cps) \<and>
           tx_held (dev_txq dev') = None \<and> tx_queue (dev_txq dev') = rest \<and>
           used_idx (tx_ring (dev_txq dev')) = used_idx (tx_ring (dev_txq dev)) \<and>
           used_tail (tx_ring (dev_txq dev')) = used_tail (tx_ring (dev_txq dev)) \<and>
           used_elements (tx_ring (dev_txq dev')) = used_elements (tx_ring (dev_txq dev)) \<and>
           config_size (tx_ring (dev_txq dev')) = config_size (tx_ring (dev_txq dev)))) \<and>
     (\<forall>prepend vhdr mem p rest qp mem1.
        tx_held (dev_txq dev) = None \<and>
        tx_queue (dev_txq dev) = p # rest \<and> 0 < tx_queue_length (dev_txq dev) \<and>
        prepend \<lparr>base = vhdr, size_frag = header_len dev\<rparr> p (zero_net_hdr_mrg vhdr mem) =
          (qp, mem1) \<and>
        length fl < length (fragments qp)
      \<longrightarrow> (\<exists>dev'. tx_submit prepend vhdr mem dev = Inr (False, dev', vhdr_out_of_scope vhdr mem1) \<and>
           destroyed dev' = destroyed dev \<and> header_len dev' = header_len dev \<and>
           tx_inv dev' fl cps \<and>
           tx_held (dev_txq dev') = Some qp \<and> tx_queue (dev_txq dev') = rest \<and>
           wait_list (available_descriptors (tx_ring (dev_txq dev'))) = [length (fragments qp)] \<and>
           used_idx (tx_ring (dev_txq dev')) = used_idx (tx_ring (dev_txq dev)) \<and>
           used_tail (tx_ring (dev_txq dev')) = used_tail (tx_ring (dev_txq dev)) \<and>
           used_elements (tx_ring (dev_txq dev')) = used_elements (tx_ring (dev_txq dev)) \<and>
           config_size (tx_ring (dev_txq dev')) = config_size (tx_ring (dev_txq dev)))) \<and>
     (\<forall>qp. tx_held (dev_txq dev) = Some qp \<and>
          resumed (available_descriptors (tx_ring (dev_txq dev))) \<noteq> []
      \<longrightarrow> (\<exists>dev'. tx_resume dev = Inr (Some dev') \<and>
           destroyed dev' = destroyed dev \<and> header_len dev' = header_len dev \<and>
           length (fragments qp) \<le> length fl \<and>
           tx_inv dev' (drop (length (fragments qp)) fl)
             ((rev (take (length (fragments qp)) fl), qp) # cps) \<and>
           tx_held (dev_txq dev') = None \<and> tx_queue (dev_txq dev') = tx_queue (dev_txq dev) \<and>
           used_idx (tx_ring (dev_txq dev')) = used_idx (tx_ring (dev_txq dev)) \<and>
           used_tail (tx_ring (dev_txq dev')) = used_tail (tx_ring (dev_txq dev)) \<and>
           used_elements (tx_ring (dev_txq dev')) = used_elements (tx_ring (dev_txq dev)) \<and>
           config_size (tx_ring (dev_txq dev')) = config_size (tx_ring (dev_txq dev)))) \<and>
     (\<forall>es eps.
          pending_used (tx_ring (dev_txq dev)) (used_tail (tx_ring (dev_txq dev))) es \<and>
          distinct eps \<and> set eps \<subseteq> set cps \<and>
          map (\<lambda>e. unat (ue_id e)) es = map (\<lambda>x. hd (fst x)) eps
      \<longrightarrow> (\<exists>dev' cps'. tx_complete dev = Some (Inr dev') \<and>
           destroyed dev' = destroyed dev @ map snd eps \<and> header_len dev' = header_len dev \<and>
           tx_inv dev' (rev (concat (map fst eps)) @ fl) cps' \<and>
           set cps' = set cps - set eps \<and>
           tx_held (dev_txq dev') = tx_held (dev_txq dev) \<and>
           tx_queue (dev_txq dev') = tx_queue (dev_txq dev) \<and>
           available_descriptors (tx_ring (dev_txq dev')) =
             (signal ^^ length (concat (map fst eps)))
               (available_descriptors (tx_ring (dev_txq dev))))) \<and>
     (\<forall>n ds av us d0. 0 < n \<and> n \<le> 65535 \<and> length ds = n \<and> length av = n \<and> length us = n \<and>
          vring_new n ds av us = Inr (tx_ring (dev_txq d0)) \<and> tx_held (dev_txq d0) = None
      \<longrightarrow> tx_inv d0 (rev [0 ..< n]) [])"
proof (intro conjI allI impI)
  fix prepend :: packet_ctor and vhdr mem p rest qp mem1
  assume h: "tx_held (dev_txq dev) = None \<and>
        tx_queue (dev_txq dev) = p # rest \<and> 0 < tx_queue_length (dev_txq dev) \<and>
        prepend \<lparr>base = vhdr, size_frag = header_len dev\<rparr> p (zero_net_hdr_mrg vhdr mem) =
          (qp, mem1) \<and>
        fragments qp \<noteq> [] \<and> length (fragments qp) \<le> length fl"
  then have q: "tx_held (dev_txq dev) = None"
    "tx_queue (dev_txq dev) = p # rest" "0 < tx_queue_length (dev_txq dev)"
    "prepend \<lparr>base = vhdr, size_frag = header_len dev\<rparr> p (zero_net_hdr_mrg vhdr mem) = (qp, mem1)"
    "fragments qp \<noteq> []" "length (fragments qp) \<le> length fl" by blast+
  show "\<exists>dev'. tx_submit prepend vhdr mem dev = Inr (True, dev', vhdr_out_of_scope vhdr mem1) \<and>
           destroyed dev' = destroyed dev \<and> header_len dev' = header_len dev \<and>
           tx_inv dev' (drop (length (fragments qp)) fl)
             ((rev (take (length (fragments qp)) fl), qp) # cps) \<and>
           tx_held (dev_txq dev') = None \<and> tx_queue (dev_txq dev') = rest \<and>
           used_idx (tx_ring (dev_txq dev')) = used_idx (tx_ring (dev_txq dev)) \<and>
           used_tail (tx_ring (dev_txq dev')) = used_tail (tx_ring (dev_txq dev)) \<and>
           used_elements (tx_ring (dev_txq dev')) = used_elements (tx_ring (dev_txq dev)) \<and>
           config_size (tx_ring (dev_txq dev')) = config_size (tx_ring (dev_txq dev))"
    using tx_submit_ok[where prepend = prepend and vhdr = vhdr and mem = mem, OF assms q] .
next
  fix prepend :: packet_ctor and vhdr mem p rest qp mem1
  assume h: "tx_held (dev_txq dev) = None \<and>
        tx_queue (dev_txq dev) = p # rest \<and> 0 < tx_queue_length (dev_txq dev) \<and>
        prepend \<lparr>base = vhdr, size_frag = header_len dev\<rparr> p (zero_net_hdr_mrg vhdr mem) =
          (qp, mem1) \<and>
        length fl < length (fragments qp)"
  then have q: "tx_held (dev_txq dev) = None"
    "tx_queue (dev_txq dev) = p # rest" "0 < tx_queue_length (dev_txq dev)"
    "prepend \<lparr>base = vhdr, size_frag = header_len dev\<rparr> p (zero_net_hdr_mrg vhdr mem) = (qp, mem1)"
    "length fl < length (fragments qp)" by blast+
  show "\<exists>dev'. tx_submit prepend vhdr mem dev = Inr (False, dev', vhdr_out_of_scope vhdr mem1) \<and>
           destroyed dev' = destroyed dev \<and> header_len dev' = header_len dev \<and>
           tx_inv dev' fl cps \<and>
           tx_held (dev_txq dev') = Some qp \<and> tx_queue (dev_txq dev') = rest \<and>
           wait_list (available_descriptors (tx_ring (dev_txq dev'))) = [length (fragments qp)] \<and>
           used_idx (tx_ring (dev_txq dev')) = used_idx (tx_ring (dev_txq dev)) \<and>
           used_tail (tx_ring (dev_txq dev')) = used_tail (tx_ring (dev_txq dev)) \<and>
           used_elements (tx_ring (dev_txq dev')) = used_elements (tx_ring (dev_txq dev)) \<and>
           config_size (tx_ring (dev_txq dev')) = config_size (tx_ring (dev_txq dev))"
    using tx_submit_suspends[where prepend = prepend and vhdr = vhdr and mem = mem, OF assms q] .
next
  fix qp
  assume h: "tx_held (dev_txq dev) = Some qp \<and>
          resumed (available_descriptors (tx_ring (dev_txq dev))) \<noteq> []"
  then have q: "tx_held (dev_txq dev) = Some qp"
    "resumed (available_descriptors (tx_ring (dev_txq dev))) \<noteq> []" by blast+
  show "\<exists>dev'. tx_resume dev = Inr (Some dev') \<and>
           destroyed dev' = destroyed dev \<and> header_len dev' = header_len dev \<and>
           length (fragments qp) \<le> length fl \<and>
           tx_inv dev' (drop (length (fragments qp)) fl)
             ((rev (take (length (fragments qp)) fl), qp) # cps) \<and>
           tx_held (dev_txq dev') = None \<and> tx_queue (dev_txq dev') = tx_queue (dev_txq dev) \<and>
           used_idx (tx_ring (dev_txq dev')) = used_idx (tx_ring (dev_txq dev)) \<and>
           used_tail (tx_ring (dev_txq dev')) = used_tail (tx_ring (dev_txq dev)) \<and>
           used_elements (tx_ring (dev_txq dev')) = used_elements (tx_ring (dev_txq dev)) \<and>
           config_size (tx_ring (dev_txq dev')) = config_size (tx_ring (dev_txq dev))"
    using tx_resume_ok[OF assms q] .
next
  fix es eps
  assume h: "pending_used (tx_ring (dev_txq dev)) (used_tail (tx_ring (dev_txq dev))) es \<and>
          distinct eps \<and> set eps \<subseteq> set cps \<and>
          map (\<lambda>e. unat (ue_id e)) es = map (\<lambda>x. hd (fst x)) eps"
  then have q: "pending_used (tx_ring (dev_txq dev)) (used_tail (tx_ring (dev_txq dev))) es"
    "distinct eps" "set eps \<subseteq> set cps"
    "map (\<lambda>e. unat (ue_id e)) es = map (\<lambda>x. hd (fst x)) eps" by blast+
  show "\<exists>dev' cps'. tx_complete dev = Some (Inr dev') \<and>
           destroyed dev' = destroyed dev @ map snd eps \<and> header_len dev' = header_len dev \<and>
           tx_inv dev' (rev (concat (map fst eps)) @ fl) cps' \<and>
           set cps' = set cps - set eps \<and>
           tx_held (dev_txq dev') = tx_held (dev_txq dev) \<and>
           tx_queue (dev_txq dev') = tx_queue (dev_txq dev) \<and>
           available_descriptors (tx_ring (dev_txq dev')) =
             (signal ^^ length (concat (map fst eps)))
               (available_descriptors (tx_ring (dev_txq dev)))"
    using tx_complete_ok[OF assms q] .
next
  fix n :: nat and ds :: "desc list" and av :: "16 word list" and us :: "used_elem list"
    and d0 :: virtio_net_device
  assume h: "0 < n \<and> n \<le> 65535 \<and> length ds = n \<and> length av = n \<and> length us = n \<and>
          vring_new n ds av us = Inr (tx_ring (dev_txq d0)) \<and> tx_held (dev_txq d0) = None"
  then have q: "0 < n" "n \<le> 65535" "length ds = n" "length av = n" "length us = n"
    "vring_new n ds av us = Inr (tx_ring (dev_txq d0))" "tx_held (dev_txq d0) = None" by blast+
  show "tx_inv d0 (rev [0 ..< n]) []" using tx_inv_fresh[OF q] .
qed

lemma tx_inv_send: "tx_inv (send p dev) fl cps = tx_inv dev fl cps"
  by (simp add: tx_inv_def send_def post_def)

lemma signal3_waiting:
  "signal (signal (signal \<lparr>sem_count = 1, wait_list = [3], resumed = []\<rparr>)) =
     \<lparr>sem_count = 1, wait_list = [], resumed = [3]\<rparr>"
  by (simp add: signal_def)

theorem tx_packet_destroyed_at_completion_witness:
  "tx_inv (send pkt2 dev4) [3, 2, 1, 0] [] \<and>
   (\<exists>dev1 mem1 dev2 mem2 dev3 dev5.
      tx_submit (copy_prepend 0x9000) 0x7000 (\<lambda>a. Some 255) (send pkt2 dev4) = Inr (True, dev1, mem1) \<and>
      destroyed dev1 = [] \<and> tx_inv dev1 [0] [([1, 2, 3], pkt2_hdr 0x9000)] \<and>
      tx_submit (copy_prepend 0xA000) 0x7000 mem1 (send pkt2 dev1) = Inr (False, dev2, mem2) \<and>
      destroyed dev2 = [] \<and> tx_held (dev_txq dev2) = Some (pkt2_hdr 0xA000) \<and>
      tx_complete (dev2\<lparr>dev_txq := (dev_txq dev2)\<lparr>tx_ring :=
                     host_use \<lparr>ue_id = 1, ue_len = 0\<rparr> (tx_ring (dev_txq dev2))\<rparr>\<rparr>) = Some (Inr dev3) \<and>
      destroyed dev3 = [pkt2_hdr 0x9000] \<and> tx_held (dev_txq dev3) = Some (pkt2_hdr 0xA000) \<and>
      tx_resume dev3 = Inr (Some dev5) \<and>
      destroyed dev5 = [pkt2_hdr 0x9000] \<and> tx_inv dev5 [0] [([1, 2, 3], pkt2_hdr 0xA000)])"
proof -
  let ?d0 = "send pkt2 dev4"
  let ?qa = "pkt2_hdr 0x9000"
  let ?qb = "pkt2_hdr 0xA000"
  let ?m0 = "(\<lambda>a. Some 255) :: memory"
  let ?e = "\<lparr>ue_id = 1, ue_len = 0\<rparr> :: used_elem"
  let ?fl = "[3, 2, 1, 0::nat]"
  note T = tx_packet_destroyed_at_completion
  have tq0: "dev_txq ?d0 = txq4" by (simp add: send_def post_def dev4_def txq4_def)
  have inv0: "tx_inv ?d0 ?fl []"
    by (simp add: tx_inv_def tx_chains_def tq0 txq4_def ring_ok_def ring4_def zero_desc_def
        dropped_def producer_state_def units_def new_semaphore_def)
  have hl0: "header_len ?d0 = 10" by (simp add: send_def dev4_def sizeof_net_hdr_def)
  have ds0: "destroyed ?d0 = []" by (simp add: send_def dev4_def)
  have u0: "used_idx (tx_ring (dev_txq ?d0)) = 0" "used_tail (tx_ring (dev_txq ?d0)) = 0"
    "config_size (tx_ring (dev_txq ?d0)) = 4" "length (used_elements (tx_ring (dev_txq ?d0))) = 4"
    by (simp_all add: tq0 txq4_def ring4_def)
  have fr: "fragments ?qa \<noteq> []" "length (fragments ?qa) = 3"
    "fragments ?qb \<noteq> []" "length (fragments ?qb) = 3"
    by (simp_all add: pkt2_hdr_def pkt2_def)
  have td: "drop 3 ?fl = [0]" "rev (take 3 ?fl) = [1, 2, 3]" by simp_all
  txt \<open>the first round is served at once\<close>
  define m1 where "m1 = snd (copy_prepend 0x9000 \<lparr>base = 0x7000, size_frag = 10\<rparr> pkt2
                              (zero_net_hdr_mrg 0x7000 ?m0))"
  have c1: "copy_prepend 0x9000 \<lparr>base = 0x7000, size_frag = header_len ?d0\<rparr> pkt2
              (zero_net_hdr_mrg 0x7000 ?m0) = (?qa, m1)"
    unfolding hl0 m1_def by (simp add: copy_prepend_def pkt2_hdr_def)
  have h1: "tx_held (dev_txq ?d0) = None \<and>
        tx_queue (dev_txq ?d0) = pkt2 # [] \<and> 0 < tx_queue_length (dev_txq ?d0) \<and>
        copy_prepend 0x9000 \<lparr>base = 0x7000, size_frag = header_len ?d0\<rparr> pkt2
          (zero_net_hdr_mrg 0x7000 ?m0) = (?qa, m1) \<and>
        fragments ?qa \<noteq> [] \<and> length (fragments ?qa) \<le> length ?fl"
  proof (intro conjI)
    show "tx_held (dev_txq ?d0) = None" by (simp add: tq0 txq4_def)
    show "tx_queue (dev_txq ?d0) = pkt2 # []" by (simp add: tq0 txq4_def)
    show "0 < tx_queue_length (dev_txq ?d0)" by (simp add: tq0 txq4_def)
    show "copy_prepend 0x9000 \<lparr>base = 0x7000, size_frag = header_len ?d0\<rparr> pkt2
          (zero_net_hdr_mrg 0x7000 ?m0) = (?qa, m1)" by (rule c1)
    show "fragments ?qa \<noteq> []" by (rule fr(1))
    show "length (fragments ?qa) \<le> length ?fl" unfolding fr(2) by simp
  qed
  from T[OF inv0, THEN conjunct1, rule_format,
      where prepend = "copy_prepend 0x9000" and vhdr = "0x7000" and mem = ?m0 and p = pkt2
        and rest = "[]" and qp = ?qa and ?mem1.0 = m1, OF h1]
  obtain dev1 where W1:
    "tx_submit (copy_prepend 0x9000) 0x7000 ?m0 ?d0 = Inr (True, dev1, vhdr_out_of_scope 0x7000 m1)"
    "destroyed dev1 = destroyed ?d0" "header_len dev1 = header_len ?d0"
    "tx_inv dev1 [0] [([1, 2, 3], ?qa)]"
    "tx_held (dev_txq dev1) = None" "tx_queue (dev_txq dev1) = []"
    "used_idx (tx_ring (dev_txq dev1)) = used_idx (tx_ring (dev_txq ?d0))"
    "used_tail (tx_ring (dev_txq dev1)) = used_tail (tx_ring (dev_txq ?d0))"
    "used_elements (tx_ring (dev_txq dev1)) = used_elements (tx_ring (dev_txq ?d0))"
    "config_size (tx_ring (dev_txq dev1)) = config_size (tx_ring (dev_txq ?d0))"
    unfolding fr(2) td by (elim exE conjE) (rule that)
  txt \<open>the second packet finds one unit and is held\<close>
  let ?d1 = "send pkt2 dev1"
  let ?m1' = "vhdr_out_of_scope 0x7000 m1"
  have inv1: "tx_inv ?d1 [0] [([1, 2, 3], ?qa)]" using W1(4) by (simp add: tx_inv_send)
  have hl1: "header_len ?d1 = 10" using W1(3) hl0 by (simp add: send_def)
  have r1: "tx_ring (dev_txq ?d1) = tx_ring (dev_txq dev1)" by (simp add: send_def post_def)
  define m2 where "m2 = snd (copy_prepend 0xA000 \<lparr>base = 0x7000, size_frag = 10\<rparr> pkt2
                              (zero_net_hdr_mrg 0x7000 ?m1'))"
  have c2: "copy_prepend 0xA000 \<lparr>base = 0x7000, size_frag = header_len ?d1\<rparr> pkt2
              (zero_net_hdr_mrg 0x7000 ?m1') = (?qb, m2)"
    unfolding hl1 m2_def by (simp add: copy_prepend_def pkt2_hdr_def)
  have h2: "tx_held (dev_txq ?d1) = None \<and>
        tx_queue (dev_txq ?d1) = pkt2 # [] \<and> 0 < tx_queue_length (dev_txq ?d1) \<and>
        copy_prepend 0xA000 \<lparr>base = 0x7000, size_frag = header_len ?d1\<rparr> pkt2
          (zero_net_hdr_mrg 0x7000 ?m1') = (?qb, m2) \<and>
        length [0::nat] < length (fragments ?qb)"
  proof (intro conjI)
    show "tx_held (dev_txq ?d1) = None" using W1(5) by (simp add: send_def post_def)
    show "tx_queue (dev_txq ?d1) = pkt2 # []" using W1(6) by (simp add: send_def post_def)
    show "0 < tx_queue_length (dev_txq ?d1)" by (simp add: send_def post_def)
    show "copy_prepend 0xA000 \<lparr>base = 0x7000, size_frag = header_len ?d1\<rparr> pkt2
          (zero_net_hdr_mrg 0x7000 ?m1') = (?qb, m2)" by (rule c2)
    show "length [0::nat] < length (fragments ?qb)" unfolding fr(4) by simp
  qed
  from T[OF inv1, THEN conjunct2, THEN conjunct1, rule_format,
      where prepend = "copy_prepend 0xA000" and vhdr = "0x7000" and mem = ?m1' and p = pkt2
        and rest = "[]" and qp = ?qb and ?mem1.0 = m2, OF h2]
  obtain dev2 where W2:
    "tx_submit (copy_prepend 0xA000) 0x7000 ?m1' ?d1 = Inr (False, dev2, vhdr_out_of_scope 0x7000 m2)"
    "destroyed dev2 = destroyed ?d1" "header_len dev2 = header_len ?d1"
    "tx_inv dev2 [0] [([1, 2, 3], ?qa)]"
    "tx_held (dev_txq dev2) = Some ?qb" "tx_queue (dev_txq dev2) = []"
    "wait_list (available_descriptors (tx_ring (dev_txq dev2))) = [3]"
    "used_idx (tx_ring (dev_txq dev2)) = used_idx (tx_ring (dev_txq ?d1))"
    "used_tail (tx_ring (dev_txq dev2)) = used_tail (tx_ring (dev_txq ?d1))"
    "used_elements (tx_ring (dev_txq dev2)) = used_elements (tx_ring (dev_txq ?d1))"
    "config_size (tx_ring (dev_txq dev2)) = config_size (tx_ring (dev_txq ?d1))"
    unfolding fr(4) by (elim exE conjE) (rule that)
  have ds2: "destroyed dev2 = []" using W2(2) W1(2) ds0 by (simp add: send_def)
  let ?r2 = "tx_ring (dev_txq dev2)"
  let ?s2 = "available_descriptors ?r2"
  have u2: "used_idx ?r2 = 0" "used_tail ?r2 = 0" "config_size ?r2 = 4"
    "length (used_elements ?r2) = 4"
    using W2(8,9,10,11) W1(7,8,9,10) u0 unfolding r1 by simp_all
  have s2: "?s2 = \<lparr>sem_count = 1, wait_list = [3], resumed = []\<rparr>"
  proof -
    have a: "units ?s2 = 1" "producer_state ?s2 (Some 3)"
      using W2(4,5) fr(4) by (simp_all add: tx_inv_def)
    have b: "resumed ?s2 = []" using a(2) W2(7) by (simp add: producer_state_def)
    then have "sem_count ?s2 = 1" using a(1) by (simp add: units_def)
    then show ?thesis using b W2(7) by (cases ?s2) simp
  qed
  txt \<open>the host returns the first chain; its packet is destroyed, the held one is not\<close>
  let ?d2h = "dev2\<lparr>dev_txq := (dev_txq dev2)\<lparr>tx_ring := host_use ?e ?r2\<rparr>\<rparr>"
  let ?eps = "[([1::nat, 2, 3], ?qa)]"
  have inv2: "tx_inv ?d2h [0] ?eps" using tx_inv_host_use[OF W2(4)] .
  have rh: "tx_ring (dev_txq ?d2h) = host_use ?e ?r2" by simp
  have m0: "unat (masked ?r2 0) = 0" by (simp add: masked_def)
  have mh: "unat (masked (host_use ?e ?r2) 0) = 0" by (simp add: masked_def)
  have pu: "pending_used (tx_ring (dev_txq ?d2h)) (used_tail (tx_ring (dev_txq ?d2h))) [?e]"
    unfolding rh using u2 m0 mh by (simp add: host_use_def)
  have h3: "pending_used (tx_ring (dev_txq ?d2h)) (used_tail (tx_ring (dev_txq ?d2h))) [?e] \<and>
          distinct ?eps \<and> set ?eps \<subseteq> set ?eps \<and>
          map (\<lambda>e. unat (ue_id e)) [?e] = map (\<lambda>x. hd (fst x)) ?eps"
  proof (intro conjI)
    show "pending_used (tx_ring (dev_txq ?d2h)) (used_tail (tx_ring (dev_txq ?d2h))) [?e]"
      by (rule pu)
    show "distinct ?eps" by simp
    show "set ?eps \<subseteq> set ?eps" by (rule subset_refl)
    show "map (\<lambda>e. unat (ue_id e)) [?e] = map (\<lambda>x. hd (fst x)) ?eps" by simp
  qed
  from T[OF inv2, THEN conjunct2, THEN conjunct2, THEN conjunct2, THEN conjunct1, rule_format, OF h3]
  obtain dev3 cps3 where W3:
    "tx_complete ?d2h = Some (Inr dev3)"
    "destroyed dev3 = destroyed ?d2h @ map snd ?eps" "header_len dev3 = header_len ?d2h"
    "tx_inv dev3 (rev (concat (map fst ?eps)) @ [0]) cps3"
    "set cps3 = set ?eps - set ?eps"
    "tx_held (dev_txq dev3) = tx_held (dev_txq ?d2h)"
    "available_descriptors (tx_ring (dev_txq dev3)) =
       (signal ^^ length (concat (map fst ?eps))) (available_descriptors (tx_ring (dev_txq ?d2h)))"
    by (elim exE conjE) (rule that)
  have ds3: "destroyed dev3 = [?qa]" using W3(2) ds2 by simp
  have h3': "tx_held (dev_txq dev3) = Some ?qb" using W3(6) W2(5) by simp
  have cps3: "cps3 = []" using W3(5) by simp
  have inv3: "tx_inv dev3 ?fl []" using W3(4) cps3 by simp
  have s3: "available_descriptors (tx_ring (dev_txq dev3)) =
              \<lparr>sem_count = 1, wait_list = [], resumed = [3]\<rparr>"
  proof -
    have "available_descriptors (tx_ring (dev_txq ?d2h)) = ?s2" by (simp add: host_use_def)
    then have "available_descriptors (tx_ring (dev_txq dev3)) = signal (signal (signal ?s2))"
      using W3(7) by simp
    then show ?thesis unfolding s2 signal3_waiting .
  qed
  txt \<open>the producer resumes with the three units and submits the held packet\<close>
  have h4: "tx_held (dev_txq dev3) = Some ?qb \<and>
          resumed (available_descriptors (tx_ring (dev_txq dev3))) \<noteq> []"
    using h3' s3 by simp
  from T[OF inv3, THEN conjunct2, THEN conjunct2, THEN conjunct1, rule_format, OF h4]
  obtain dev5 where W4:
    "tx_resume dev3 = Inr (Some dev5)" "destroyed dev5 = destroyed dev3"
    "tx_inv dev5 [0] [([1, 2, 3], ?qb)]"
    unfolding fr(4) td by (elim exE conjE) (rule that)
  have ds5: "destroyed dev5 = [?qa]" using W4(2) ds3 by simp
  have ds1: "destroyed dev1 = []" using W1(2) ds0 by simp
  have "\<exists>dev1 mem1 dev2 mem2 dev3 dev5.
      tx_submit (copy_prepend 0x9000) 0x7000 ?m0 ?d0 = Inr (True, dev1, mem1) \<and>
      destroyed dev1 = [] \<and> tx_inv dev1 [0] [([1, 2, 3], ?qa)] \<and>
      tx_submit (copy_prepend 0xA000) 0x7000 mem1 (send pkt2 dev1) = Inr (False, dev2, mem2) \<and>
      destroyed dev2 = [] \<and> tx_held (dev_txq dev2) = Some ?qb \<and>
      tx_complete (dev2\<lparr>dev_txq := (dev_txq dev2)\<lparr>tx_ring :=
                     host_use ?e (tx_ring (dev_txq dev2))\<rparr>\<rparr>) = Some (Inr dev3) \<and>
      destroyed dev3 = [?qa] \<and> tx_held (dev_txq dev3) = Some ?qb \<and>
      tx_resume dev3 = Inr (Some dev5) \<and>
      destroyed dev5 = [?qa] \<and> tx_inv dev5 [0] [([1, 2, 3], ?qb)]"
    apply (rule exI[of _ dev1], rule exI[of _ ?m1'], rule exI[of _ dev2])
    apply (rule exI[of _ "vhdr_out_of_scope 0x7000 m2"], rule exI[of _ dev3], rule exI[of _ dev5])
    apply (intro conjI)
    apply (rule W1(1), rule ds1, rule W1(4), rule W2(1), rule ds2, rule W2(5))
    apply (rule W3(1), rule ds3, rule h3', rule W4(1), rule ds5, rule W4(3))
    done
  then show ?thesis using inv0 by (rule conjI[rotated])
qed

subsection \<open>The TX producer\<close>

lemma zero_net_hdr_mrg_bytes:
  assumes "hl \<le> 12"
  shows "fragment_bytes (zero_net_hdr_mrg vhdr mem) \<lparr>base = vhdr, size_frag = hl\<rparr> =
         replicate (unat hl) (Some 0)"
proof -
  have "\<And>i. i < unat hl \<Longrightarrow> (word_of_nat i :: 64 word) < 12"
  proof -
    fix i assume i: "i < unat hl"
    have "unat hl \<le> 12" using assms by (simp add: word_le_nat_alt)
    then have "i < 12" using i by simp
    then have "unat (word_of_nat i :: 64 word) = i" by (simp add: unat_of_nat)
    then show "(word_of_nat i :: 64 word) < 12" using \<open>i < 12\<close> by (simp add: word_less_nat_alt)
  qed
  then have "map (\<lambda>i. zero_net_hdr_mrg vhdr mem (vhdr + word_of_nat i)) [0 ..< unat hl] =
             map (\<lambda>i. Some 0) [0 ..< unat hl]"
    by (intro map_cong) (simp_all add: zero_net_hdr_mrg_def)
  then show ?thesis by (simp add: fragment_bytes_def map_replicate_const)
qed

lemma header_copy_zero:
  assumes "hl \<le> 12" "size_frag h = hl"
    and "fragment_bytes mem1 h =
           fragment_bytes (zero_net_hdr_mrg vhdr mem) \<lparr>base = vhdr, size_frag = hl\<rparr>"
    and "\<forall>i<unat hl. 12 \<le> base h + word_of_nat i - vhdr"
  shows "fragment_bytes (vhdr_out_of_scope vhdr mem1) \<lparr>base = base h, size_frag = hl\<rparr> =
         replicate (unat hl) (Some 0)"
proof -
  have "map (\<lambda>i. vhdr_out_of_scope vhdr mem1 (base h + word_of_nat i)) [0 ..< unat hl] =
        map (\<lambda>i. mem1 (base h + word_of_nat i)) [0 ..< unat hl]"
  proof (rule map_cong[OF refl])
    fix i assume "i \<in> set [0 ..< unat hl]"
    then have "12 \<le> base h + word_of_nat i - vhdr" using assms(4) by simp
    then have "\<not> base h + word_of_nat i - vhdr < 12" by (simp add: not_less)
    then show "vhdr_out_of_scope vhdr mem1 (base h + word_of_nat i) = mem1 (base h + word_of_nat i)"
      by (simp add: vhdr_out_of_scope_def)
  qed
  then have "fragment_bytes (vhdr_out_of_scope vhdr mem1) \<lparr>base = base h, size_frag = hl\<rparr> =
             fragment_bytes mem1 h"
    using assms(2) by (simp add: fragment_bytes_def)
  then show ?thesis using assms(3) zero_net_hdr_mrg_bytes[OF assms(1)] by simp
qed

text \<open>
  C5. The TX producer with a packet p of f fragments at the front of the FIFO, where the
  packet constructor it calls returns p with one fragment in front: header_len bytes, a copy
  of the bytes of the header it is given, in storage that is not the local header. The
  producer pops p and asks the semaphore for f + 1 units. The batch its continuation returns
  is one chain of f + 1 buffers, none writeable: the first is that header fragment, with
  length header_len, and (for header_len up to the 12 bytes of the header structure) its
  bytes are zero in the memory the producer leaves, in which the local header is gone; its
  promise carries the continuation that owns the packet; buffer i + 1 has the base address
  and the size (as 32 bits) of fragment i of p. If the semaphore holds f + 1 units and nobody
  is waiting, the producer takes exactly these and returns the batch at once. Otherwise it
  is suspended: its wait for f + 1 units is the last on the list of the semaphore and the
  continuation holds the packet; and once a signal has served the wait, the continuation
  returns the batch.
\<close>

theorem transmit_one_chain:
  assumes "tx_queue q = p # rest" "0 < tx_queue_length q"
    and "prepend \<lparr>base = vhdr, size_frag = hl\<rparr> p (zero_net_hdr_mrg vhdr mem) = (qp, mem1)"
    and "fragments qp = h # fragments p" "size_frag h = hl"
    and "fragment_bytes mem1 h =
           fragment_bytes (zero_net_hdr_mrg vhdr mem) \<lparr>base = vhdr, size_frag = hl\<rparr>"
    and "\<forall>i<unat hl. 12 \<le> base h + word_of_nat i - vhdr"
  shows "\<exists>bc. transmit_cont qp = Inr [bc] \<and>
     length bc = length (fragments p) + 1 \<and>
     (\<forall>b\<in>set bc. \<not> writeable b) \<and>
     addr (bc ! 0) = base h \<and> len (bc ! 0) = ucast hl \<and>
     completed (bc ! 0) = Pending (DestroyPacket qp) \<and>
     (hl \<le> 12 \<longrightarrow>
        fragment_bytes (vhdr_out_of_scope vhdr mem1) \<lparr>base = addr (bc ! 0), size_frag = hl\<rparr> =
          replicate (unat hl) (Some 0)) \<and>
     (\<forall>i<length (fragments p).
        addr (bc ! (i + 1)) = base (fragments p ! i) \<and>
        len (bc ! (i + 1)) = ucast (size_frag (fragments p ! i)) \<and>
        completed (bc ! (i + 1)) = Pending NoContinuation) \<and>
     (length (fragments p) + 1 \<le> sem_count (available_descriptors (tx_ring q)) \<and>
      wait_list (available_descriptors (tx_ring q)) = [] \<longrightarrow>
        transmit prepend hl vhdr mem q =
          Inr (Some [bc],
               q\<lparr>tx_ring := (tx_ring q)\<lparr>available_descriptors := (available_descriptors (tx_ring q))
                     \<lparr>sem_count := sem_count (available_descriptors (tx_ring q)) -
                                     (length (fragments p) + 1)\<rparr>\<rparr>,
                 tx_queue := rest, tx_queue_length := tx_queue_length q - 1\<rparr>,
               vhdr_out_of_scope vhdr mem1)) \<and>
     (\<not> (length (fragments p) + 1 \<le> sem_count (available_descriptors (tx_ring q)) \<and>
         wait_list (available_descriptors (tx_ring q)) = []) \<longrightarrow>
        transmit prepend hl vhdr mem q =
          Inr (None,
               q\<lparr>tx_ring := (tx_ring q)\<lparr>available_descriptors := (available_descriptors (tx_ring q))
                     \<lparr>wait_list := wait_list (available_descriptors (tx_ring q)) @
                                     [length (fragments p) + 1]\<rparr>\<rparr>,
                 tx_queue := rest, tx_queue_length := tx_queue_length q - 1,
                 tx_held := Some qp\<rparr>,
               vhdr_out_of_scope vhdr mem1)) \<and>
     (\<forall>q2 nr rs. tx_held q2 = Some qp \<and>
          resumed (available_descriptors (tx_ring q2)) = nr # rs \<longrightarrow>
        transmit_resumed q2 =
          Inr (Some ([bc],
               q2\<lparr>tx_ring := (tx_ring q2)\<lparr>available_descriptors :=
                      (available_descriptors (tx_ring q2))\<lparr>resumed := rs\<rparr>\<rparr>,
                  tx_held := None\<rparr>)))"
proof -
  let ?s = "available_descriptors (tx_ring q)"
  let ?n = "length (fragments p) + 1"
  have ne: "fragments qp \<noteq> []" and ln: "length (fragments qp) = ?n"
    using assms(4) by simp_all
  from transmit_cont_ok[OF ne] obtain bc where B: "transmit_cont qp = Inr [bc]"
    "length bc = length (fragments qp)"
    "\<forall>i<length bc. addr (bc ! i) = base (fragments qp ! i) \<and>
        len (bc ! i) = ucast (size_frag (fragments qp ! i)) \<and> \<not> writeable (bc ! i) \<and>
        completed (bc ! i) = (if i = 0 then Pending (DestroyPacket qp) else Pending NoContinuation)"
    by blast
  have l: "length bc = ?n" using B(2) ln by simp
  have w: "\<forall>b\<in>set bc. \<not> writeable b"
  proof
    fix b assume "b \<in> set bc"
    then obtain i where "i < length bc" "b = bc ! i" by (auto simp: in_set_conv_nth)
    then show "\<not> writeable b" using B(3) by simp
  qed
  have h0: "addr (bc ! 0) = base h" "len (bc ! 0) = ucast hl"
    "completed (bc ! 0) = Pending (DestroyPacket qp)"
    using B(3)[rule_format, of 0] l assms(4,5) by simp_all
  have z: "hl \<le> 12 \<longrightarrow>
        fragment_bytes (vhdr_out_of_scope vhdr mem1) \<lparr>base = addr (bc ! 0), size_frag = hl\<rparr> =
          replicate (unat hl) (Some 0)"
    unfolding h0(1) using header_copy_zero[OF _ assms(5,6,7)] by blast
  have fr: "\<forall>i<length (fragments p).
        addr (bc ! (i + 1)) = base (fragments p ! i) \<and>
        len (bc ! (i + 1)) = ucast (size_frag (fragments p ! i)) \<and>
        completed (bc ! (i + 1)) = Pending NoContinuation"
  proof (intro allI impI)
    fix i assume i: "i < length (fragments p)"
    then have "i + 1 < length bc" using l by simp
    from B(3)[rule_format, OF this]
    show "addr (bc ! (i + 1)) = base (fragments p ! i) \<and>
        len (bc ! (i + 1)) = ucast (size_frag (fragments p ! i)) \<and>
        completed (bc ! (i + 1)) = Pending NoContinuation"
      using assms(4) by simp
  qed
  have rdy: "transmit prepend hl vhdr mem q =
          Inr (Some [bc],
               q\<lparr>tx_ring := (tx_ring q)\<lparr>available_descriptors := ?s\<lparr>sem_count := sem_count ?s - ?n\<rparr>\<rparr>,
                 tx_queue := rest, tx_queue_length := tx_queue_length q - 1\<rparr>,
               vhdr_out_of_scope vhdr mem1)"
    if "?n \<le> sem_count ?s \<and> wait_list ?s = []"
    using that assms(1,2,3) ln B(1)
    by (simp add: transmit_def Let_def wait_available_def wait_def)
  have sus: "transmit prepend hl vhdr mem q =
          Inr (None,
               q\<lparr>tx_ring := (tx_ring q)\<lparr>available_descriptors := ?s\<lparr>wait_list := wait_list ?s @ [?n]\<rparr>\<rparr>,
                 tx_queue := rest, tx_queue_length := tx_queue_length q - 1,
                 tx_held := Some qp\<rparr>,
               vhdr_out_of_scope vhdr mem1)"
    if "\<not> (?n \<le> sem_count ?s \<and> wait_list ?s = [])"
  proof -
    have "wait ?n ?s = (False, ?s\<lparr>wait_list := wait_list ?s @ [?n]\<rparr>)"
      using that by (auto simp: wait_def)
    then show ?thesis using assms(1,2,3) ln
      by (simp add: transmit_def Let_def wait_available_def)
  qed
  have res: "\<forall>q2 nr rs. tx_held q2 = Some qp \<and>
          resumed (available_descriptors (tx_ring q2)) = nr # rs \<longrightarrow>
        transmit_resumed q2 =
          Inr (Some ([bc],
               q2\<lparr>tx_ring := (tx_ring q2)\<lparr>available_descriptors :=
                      (available_descriptors (tx_ring q2))\<lparr>resumed := rs\<rparr>\<rparr>,
                  tx_held := None\<rparr>))"
    using B(1) by (simp add: transmit_resumed_def run_resumed_def)
  show ?thesis
    apply (rule exI[of _ bc])
    apply (intro conjI)
    apply (rule B(1), rule l, rule w, rule h0(1), rule h0(2), rule h0(3), rule z, rule fr)
    using rdy apply blast
    using sus apply blast
    apply (rule res)
    done
qed

lemma word_of_nat_less_unat:
  assumes "i < unat (w :: 64 word)"
  shows "(word_of_nat i :: 64 word) < w"
proof -
  have "unat w < 2 ^ 64" using unsigned_less[of w, where 'a = nat] by simp
  then have "i < 2 ^ 64" using assms by simp
  then have "unat (word_of_nat i :: 64 word) = i" by (simp add: unat_of_nat)
  then show ?thesis using assms by (simp add: word_less_nat_alt)
qed

lemma copy_prepend_bytes:
  "fragment_bytes (snd (copy_prepend hbuf f p mem)) \<lparr>base = hbuf, size_frag = size_frag f\<rparr> =
   fragment_bytes mem f"
proof -
  have "map (\<lambda>i. snd (copy_prepend hbuf f p mem) (hbuf + word_of_nat i)) [0 ..< unat (size_frag f)] =
        map (\<lambda>i. mem (base f + word_of_nat i)) [0 ..< unat (size_frag f)]"
  proof (rule map_cong[OF refl])
    fix i assume "i \<in> set [0 ..< unat (size_frag f)]"
    then have "(word_of_nat i :: 64 word) < size_frag f" by (simp add: word_of_nat_less_unat)
    then show "snd (copy_prepend hbuf f p mem) (hbuf + word_of_nat i) = mem (base f + word_of_nat i)"
      by (simp add: copy_prepend_def)
  qed
  then show ?thesis by (simp add: fragment_bytes_def)
qed

lemma copy_not_in_local:
  assumes "i < 10"
  shows "(12 :: 64 word) \<le> 0x9000 + word_of_nat i - 0x7000"
proof -
  have e: "(0x9000 + word_of_nat i - 0x7000 :: 64 word) = 8192 + word_of_nat i" by simp
  have i: "unat (word_of_nat i :: 64 word) = i" using assms by (simp add: unat_of_nat)
  have "unat (8192 :: 64 word) + unat (word_of_nat i :: 64 word) < 2 ^ LENGTH(64)"
    using assms unfolding i by simp
  then have "unat (8192 + word_of_nat i :: 64 word) = unat (8192 :: 64 word) + unat (word_of_nat i :: 64 word)"
    by (simp only: unat_add_lem)
  then have "unat (8192 + word_of_nat i :: 64 word) = 8192 + i" unfolding i by simp
  then show ?thesis unfolding e by (simp add: word_le_nat_alt)
qed

theorem transmit_one_chain_witness:
  "tx_queue txq4 = [pkt2] \<and> 0 < tx_queue_length txq4 \<and>
   (\<exists>bc q' mem'.
      transmit (copy_prepend 0x9000) 10 0x7000 (\<lambda>a. Some 255) txq4 = Inr (Some [bc], q', mem') \<and>
      length bc = 3 \<and> addr (bc ! 0) = 0x9000 \<and> len (bc ! 0) = 10 \<and>
      fragment_bytes mem' \<lparr>base = addr (bc ! 0), size_frag = 10\<rparr> = replicate 10 (Some 0) \<and>
      addr (bc ! Suc 0) = 0x5000 \<and> addr (bc ! Suc (Suc 0)) = 0x6000 \<and>
      available_descriptors (tx_ring q') = new_semaphore 1 \<and> tx_queue q' = [] \<and>
      (\<exists>q2 mem2.
         transmit (copy_prepend 0x9000) 10 0x7000 (\<lambda>a. Some 255) (txq4\<lparr>tx_ring := ring4_inflight\<rparr>) =
           Inr (None, q2, mem2) \<and>
         tx_held q2 = Some (pkt2_hdr 0x9000) \<and>
         available_descriptors (tx_ring q2) = \<lparr>sem_count = 2, wait_list = [3], resumed = []\<rparr> \<and>
         (\<exists>q3. transmit_resumed
                 (q2\<lparr>tx_ring := (tx_ring q2)\<lparr>available_descriptors :=
                        signal (available_descriptors (tx_ring q2))\<rparr>\<rparr>) = Inr (Some ([bc], q3)) \<and>
               tx_held q3 = None \<and>
               available_descriptors (tx_ring q3) = new_semaphore 0)))"
proof -
  let ?m0 = "(\<lambda>a. Some 255) :: memory"
  let ?qp = "pkt2_hdr 0x9000"
  let ?h = "\<lparr>base = 0x9000, size_frag = 10\<rparr> :: fragment"
  let ?f = "\<lparr>base = 0x7000, size_frag = 10\<rparr> :: fragment"
  let ?qs = "txq4\<lparr>tx_ring := ring4_inflight\<rparr>"
  define m1 where "m1 = snd (copy_prepend 0x9000 ?f pkt2 (zero_net_hdr_mrg 0x7000 ?m0))"
  have h1: "tx_queue txq4 = pkt2 # []" "tx_queue ?qs = pkt2 # []" by (simp_all add: txq4_def)
  have h2: "0 < tx_queue_length txq4" "0 < tx_queue_length ?qs" by (simp_all add: txq4_def)
  have h3: "copy_prepend 0x9000 ?f pkt2 (zero_net_hdr_mrg 0x7000 ?m0) = (?qp, m1)"
    unfolding m1_def by (simp add: copy_prepend_def pkt2_hdr_def)
  have h4: "fragments ?qp = ?h # fragments pkt2" by (simp add: pkt2_hdr_def)
  have h5: "size_frag ?h = 10" by simp
  have h6: "fragment_bytes m1 ?h = fragment_bytes (zero_net_hdr_mrg 0x7000 ?m0) ?f"
    unfolding m1_def using copy_prepend_bytes[of "0x9000" ?f pkt2 "zero_net_hdr_mrg 0x7000 ?m0"]
    by simp
  have h7: "\<forall>i<unat (10 :: 64 word). 12 \<le> base ?h + word_of_nat i - 0x7000"
    using copy_not_in_local by simp
  have f2: "length (fragments pkt2) + 1 = 3" by (simp add: pkt2_def)
  have s4: "available_descriptors (tx_ring txq4) = new_semaphore 4"
    by (simp add: txq4_def ring4_def)
  have ss: "available_descriptors (tx_ring ?qs) = new_semaphore 2"
    by (simp add: ring4_inflight_def)
  from transmit_one_chain[where prepend = "copy_prepend 0x9000" and vhdr = "0x7000" and mem = ?m0
      and hl = 10 and h = ?h and ?mem1.0 = m1 and qp = ?qp and p = pkt2 and q = txq4 and rest = "[]",
      OF h1(1) h2(1) h3 h4 h5 h6 h7] obtain bc where A:
    "transmit_cont ?qp = Inr [bc]"
    "length bc = length (fragments pkt2) + 1"
    "addr (bc ! 0) = base ?h" "len (bc ! 0) = ucast (10 :: 64 word)"
    "(10 :: 64 word) \<le> 12 \<longrightarrow>
        fragment_bytes (vhdr_out_of_scope 0x7000 m1) \<lparr>base = addr (bc ! 0), size_frag = 10\<rparr> =
          replicate (unat (10 :: 64 word)) (Some 0)"
    "\<forall>i<length (fragments pkt2).
        addr (bc ! (i + 1)) = base (fragments pkt2 ! i) \<and>
        len (bc ! (i + 1)) = ucast (size_frag (fragments pkt2 ! i)) \<and>
        completed (bc ! (i + 1)) = Pending NoContinuation"
    "length (fragments pkt2) + 1 \<le> sem_count (available_descriptors (tx_ring txq4)) \<and>
      wait_list (available_descriptors (tx_ring txq4)) = [] \<longrightarrow>
        transmit (copy_prepend 0x9000) 10 0x7000 ?m0 txq4 =
          Inr (Some [bc],
               txq4\<lparr>tx_ring := (tx_ring txq4)\<lparr>available_descriptors := (available_descriptors (tx_ring txq4))
                     \<lparr>sem_count := sem_count (available_descriptors (tx_ring txq4)) -
                                     (length (fragments pkt2) + 1)\<rparr>\<rparr>,
                 tx_queue := [], tx_queue_length := tx_queue_length txq4 - 1\<rparr>,
               vhdr_out_of_scope 0x7000 m1)"
    by (elim exE conjE) (rule that)
  define q' where "q' = txq4\<lparr>tx_ring := (tx_ring txq4)\<lparr>available_descriptors := new_semaphore 1\<rparr>,
                 tx_queue := [], tx_queue_length := tx_queue_length txq4 - 1\<rparr>"
  have t1: "transmit (copy_prepend 0x9000) 10 0x7000 ?m0 txq4 =
              Inr (Some [bc], q', vhdr_out_of_scope 0x7000 m1)"
    using A(7) unfolding f2 s4 q'_def by (simp add: new_semaphore_def)
  have a: "length bc = 3" using A(2) f2 by simp
  have b: "addr (bc ! 0) = 0x9000" "len (bc ! 0) = 10" using A(3,4) by simp_all
  have c: "fragment_bytes (vhdr_out_of_scope 0x7000 m1) \<lparr>base = addr (bc ! 0), size_frag = 10\<rparr> =
             replicate 10 (Some 0)"
    using A(5) by simp
  have d: "addr (bc ! Suc 0) = 0x5000" "addr (bc ! Suc (Suc 0)) = 0x6000"
    using A(6)[rule_format, of 0] A(6)[rule_format, of 1] by (simp_all add: pkt2_def)
  have e: "available_descriptors (tx_ring q') = new_semaphore 1" "tx_queue q' = []"
    by (simp_all add: q'_def)
  txt \<open>the same packet on a ring with two units left: the producer is suspended\<close>
  from transmit_one_chain[where prepend = "copy_prepend 0x9000" and vhdr = "0x7000" and mem = ?m0
      and hl = 10 and h = ?h and ?mem1.0 = m1 and qp = ?qp and p = pkt2 and q = ?qs and rest = "[]",
      OF h1(2) h2(2) h3 h4 h5 h6 h7] obtain bc' where B:
    "transmit_cont ?qp = Inr [bc']"
    "\<not> (length (fragments pkt2) + 1 \<le> sem_count (available_descriptors (tx_ring ?qs)) \<and>
         wait_list (available_descriptors (tx_ring ?qs)) = []) \<longrightarrow>
        transmit (copy_prepend 0x9000) 10 0x7000 ?m0 ?qs =
          Inr (None,
               ?qs\<lparr>tx_ring := (tx_ring ?qs)\<lparr>available_descriptors := (available_descriptors (tx_ring ?qs))
                     \<lparr>wait_list := wait_list (available_descriptors (tx_ring ?qs)) @
                                     [length (fragments pkt2) + 1]\<rparr>\<rparr>,
                 tx_queue := [], tx_queue_length := tx_queue_length ?qs - 1,
                 tx_held := Some ?qp\<rparr>,
               vhdr_out_of_scope 0x7000 m1)"
    "\<forall>q2 nr rs. tx_held q2 = Some ?qp \<and>
          resumed (available_descriptors (tx_ring q2)) = nr # rs \<longrightarrow>
        transmit_resumed q2 =
          Inr (Some ([bc'],
               q2\<lparr>tx_ring := (tx_ring q2)\<lparr>available_descriptors :=
                      (available_descriptors (tx_ring q2))\<lparr>resumed := rs\<rparr>\<rparr>,
                  tx_held := None\<rparr>))"
    by (elim exE conjE) (rule that)
  have bb: "bc' = bc" using A(1) B(1) by simp
  define q2 where "q2 = ?qs\<lparr>tx_ring := ring4_inflight\<lparr>available_descriptors :=
                     \<lparr>sem_count = 2, wait_list = [3], resumed = []\<rparr>\<rparr>,
                 tx_queue := [], tx_queue_length := tx_queue_length ?qs - 1,
                 tx_held := Some ?qp\<rparr>"
  have t2: "transmit (copy_prepend 0x9000) 10 0x7000 ?m0 ?qs =
              Inr (None, q2, vhdr_out_of_scope 0x7000 m1)"
    using B(2) unfolding f2 ss q2_def by (simp add: new_semaphore_def)
  have g: "tx_held q2 = Some ?qp"
    "available_descriptors (tx_ring q2) = \<lparr>sem_count = 2, wait_list = [3], resumed = []\<rparr>"
    by (simp_all add: q2_def)
  let ?q2s = "q2\<lparr>tx_ring := (tx_ring q2)\<lparr>available_descriptors :=
                        signal (available_descriptors (tx_ring q2))\<rparr>\<rparr>"
  have sg: "signal \<lparr>sem_count = 2, wait_list = [3], resumed = []\<rparr> =
              \<lparr>sem_count = 0, wait_list = [], resumed = [3]\<rparr>"
    by (simp add: signal_def)
  have hr: "tx_held ?q2s = Some ?qp \<and> resumed (available_descriptors (tx_ring ?q2s)) = 3 # []"
    using g sg by simp
  define q3 where "q3 = ?q2s\<lparr>tx_ring := (tx_ring ?q2s)\<lparr>available_descriptors :=
                      (available_descriptors (tx_ring ?q2s))\<lparr>resumed := []\<rparr>\<rparr>,
                  tx_held := None\<rparr>"
  have t3: "transmit_resumed ?q2s = Inr (Some ([bc], q3))"
    using B(3)[rule_format, OF hr] unfolding bb q3_def .
  have k: "tx_held q3 = None" "available_descriptors (tx_ring q3) = new_semaphore 0"
    using g(2) sg by (simp_all add: q3_def new_semaphore_def)
  have R: "\<exists>q3. transmit_resumed ?q2s = Inr (Some ([bc], q3)) \<and> tx_held q3 = None \<and>
               available_descriptors (tx_ring q3) = new_semaphore 0"
    using t3 k by (intro exI[of _ q3] conjI)
  have S: "\<exists>q2 mem2.
         transmit (copy_prepend 0x9000) 10 0x7000 ?m0 ?qs = Inr (None, q2, mem2) \<and>
         tx_held q2 = Some ?qp \<and>
         available_descriptors (tx_ring q2) = \<lparr>sem_count = 2, wait_list = [3], resumed = []\<rparr> \<and>
         (\<exists>q3. transmit_resumed
                 (q2\<lparr>tx_ring := (tx_ring q2)\<lparr>available_descriptors :=
                        signal (available_descriptors (tx_ring q2))\<rparr>\<rparr>) = Inr (Some ([bc], q3)) \<and>
               tx_held q3 = None \<and>
               available_descriptors (tx_ring q3) = new_semaphore 0)"
    apply (rule exI[of _ q2], rule exI[of _ "vhdr_out_of_scope 0x7000 m1"])
    apply (intro conjI)
    apply (rule t2, rule g(1), rule g(2), rule R)
    done
  show ?thesis
    apply (intro conjI)
    apply (rule h1(1), rule h2(1))
    apply (rule exI[of _ bc], rule exI[of _ q'], rule exI[of _ "vhdr_out_of_scope 0x7000 m1"])
    apply (intro conjI)
    apply (rule t1, rule a, rule b(1), rule b(2), rule c, rule d(1), rule d(2), rule e(1), rule e(2))
    apply (rule S)
    done
qed

text \<open>With a constructor that keeps the pointer it is given, the first buffer names the
  local header, and in the memory the producer leaves its bytes belong to no object.\<close>

lemma transmit_alias_prepend_header:
  "\<exists>bc q' mem'.
     transmit alias_prepend 10 0x7000 (\<lambda>a. Some 255) txq4 = Inr (Some [bc], q', mem') \<and>
     addr (bc ! 0) = 0x7000 \<and>
     fragment_bytes mem' \<lparr>base = addr (bc ! 0), size_frag = 10\<rparr> = replicate 10 None"
proof -
  have z: "fragment_bytes (vhdr_out_of_scope 0x7000 m) \<lparr>base = 0x7000, size_frag = 10\<rparr> =
           replicate 10 None" for m
  proof -
    have "map (\<lambda>i. vhdr_out_of_scope 0x7000 m (0x7000 + word_of_nat i)) [0 ..< 10] =
          map (\<lambda>i. None) [0 ..< 10]"
    proof (rule map_cong[OF refl])
      fix i :: nat assume "i \<in> set [0 ..< 10]"
      then have "i < unat (12 :: 64 word)" by simp
      then have "(word_of_nat i :: 64 word) < 12" by (rule word_of_nat_less_unat)
      then show "vhdr_out_of_scope 0x7000 m (0x7000 + word_of_nat i) = None"
        by (simp add: vhdr_out_of_scope_def)
    qed
    then show ?thesis by (simp add: fragment_bytes_def map_replicate_const)
  qed
  show ?thesis
    using z
    by (simp add: transmit_def transmit_cont_def alias_prepend_def txq4_def pkt2_def ring4_def
        wait_available_def wait_def new_semaphore_def virt_to_phys_def Let_def)
qed

subsection \<open>Used entries are not validated\<close>

lemma chain_from_unique:
  "chain_from ds c \<Longrightarrow> chain_from ds c' \<Longrightarrow> hd c = hd c' \<Longrightarrow> c = c'"
proof (induction ds c arbitrary: c' rule: chain_from.induct)
  case (1 ds)
  then show ?case by simp
next
  case (2 ds d)
  show ?case
  proof (cases c')
    case Nil
    then show ?thesis using "2.prems" by simp
  next
    case (Cons d' t)
    then show ?thesis using "2.prems" by (cases t) auto
  qed
next
  case (3 ds d e es)
  show ?case
  proof (cases c')
    case Nil
    then show ?thesis using "3.prems" by simp
  next
    case (Cons d' t)
    then have d: "d' = d" using "3.prems"(3) by simp
    show ?thesis
    proof (cases t)
      case Nil
      then show ?thesis using "3.prems" Cons d by simp
    next
      case (Cons e' es')
      then have c': "c' = d # e' # es'" using \<open>c' = d' # t\<close> d by simp
      then have "e' = e" "chain_from ds (e' # es')" using "3.prems" by auto
      moreover have "chain_from ds (e # es)" using "3.prems"(1) by simp
      ultimately have "e # es = e' # es'" using "3.IH"[of "e' # es'"] by simp
      then show ?thesis using c' by simp
    qed
  qed
qed

lemma chain_from_suffix: "chain_from ds (xs @ y # ys) \<Longrightarrow> chain_from ds (y # ys)"
proof (induction xs)
  case Nil
  then show ?case by simp
next
  case (Cons x xs)
  then have "chain_from ds (xs @ y # ys)" by (cases xs) simp_all
  then show ?case by (rule Cons.IH)
qed

lemma chain_from_distinct: "chain_from ds c \<Longrightarrow> distinct c"
proof (induction c)
  case Nil
  then show ?case by simp
next
  case (Cons d c')
  show ?case
  proof (cases c')
    case Nil
    then show ?thesis by simp
  next
    case (Cons e es)
    then have ch: "chain_from ds c'" using Cons.prems by simp
    then have dc: "distinct c'" by (rule Cons.IH)
    have "d \<notin> set c'"
    proof
      assume "d \<in> set c'"
      then obtain xs ys where s: "c' = xs @ d # ys" by (auto simp: in_set_conv_decomp)
      then have "chain_from ds (d # ys)" using ch chain_from_suffix by simp
      then have "d # c' = d # ys" using chain_from_unique[OF Cons.prems, of "d # ys"] by simp
      then have "length c' = length ys" by simp
      then show False using s by simp
    qed
    then show ?thesis using dc by simp
  qed
qed

lemma free_chain_unchecked:
  assumes "chain_from (descs r) c"
  shows "\<exists>r'. free_chain (hd c) r = Some (Inr r') \<and>
     available_descriptors r' = (signal ^^ length c) (available_descriptors r) \<and>
     free_desc_head r' = int (last c) \<and>
     r'\<lparr>descs := descs r, free_desc_head := free_desc_head r,
        available_descriptors := available_descriptors r\<rparr> = r"
  using assms
proof (induction c arbitrary: r)
  case Nil
  then show ?case by simp
next
  case (Cons d c')
  have d: "d < length (descs r)" using Cons.prems by (cases c') auto
  define r1 where "r1 = r\<lparr>descs := (descs r)[d := (descs r ! d)\<lparr>desc_next := word_of_int (free_desc_head r)\<rparr>],
                  free_desc_head := int d,
                  available_descriptors := signal (available_descriptors r)\<rparr>"
  have fd: "free_desc d r = Inr r1" using d by (simp add: free_desc_def r1_def)
  have fr1: "r1\<lparr>descs := descs r, free_desc_head := free_desc_head r,
        available_descriptors := available_descriptors r\<rparr> = r"
    by (simp add: r1_def)
  show ?case
  proof (cases c')
    case Nil
    then have "\<not> has_next (desc_flags (descs r ! d))" using Cons.prems by simp
    then have "free_chain d r = Some (Inr r1)"
      using d fd by (subst free_chain.simps) (simp add: Let_def)
    moreover have "available_descriptors r1 = signal (available_descriptors r)"
      "free_desc_head r1 = int d"
      by (simp_all add: r1_def)
    ultimately show ?thesis using Nil fr1 by (intro exI[of _ r1]) simp
  next
    case (Cons e es)
    then have hn: "has_next (desc_flags (descs r ! d))" "unat (desc_next (descs r ! d)) = e"
      and ch: "chain_from (descs r) (e # es)"
      using Cons.prems by simp_all
    have step: "free_chain d r = free_chain e r1"
      using d fd hn by (subst free_chain.simps) (simp add: Let_def)
    have "distinct (d # c')" using Cons.prems by (rule chain_from_distinct)
    then have nd: "set (e # es) \<inter> {d} = {}" using Cons by simp
    have l1: "length (descs r1) = length (descs r)" by (simp add: r1_def)
    have "\<forall>j. j \<notin> {d} \<longrightarrow> descs r1 ! j = descs r ! j" by (simp add: r1_def)
    then have "chain_from (descs r1) (e # es)"
      using chain_from_frame[OF ch l1 _ nd] by blast
    then have ch1: "chain_from (descs r1) c'" using Cons by simp
    from Cons.IH[OF ch1] obtain r' where R':
      "free_chain (hd c') r1 = Some (Inr r')"
      "available_descriptors r' = (signal ^^ length c') (available_descriptors r1)"
      "free_desc_head r' = int (last c')"
      "r'\<lparr>descs := descs r1, free_desc_head := free_desc_head r1,
          available_descriptors := available_descriptors r1\<rparr> = r1"
      by blast
    have fr: "r'\<lparr>descs := descs r, free_desc_head := free_desc_head r,
        available_descriptors := available_descriptors r\<rparr> = r"
    proof -
      have "r'\<lparr>descs := descs r, free_desc_head := free_desc_head r,
                available_descriptors := available_descriptors r\<rparr>
          = (r'\<lparr>descs := descs r1, free_desc_head := free_desc_head r1,
                available_descriptors := available_descriptors r1\<rparr>)
              \<lparr>descs := descs r, free_desc_head := free_desc_head r,
                available_descriptors := available_descriptors r\<rparr>" by simp
      also have "\<dots> = r" using R'(4) fr1 by simp
      finally show ?thesis .
    qed
    have "free_chain (hd (d # c')) r = Some (Inr r')" using step R'(1) Cons by simp
    moreover have "available_descriptors r' = (signal ^^ length (d # c')) (available_descriptors r)"
      using R'(2) by (simp add: r1_def funpow_swap1)
    moreover have "free_desc_head r' = int (last (d # c'))" using R'(3) Cons by simp
    ultimately show ?thesis using fr by blast
  qed
qed

lemma free_chain_no_assert:
  assumes "free_chain did r = Some y"
  shows "y \<noteq> Inl AssertFailed \<and> y \<noteq> Inl PromiseAlreadySet"
proof (rule free_chain.raw_induct[where P = "\<lambda>did r y. y \<noteq> Inl AssertFailed \<and> y \<noteq> Inl PromiseAlreadySet",
      OF _ assms], goal_cases)
  case (1 fc did r y)
  show ?case
  proof (cases "length (descs r) \<le> did")
    case True
    then show ?thesis using 1(2) by auto
  next
    case False
    then have fd: "free_desc did r = Inr (r\<lparr>descs := (descs r)[did := (descs r ! did)\<lparr>desc_next := word_of_int (free_desc_head r)\<rparr>],
                  free_desc_head := int did,
                  available_descriptors := signal (available_descriptors r)\<rparr>)"
      by (simp add: free_desc_def)
    show ?thesis
    proof (cases "has_next (desc_flags (descs r ! did))")
      case True
      then have "fc (unat (desc_next (descs r ! did)))
           (r\<lparr>descs := (descs r)[did := (descs r ! did)\<lparr>desc_next := word_of_int (free_desc_head r)\<rparr>],
                  free_desc_head := int did,
                  available_descriptors := signal (available_descriptors r)\<rparr>) = Some y"
        using 1(2) \<open>\<not> length (descs r) \<le> did\<close> fd by (simp add: Let_def)
      then show ?thesis by (rule 1(1))
    next
      case False
      then show ?thesis using 1(2) \<open>\<not> length (descs r) \<le> did\<close> fd by (auto simp: Let_def)
    qed
  qed
qed

lemma complete_entry_unchecked:
  assumes ok: "ring_ok r"
    and ue: "used_elements r ! unat (masked r (ucast (used_tail r))) = ue"
    and p: "completions r ! unat (ue_id ue) = Pending k"
    and ch: "chain_from (descs r) c" "hd c = unat (ue_id ue)"
  shows "\<exists>r'. complete_entry r = Some (Inr (r', (k, ucast (ue_len ue)))) \<and>
     completions r' = (completions r)[unat (ue_id ue) := Fulfilled (ucast (ue_len ue))] \<and>
     available_descriptors r' = (signal ^^ length c) (available_descriptors r) \<and>
     free_desc_head r' = int (last c) \<and>
     used_tail r' = used_tail r + 1 \<and> used_idx r' = used_idx r \<and>
     r'\<lparr>descs := descs r, free_desc_head := free_desc_head r,
        available_descriptors := available_descriptors r, completions := completions r,
        used_tail := used_tail r\<rparr> = r"
proof -
  let ?id = "unat (ue_id ue)"
  define r1 where "r1 = r\<lparr>used_tail := used_tail r + 1,
      completions := (completions r)[?id := Fulfilled (ucast (ue_len ue))]\<rparr>"
  have slot: "unat (masked r (ucast (used_tail r))) < length (used_elements r)"
    using masked_slot_bound[of r] ok by (simp add: ring_ok_def)
  have "c \<noteq> []" using ch(1) by auto
  then have "hd c \<in> set c" by simp
  then have idb: "?id < length (descs r)" using chain_from_bound[OF ch(1)] ch(2) by simp
  then have idc: "?id < length (completions r)" using ok by (simp add: ring_ok_def)
  have c1: "chain_from (descs r1) c" using ch(1) by (simp add: r1_def)
  from free_chain_unchecked[OF c1] obtain r' where R':
    "free_chain (hd c) r1 = Some (Inr r')"
    "available_descriptors r' = (signal ^^ length c) (available_descriptors r1)"
    "free_desc_head r' = int (last c)"
    "r'\<lparr>descs := descs r1, free_desc_head := free_desc_head r1,
        available_descriptors := available_descriptors r1\<rparr> = r1"
    by blast
  have ce: "complete_entry r = Some (Inr (r', (k, ucast (ue_len ue))))"
    using slot idc ue p R'(1) ch(2)
    by (simp add: complete_entry_def Let_def set_value_def r1_def)
  have f: "completions r' = completions r1" "used_tail r' = used_tail r1" "used_idx r' = used_idx r1"
    using arg_cong[OF R'(4), of completions] arg_cong[OF R'(4), of used_tail]
      arg_cong[OF R'(4), of used_idx] by simp_all
  have fr: "r'\<lparr>descs := descs r, free_desc_head := free_desc_head r,
        available_descriptors := available_descriptors r, completions := completions r,
        used_tail := used_tail r\<rparr> = r"
  proof -
    have "r'\<lparr>descs := descs r, free_desc_head := free_desc_head r,
        available_descriptors := available_descriptors r, completions := completions r,
        used_tail := used_tail r\<rparr>
      = (r'\<lparr>descs := descs r1, free_desc_head := free_desc_head r1,
        available_descriptors := available_descriptors r1\<rparr>)
         \<lparr>descs := descs r, free_desc_head := free_desc_head r,
        available_descriptors := available_descriptors r, completions := completions r,
        used_tail := used_tail r\<rparr>" by simp
    also have "\<dots> = r" unfolding R'(4) by (simp add: r1_def)
    finally show ?thesis .
  qed
  show ?thesis
    using ce f R'(2,3) fr by (intro exI[of _ r']) (simp add: r1_def)
qed

lemma complete_entry_no_assert:
  assumes ok: "ring_ok r"
    and ue: "used_elements r ! unat (masked r (ucast (used_tail r))) = ue"
    and i: "unat (ue_id ue) < config_size r"
    and p: "completions r ! unat (ue_id ue) = Pending k"
  shows "complete_entry r \<noteq> Some (Inl AssertFailed) \<and>
         complete_entry r \<noteq> Some (Inl PromiseAlreadySet)"
proof -
  let ?id = "unat (ue_id ue)"
  let ?r1 = "r\<lparr>used_tail := used_tail r + 1,
      completions := (completions r)[?id := Fulfilled (ucast (ue_len ue))]\<rparr>"
  have slot: "unat (masked r (ucast (used_tail r))) < length (used_elements r)"
    using masked_slot_bound[of r] ok by (simp add: ring_ok_def)
  have idc: "?id < length (completions r)" using ok i by (simp add: ring_ok_def)
  have ce: "complete_entry r =
      (case free_chain ?id ?r1 of None \<Rightarrow> None | Some (Inl e) \<Rightarrow> Some (Inl e)
       | Some (Inr r2) \<Rightarrow> Some (Inr (r2, (k, ucast (ue_len ue)))))"
    using slot idc ue p by (simp add: complete_entry_def Let_def set_value_def)
  show ?thesis
  proof (cases "free_chain ?id ?r1")
    case None
    then show ?thesis unfolding ce by simp
  next
    case (Some y)
    from free_chain_no_assert[OF Some] show ?thesis unfolding ce Some
      by (cases y) auto
  qed
qed

lemma complete_entry_out_of_bounds:
  assumes ok: "ring_ok r"
    and ue: "used_elements r ! unat (masked r (ucast (used_tail r))) = ue"
    and i: "config_size r \<le> unat (ue_id ue)"
  shows "complete_entry r = Some (Inl OutOfBounds)"
proof -
  have slot: "unat (masked r (ucast (used_tail r))) < length (used_elements r)"
    using masked_slot_bound[of r] ok by (simp add: ring_ok_def)
  have "length (completions r) \<le> unat (ue_id ue)" using ok i by (simp add: ring_ok_def)
  then show ?thesis using slot ue by (simp add: complete_entry_def Let_def)
qed

lemma complete_entry_fulfilled:
  assumes ok: "ring_ok r"
    and ue: "used_elements r ! unat (masked r (ucast (used_tail r))) = ue"
    and i: "unat (ue_id ue) < config_size r"
    and p: "completions r ! unat (ue_id ue) = Fulfilled v"
  shows "complete_entry r = Some (Inl PromiseAlreadySet)"
proof -
  have slot: "unat (masked r (ucast (used_tail r))) < length (used_elements r)"
    using masked_slot_bound[of r] ok by (simp add: ring_ok_def)
  have "unat (ue_id ue) < length (completions r)" using ok i by (simp add: ring_ok_def)
  then show ?thesis using slot ue p by (simp add: complete_entry_def Let_def set_value_def)
qed

lemma complete_one_unchecked:
  assumes ok: "ring_ok r"
    and ue: "used_elements r ! unat (masked r (ucast (used_tail r))) = ue"
    and one: "used_idx r = used_tail r + 1"
    and p: "completions r ! unat (ue_id ue) = Pending k"
    and ch: "chain_from (descs r) c" "hd c = unat (ue_id ue)"
  shows "\<exists>r'. complete r = Some (Inr (r', [(k, ucast (ue_len ue))])) \<and>
     completions r' = (completions r)[unat (ue_id ue) := Fulfilled (ucast (ue_len ue))] \<and>
     available_descriptors r' = (signal ^^ length c) (available_descriptors r) \<and>
     used_tail r' = used_idx r \<and> used_idx r' = used_idx r \<and>
     r'\<lparr>descs := descs r, free_desc_head := free_desc_head r,
        available_descriptors := available_descriptors r, completions := completions r,
        used_tail := used_tail r\<rparr> = r"
proof -
  from complete_entry_unchecked[OF ok ue p ch] obtain r' where R:
    "complete_entry r = Some (Inr (r', (k, ucast (ue_len ue))))"
    "completions r' = (completions r)[unat (ue_id ue) := Fulfilled (ucast (ue_len ue))]"
    "available_descriptors r' = (signal ^^ length c) (available_descriptors r)"
    "used_tail r' = used_tail r + 1" "used_idx r' = used_idx r"
    "r'\<lparr>descs := descs r, free_desc_head := free_desc_head r,
        available_descriptors := available_descriptors r, completions := completions r,
        used_tail := used_tail r\<rparr> = r"
    by blast
  have ne: "used_idx r \<noteq> used_tail r" using one by simp
  have "complete r = complete_loop (used_idx r) r' [(k, ucast (ue_len ue))]"
    unfolding complete_def using ne R(1) by (subst complete_loop.simps) simp
  also have "\<dots> = Some (Inr (r', [(k, ucast (ue_len ue))]))"
    using one R(4) by (subst complete_loop.simps) simp
  finally show ?thesis using R one by auto
qed

text \<open>
  C9, as the code has it. complete() has no assertion of its own and checks neither the id
  nor the len of a used entry. Under the precondition that the entries it reads name the
  heads of distinct chains in flight, disjoint from the free list, with pending promises in
  their slots, it returns: no access outside an array and no second set_value on a promise
  is reached, whatever len the entries carry, and each promise is fulfilled with the len of
  its entry as it is. Without the precondition, what happens to the entry at the reap
  position depends on its id and on the promise in the slot of that id only:
  an id that is not below the ring size is an access outside the completion table;
  an id whose slot holds an already fulfilled promise stops in the second set_value, the
  single-shot check of the promise;
  an id whose slot holds a pending promise reaches no assertion, and if the walk from id
  along next while HAS_NEXT is set ends inside the table, the entry is processed: the promise
  is fulfilled with the len of the entry, whatever it is, and every descriptor of the walk
  is pushed on the free list with one signal of the semaphore each, whether or not the
  descriptors were submitted or are on the free list already.
\<close>

theorem complete_does_not_validate:
  assumes "ring_ok r"
    and "used_elements r ! unat (masked r (ucast (used_tail r))) = ue"
  shows "(\<forall>es fl cs.
        pending_used r (used_tail r) es \<and>
        free_list_from (descs r) (free_desc_head r) fl \<and>
        (\<forall>c\<in>set cs. chain_from (descs r) c) \<and> distinct (fl @ concat cs) \<and>
        distinct (map (\<lambda>e. unat (ue_id e)) es) \<and>
        (\<forall>e\<in>set es. \<exists>c\<in>set cs. hd c = unat (ue_id e)) \<and>
        (\<forall>e\<in>set es. \<exists>k. completions r ! unat (ue_id e) = Pending k)
      \<longrightarrow> (\<exists>r'. complete r =
             Some (Inr (r', map (\<lambda>e. (continuation_of (completions r ! unat (ue_id e)),
                                       ucast (ue_len e))) es)) \<and>
           ring_ok r' \<and> used_tail r' = used_idx r)) \<and>
     (config_size r \<le> unat (ue_id ue) \<longrightarrow> complete_entry r = Some (Inl OutOfBounds)) \<and>
     (\<forall>v. unat (ue_id ue) < config_size r \<and> completions r ! unat (ue_id ue) = Fulfilled v
      \<longrightarrow> complete_entry r = Some (Inl PromiseAlreadySet)) \<and>
     (\<forall>k. unat (ue_id ue) < config_size r \<and> completions r ! unat (ue_id ue) = Pending k
      \<longrightarrow> complete_entry r \<noteq> Some (Inl AssertFailed) \<and>
          complete_entry r \<noteq> Some (Inl PromiseAlreadySet) \<and>
          (\<forall>c. chain_from (descs r) c \<and> hd c = unat (ue_id ue)
           \<longrightarrow> (\<exists>r'. complete_entry r = Some (Inr (r', (k, ucast (ue_len ue)))) \<and>
                 completions r' = (completions r)[unat (ue_id ue) := Fulfilled (ucast (ue_len ue))] \<and>
                 available_descriptors r' = (signal ^^ length c) (available_descriptors r) \<and>
                 free_desc_head r' = int (last c) \<and>
                 used_tail r' = used_tail r + 1)))"
proof (intro conjI allI impI)
  fix es fl cs
  assume h: "pending_used r (used_tail r) es \<and>
        free_list_from (descs r) (free_desc_head r) fl \<and>
        (\<forall>c\<in>set cs. chain_from (descs r) c) \<and> distinct (fl @ concat cs) \<and>
        distinct (map (\<lambda>e. unat (ue_id e)) es) \<and>
        (\<forall>e\<in>set es. \<exists>c\<in>set cs. hd c = unat (ue_id e)) \<and>
        (\<forall>e\<in>set es. \<exists>k. completions r ! unat (ue_id e) = Pending k)"
  then have p: "pending_used r (used_tail r) es"
    "free_list_from (descs r) (free_desc_head r) fl"
    "\<forall>c\<in>set cs. chain_from (descs r) c" "distinct (fl @ concat cs)"
    "distinct (map (\<lambda>e. unat (ue_id e)) es)"
    "\<forall>e\<in>set es. \<exists>c\<in>set cs. hd c = unat (ue_id e)"
    "\<forall>e\<in>set es. \<exists>k. completions r ! unat (ue_id e) = Pending k"
    by blast+
  from complete_loop_ok[OF assms(1) p, of "[]"] obtain r' where
    "complete_loop (used_idx r) r [] =
       Some (Inr (r', [] @ map (\<lambda>e. (continuation_of (completions r ! unat (ue_id e)),
                                          ucast (ue_len e))) es))"
    "ring_ok r'" "used_tail r' = used_idx r"
    by blast
  then show "\<exists>r'. complete r =
             Some (Inr (r', map (\<lambda>e. (continuation_of (completions r ! unat (ue_id e)),
                                       ucast (ue_len e))) es)) \<and>
           ring_ok r' \<and> used_tail r' = used_idx r"
    by (intro exI[of _ r']) (simp add: complete_def)
next
  assume "config_size r \<le> unat (ue_id ue)"
  then show "complete_entry r = Some (Inl OutOfBounds)"
    by (rule complete_entry_out_of_bounds[OF assms])
next
  fix v
  assume "unat (ue_id ue) < config_size r \<and> completions r ! unat (ue_id ue) = Fulfilled v"
  then show "complete_entry r = Some (Inl PromiseAlreadySet)"
    using complete_entry_fulfilled[OF assms] by blast
next
  fix k
  assume h: "unat (ue_id ue) < config_size r \<and> completions r ! unat (ue_id ue) = Pending k"
  then show "complete_entry r \<noteq> Some (Inl AssertFailed)"
    using complete_entry_no_assert[OF assms] by blast
  from h show "complete_entry r \<noteq> Some (Inl PromiseAlreadySet)"
    using complete_entry_no_assert[OF assms] by blast
  fix c
  assume "chain_from (descs r) c \<and> hd c = unat (ue_id ue)"
  then have c: "chain_from (descs r) c" "hd c = unat (ue_id ue)" by simp_all
  from h have p: "completions r ! unat (ue_id ue) = Pending k" by simp
  from complete_entry_unchecked[OF assms p c]
  show "\<exists>r'. complete_entry r = Some (Inr (r', (k, ucast (ue_len ue)))) \<and>
                 completions r' = (completions r)[unat (ue_id ue) := Fulfilled (ucast (ue_len ue))] \<and>
                 available_descriptors r' = (signal ^^ length c) (available_descriptors r) \<and>
                 free_desc_head r' = int (last c) \<and>
                 used_tail r' = used_tail r + 1"
    by blast
qed

theorem complete_does_not_validate_witness:
  "ring_ok ring4_rx \<and>
   (\<exists>r'. complete ring4_rx = Some (Inr (r', [(DeliverRx 0x10000, 74)])) \<and> used_tail r' = 1 \<and>
         complete_entry (host_use \<lparr>ue_id = 3, ue_len = 74\<rparr> r') = Some (Inl PromiseAlreadySet)) \<and>
   (\<exists>r'. complete_entry ring4_rx = Some (Inr (r', (DeliverRx 0x10000, 74))) \<and>
         completions r' ! 3 = Fulfilled 74 \<and>
         available_descriptors r' = \<lparr>sem_count = 0, wait_list = [], resumed = [1]\<rparr> \<and>
         free_desc_head r' = 3) \<and>
   complete_entry ring4_rx_oob = Some (Inl OutOfBounds)"
proof -
  let ?ue = "\<lparr>ue_id = 3, ue_len = 74\<rparr> :: used_elem"
  let ?uo = "\<lparr>ue_id = 4, ue_len = 74\<rparr> :: used_elem"
  let ?cs = "[[3], [2], [1], [0::nat]]"
  have ok: "ring_ok ring4_rx" by (simp add: ring_ok_def ring4_rx_def)
  have sl: "used_elements ring4_rx ! unat (masked ring4_rx (ucast (used_tail ring4_rx))) = ?ue"
    by (simp add: ring4_rx_def masked_def mask_ring_def)
  note T = complete_does_not_validate[OF ok sl]
  have c3: "completions ring4_rx ! unat (ue_id ?ue) = Pending (DeliverRx 0x10000)"
    by (simp add: ring4_rx_def rx_new_buf_def)
  have h1: "pending_used ring4_rx (used_tail ring4_rx) [?ue]"
    by (simp add: ring4_rx_def masked_def mask_ring_def)
  have h2: "free_list_from (descs ring4_rx) (free_desc_head ring4_rx) []"
    by (simp add: ring4_rx_def)
  have h3: "\<forall>c\<in>set ?cs. chain_from (descs ring4_rx) c"
    by (simp add: ring4_rx_def rx_desc_def)
  have h4: "distinct ([] @ concat ?cs)" by simp
  have h5: "distinct (map (\<lambda>e. unat (ue_id e)) [?ue])" by simp
  have h6: "\<forall>e\<in>set [?ue]. \<exists>c\<in>set ?cs. hd c = unat (ue_id e)" by simp
  have h7: "\<forall>e\<in>set [?ue]. \<exists>k. completions ring4_rx ! unat (ue_id e) = Pending k"
    using c3 by simp
  have hA: "pending_used ring4_rx (used_tail ring4_rx) [?ue] \<and>
        free_list_from (descs ring4_rx) (free_desc_head ring4_rx) [] \<and>
        (\<forall>c\<in>set ?cs. chain_from (descs ring4_rx) c) \<and> distinct ([] @ concat ?cs) \<and>
        distinct (map (\<lambda>e. unat (ue_id e)) [?ue]) \<and>
        (\<forall>e\<in>set [?ue]. \<exists>c\<in>set ?cs. hd c = unat (ue_id e)) \<and>
        (\<forall>e\<in>set [?ue]. \<exists>k. completions ring4_rx ! unat (ue_id e) = Pending k)"
    by (intro conjI h1 h2 h3 h4 h5 h6 h7)
  from T[THEN conjunct1, rule_format, OF hA] obtain r' where A:
    "complete ring4_rx = Some (Inr (r', map (\<lambda>e. (continuation_of (completions ring4_rx ! unat (ue_id e)),
                                       ucast (ue_len e))) [?ue]))"
    "ring_ok r'" "used_tail r' = used_idx ring4_rx"
    by blast
  have A1: "complete ring4_rx = Some (Inr (r', [(DeliverRx 0x10000, 74)]))"
    using A(1) c3 by (simp add: continuation_of_def)
  have A2: "used_tail r' = 1" using A(3) by (simp add: ring4_rx_def)
  txt \<open>the ring after this reap, with the same entry written once more by the host\<close>
  have one: "used_idx ring4_rx = used_tail ring4_rx + 1" by (simp add: ring4_rx_def)
  have ch3: "chain_from (descs ring4_rx) [3]" "hd [3] = unat (ue_id ?ue)"
    by (simp_all add: ring4_rx_def rx_desc_def)
  from complete_one_unchecked[OF ok sl one c3 ch3] obtain r1 where R1:
    "complete ring4_rx = Some (Inr (r1, [(DeliverRx 0x10000, ucast (ue_len ?ue))]))"
    "completions r1 = (completions ring4_rx)[unat (ue_id ?ue) := Fulfilled (ucast (ue_len ?ue))]"
    "used_idx r1 = used_idx ring4_rx"
    "r1\<lparr>descs := descs ring4_rx, free_desc_head := free_desc_head ring4_rx,
        available_descriptors := available_descriptors ring4_rx, completions := completions ring4_rx,
        used_tail := used_tail ring4_rx\<rparr> = ring4_rx"
    by blast
  have e1: "r1 = r'" using R1(1) A1 by simp
  have cf: "config_size r' = 4" "used_elements r' = used_elements ring4_rx"
    using arg_cong[OF R1(4), of config_size] arg_cong[OF R1(4), of used_elements]
    unfolding e1 by (simp_all add: ring4_rx_def)
  have ui: "used_idx r' = 1" using R1(3) unfolding e1 by (simp add: ring4_rx_def)
  have cp: "completions r' ! 3 = Fulfilled 74" using R1(2) unfolding e1 by (simp add: ring4_rx_def)
  let ?rd = "host_use ?ue r'"
  have okd: "ring_ok ?rd" using A(2) by (simp add: ring_ok_def host_use_def)
  have sld: "used_elements ?rd ! unat (masked ?rd (ucast (used_tail ?rd))) = ?ue"
    using cf ui A2 by (simp add: host_use_def masked_def mask_ring_def ring4_rx_def)
  have hD: "unat (ue_id ?ue) < config_size ?rd \<and> completions ?rd ! unat (ue_id ?ue) = Fulfilled 74"
    using cf cp by (simp add: host_use_def)
  have D: "complete_entry ?rd = Some (Inl PromiseAlreadySet)"
    using complete_does_not_validate[OF okd sld, THEN conjunct2, THEN conjunct2, THEN conjunct1,
        rule_format, OF hD] .
  have P1: "\<exists>r'. complete ring4_rx = Some (Inr (r', [(DeliverRx 0x10000, 74)])) \<and> used_tail r' = 1 \<and>
         complete_entry (host_use ?ue r') = Some (Inl PromiseAlreadySet)"
    using A1 A2 D by (intro exI[of _ r'] conjI)
  txt \<open>the entry of the ring as it is: nothing is asked of its len or of the free list\<close>
  have hB: "unat (ue_id ?ue) < config_size ring4_rx \<and>
      completions ring4_rx ! unat (ue_id ?ue) = Pending (DeliverRx 0x10000)"
    using c3 by (simp add: ring4_rx_def)
  have hC: "chain_from (descs ring4_rx) [3] \<and> hd [3] = unat (ue_id ?ue)"
    using ch3 by simp
  from T[THEN conjunct2, THEN conjunct2, THEN conjunct2, rule_format, OF hB,
      THEN conjunct2, THEN conjunct2, rule_format, OF hC]
  obtain r2 where B:
    "complete_entry ring4_rx = Some (Inr (r2, (DeliverRx 0x10000, ucast (ue_len ?ue))))"
    "completions r2 = (completions ring4_rx)[unat (ue_id ?ue) := Fulfilled (ucast (ue_len ?ue))]"
    "available_descriptors r2 = (signal ^^ length [3::nat]) (available_descriptors ring4_rx)"
    "free_desc_head r2 = int (last [3])"
    by blast
  have B1: "complete_entry ring4_rx = Some (Inr (r2, (DeliverRx 0x10000, 74)))" using B(1) by simp
  have B2: "completions r2 ! 3 = Fulfilled 74" using B(2) by (simp add: ring4_rx_def)
  have B3: "available_descriptors r2 = \<lparr>sem_count = 0, wait_list = [], resumed = [1]\<rparr>"
    using B(3) by (simp add: ring4_rx_def signal_def)
  have B4: "free_desc_head r2 = 3" using B(4) by simp
  have P2: "\<exists>r'. complete_entry ring4_rx = Some (Inr (r', (DeliverRx 0x10000, 74))) \<and>
         completions r' ! 3 = Fulfilled 74 \<and>
         available_descriptors r' = \<lparr>sem_count = 0, wait_list = [], resumed = [1]\<rparr> \<and>
         free_desc_head r' = 3"
    using B1 B2 B3 B4 by (intro exI[of _ r2] conjI)
  txt \<open>an id that is no index of the table\<close>
  have oko: "ring_ok ring4_rx_oob" by (simp add: ring_ok_def ring4_rx_oob_def ring4_rx_def)
  have slo: "used_elements ring4_rx_oob ! unat (masked ring4_rx_oob (ucast (used_tail ring4_rx_oob))) = ?uo"
    by (simp add: ring4_rx_oob_def ring4_rx_def masked_def mask_ring_def)
  have hO: "config_size ring4_rx_oob \<le> unat (ue_id ?uo)"
    by (simp add: ring4_rx_oob_def ring4_rx_def)
  have P3: "complete_entry ring4_rx_oob = Some (Inl OutOfBounds)"
    using complete_does_not_validate[OF oko slo, THEN conjunct2, THEN conjunct1, rule_format, OF hO] .
  show ?thesis by (intro conjI ok P1 P2 P3)
qed

text \<open>Two malformed entries that complete() processes without stopping: a length of 5000
  for a chain of one 4096-byte buffer, fulfilled as 5000; and the id of a descriptor that
  is on the free list of a ring with nothing in flight, after which the semaphore counts 5
  on a ring of 4.\<close>

theorem complete_accepts_malformed_entries_counterexample:
  "desc_len (descs ring4_rx_long ! 3) = 4096 \<and>
   map_option (map_sum (\<lambda>e. e) snd) (complete ring4_rx_long) =
     Some (Inr [(DeliverRx 0x10000, 5000)]) \<and>
   free_list_from (descs ring4_stale) (free_desc_head ring4_stale) [3, 2, 1, 0] \<and>
   map_option (map_sum (\<lambda>e. e) (\<lambda>x. (sem_count (available_descriptors (fst x)), snd x)))
       (complete ring4_stale) =
     Some (Inr (5, [(NoContinuation, 0)]))"
proof -
  let ?u1 = "\<lparr>ue_id = 3, ue_len = 5000\<rparr> :: used_elem"
  let ?u2 = "\<lparr>ue_id = 0, ue_len = 0\<rparr> :: used_elem"
  have a: "desc_len (descs ring4_rx_long ! 3) = 4096"
    by (simp add: ring4_rx_long_def ring4_rx_def rx_desc_def)
  have ok1: "ring_ok ring4_rx_long" by (simp add: ring_ok_def ring4_rx_long_def ring4_rx_def)
  have s1: "used_elements ring4_rx_long ! unat (masked ring4_rx_long (ucast (used_tail ring4_rx_long)))
              = ?u1"
    by (simp add: ring4_rx_long_def ring4_rx_def masked_def mask_ring_def)
  have o1: "used_idx ring4_rx_long = used_tail ring4_rx_long + 1"
    by (simp add: ring4_rx_long_def ring4_rx_def)
  have p1: "completions ring4_rx_long ! unat (ue_id ?u1) = Pending (DeliverRx 0x10000)"
    by (simp add: ring4_rx_long_def ring4_rx_def rx_new_buf_def)
  have n1: "chain_from (descs ring4_rx_long) [3]" "hd [3] = unat (ue_id ?u1)"
    by (simp_all add: ring4_rx_long_def ring4_rx_def rx_desc_def)
  from complete_one_unchecked[OF ok1 s1 o1 p1 n1] obtain r1 where
    "complete ring4_rx_long = Some (Inr (r1, [(DeliverRx 0x10000, ucast (ue_len ?u1))]))"
    by blast
  then have b: "map_option (map_sum (\<lambda>e. e) snd) (complete ring4_rx_long) =
     Some (Inr [(DeliverRx 0x10000, 5000)])"
    by simp
  have c: "free_list_from (descs ring4_stale) (free_desc_head ring4_stale) [3, 2, 1, 0]"
    by (simp add: ring4_stale_def ring4_def zero_desc_def)
  have ok2: "ring_ok ring4_stale" by (simp add: ring_ok_def ring4_stale_def ring4_def)
  have s2: "used_elements ring4_stale ! unat (masked ring4_stale (ucast (used_tail ring4_stale))) = ?u2"
    by (simp add: ring4_stale_def ring4_def masked_def mask_ring_def)
  have o2: "used_idx ring4_stale = used_tail ring4_stale + 1"
    by (simp add: ring4_stale_def ring4_def)
  have p2: "completions ring4_stale ! unat (ue_id ?u2) = Pending NoContinuation"
    by (simp add: ring4_stale_def ring4_def)
  have n2: "chain_from (descs ring4_stale) [0]" "hd [0] = unat (ue_id ?u2)"
    by (simp_all add: ring4_stale_def ring4_def zero_desc_def)
  from complete_one_unchecked[OF ok2 s2 o2 p2 n2] obtain r2 where R2:
    "complete ring4_stale = Some (Inr (r2, [(NoContinuation, ucast (ue_len ?u2))]))"
    "available_descriptors r2 = (signal ^^ length [0::nat]) (available_descriptors ring4_stale)"
    by blast
  have "sem_count (available_descriptors r2) = 5"
    using R2(2) by (simp add: ring4_stale_def ring4_def new_semaphore_def signal_def)
  then have d: "map_option (map_sum (\<lambda>e. e) (\<lambda>x. (sem_count (available_descriptors (fst x)), snd x)))
        (complete ring4_stale) = Some (Inr (5, [(NoContinuation, 0)]))"
    using R2(1) by simp
  show ?thesis by (intro conjI a b c d)
qed

subsection \<open>The RX producer and the delivery of received packets\<close>

lemma prepare_buffers_cont_ok:
  assumes "wait_list (available_descriptors (rx_ring q)) = []"
    and "sem_count (available_descriptors (rx_ring q)) + 1 < 2 ^ 32"
  shows "prepare_buffers_cont new_buf q =
     (map (\<lambda>i. [rx_buffer (new_buf i)]) [0 ..< sem_count (available_descriptors (rx_ring q)) + 1],
      q\<lparr>rx_ring := (rx_ring q)\<lparr>available_descriptors :=
             (available_descriptors (rx_ring q))\<lparr>sem_count := 0\<rparr>\<rparr>\<rparr>)"
proof -
  let ?s = "available_descriptors (rx_ring q)"
  have t: "try_wait (current ?s) ?s = Some (?s\<lparr>sem_count := 0\<rparr>)"
    using assms(1) by (simp add: try_wait_def current_def)
  have m: "(1 + sem_count ?s) mod 2 ^ 32 = sem_count ?s + 1" using assms(2) by simp
  show ?thesis
    unfolding prepare_buffers_cont_def Let_def t
    using m by (simp add: current_def)
qed

lemma prepare_buffers_cont_shape:
  assumes "prepare_buffers_cont new_buf q = (vbc, q')"
  shows "\<forall>bc\<in>set vbc. \<exists>buf. bc = [rx_buffer buf]"
  using assms by (auto simp: prepare_buffers_cont_def Let_def split: option.splits)

lemma prepare_buffers_ready:
  assumes "wait_list (available_descriptors (rx_ring q)) = []"
    and "0 < sem_count (available_descriptors (rx_ring q))"
    and "sem_count (available_descriptors (rx_ring q)) < 2 ^ 32"
  shows "prepare_buffers new_buf q =
     (Some (map (\<lambda>i. [rx_buffer (new_buf i)]) [0 ..< sem_count (available_descriptors (rx_ring q))]),
      q\<lparr>rx_ring := (rx_ring q)\<lparr>available_descriptors :=
             (available_descriptors (rx_ring q))\<lparr>sem_count := 0\<rparr>\<rparr>\<rparr>)"
proof -
  let ?s = "available_descriptors (rx_ring q)"
  let ?s1 = "?s\<lparr>sem_count := sem_count ?s - 1\<rparr>"
  let ?q1 = "q\<lparr>rx_ring := (rx_ring q)\<lparr>available_descriptors := ?s1\<rparr>\<rparr>"
  have w: "wait_available 1 (rx_ring q) = (True, (rx_ring q)\<lparr>available_descriptors := ?s1\<rparr>)"
    using assms(1,2) by (simp add: wait_available_def wait_def)
  have a: "wait_list (available_descriptors (rx_ring ?q1)) = []"
    "sem_count (available_descriptors (rx_ring ?q1)) + 1 < 2 ^ 32"
    using assms by simp_all
  have c: "prepare_buffers_cont new_buf ?q1 =
     (map (\<lambda>i. [rx_buffer (new_buf i)]) [0 ..< sem_count ?s],
      q\<lparr>rx_ring := (rx_ring q)\<lparr>available_descriptors := ?s\<lparr>sem_count := 0\<rparr>\<rparr>\<rparr>)"
    unfolding prepare_buffers_cont_ok[OF a] using assms(2) by simp
  show ?thesis unfolding prepare_buffers_def w using c by simp
qed

lemma prepare_buffers_suspends:
  assumes "\<not> (wait_list (available_descriptors (rx_ring q)) = [] \<and>
              0 < sem_count (available_descriptors (rx_ring q)))"
  shows "prepare_buffers new_buf q =
     (None, q\<lparr>rx_ring := (rx_ring q)\<lparr>available_descriptors :=
             (available_descriptors (rx_ring q))
               \<lparr>wait_list := wait_list (available_descriptors (rx_ring q)) @ [1]\<rparr>\<rparr>\<rparr>)"
proof -
  let ?s = "available_descriptors (rx_ring q)"
  have "wait 1 ?s = (False, ?s\<lparr>wait_list := wait_list ?s @ [1]\<rparr>)"
    using assms by (auto simp: wait_def)
  then have "wait_available 1 (rx_ring q) =
      (False, (rx_ring q)\<lparr>available_descriptors := ?s\<lparr>wait_list := wait_list ?s @ [1]\<rparr>\<rparr>)"
    by (simp add: wait_available_def)
  then show ?thesis by (simp add: prepare_buffers_def)
qed

lemma prepare_buffers_resumed_ok:
  assumes "resumed (available_descriptors (rx_ring q)) = nr # rs"
    and "wait_list (available_descriptors (rx_ring q)) = []"
    and "sem_count (available_descriptors (rx_ring q)) + 1 < 2 ^ 32"
  shows "prepare_buffers_resumed new_buf q =
     Some (map (\<lambda>i. [rx_buffer (new_buf i)]) [0 ..< sem_count (available_descriptors (rx_ring q)) + 1],
      q\<lparr>rx_ring := (rx_ring q)\<lparr>available_descriptors :=
             (available_descriptors (rx_ring q))\<lparr>sem_count := 0, resumed := rs\<rparr>\<rparr>\<rparr>)"
proof -
  let ?s = "available_descriptors (rx_ring q)"
  let ?q1 = "q\<lparr>rx_ring := (rx_ring q)\<lparr>available_descriptors := ?s\<lparr>resumed := rs\<rparr>\<rparr>\<rparr>"
  have r: "run_resumed ?s = Some (nr, ?s\<lparr>resumed := rs\<rparr>)"
    using assms(1) by (simp add: run_resumed_def)
  have a: "wait_list (available_descriptors (rx_ring ?q1)) = []"
    "sem_count (available_descriptors (rx_ring ?q1)) + 1 < 2 ^ 32"
    using assms by simp_all
  show ?thesis
    unfolding prepare_buffers_resumed_def r using prepare_buffers_cont_ok[OF a, of new_buf]
    by simp
qed

lemma prepare_buffers_shape:
  assumes "prepare_buffers new_buf q = (Some vbc, q') \<or>
           prepare_buffers_resumed new_buf q = Some (vbc, q')"
  shows "\<forall>bc\<in>set vbc. \<exists>buf. bc = [rx_buffer buf]"
proof -
  from assms have "\<exists>q0 q1. prepare_buffers_cont new_buf q0 = (vbc, q1)"
    by (auto simp: prepare_buffers_def prepare_buffers_resumed_def
        split: prod.splits if_splits option.splits)
  then show ?thesis using prepare_buffers_cont_shape by blast
qed

lemma free_list_length:
  assumes "free_list_from ds p fl" "distinct fl"
  shows "length fl \<le> length ds"
proof -
  have "set fl \<subseteq> {0 ..< length ds}" using free_list_from_bound[OF assms(1)] by auto
  then have "card (set fl) \<le> card {0 ..< length ds}" by (intro card_mono) simp_all
  then show ?thesis using assms(2) by (simp add: distinct_card)
qed

lemma rx_chains_step:
  assumes inv: "rx_chains r (a # fl) hbs"
  shows "\<exists>r1. submit_chain [rx_buffer b] r dr = Inr (r1, dr @ dropped (completions r ! a)) \<and>
     rx_chains r1 fl (hbs @ [(a, b)]) \<and>
     avail_head r1 = avail_head r + 1 \<and>
     r1\<lparr>descs := descs r, completions := completions r, free_desc_head := free_desc_head r,
        avail_ring := avail_ring r, avail_head := avail_head r\<rparr> = r"
proof -
  have I: "ring_ok r" "free_list_from (descs r) (free_desc_head r) (a # fl)"
    "distinct ((a # fl) @ map fst hbs)"
    "\<forall>(d, buf)\<in>set hbs. chain_from (descs r) [d] \<and>
         desc_paddr (descs r ! d) = buf \<and> desc_len (descs r ! d) = 4096 \<and>
         writeable_flag (desc_flags (descs r ! d)) \<and>
         completions r ! d = Pending (DeliverRx buf)"
    using inv by (simp_all add: rx_chains_def)
  have dfl: "distinct (a # fl)" using I(3) by simp
  have ne: "[rx_buffer b] \<noteq> []" "length [rx_buffer b] \<le> length (a # fl)" by simp_all
  from submit_chain_ok[OF I(1,2) dfl ne, of dr] obtain r1 where S:
    "submit_chain [rx_buffer b] r dr =
        Inr (r1, dr @ concat (map (\<lambda>a. dropped (completions r ! a)) (take (length [rx_buffer b]) (a # fl))))"
    "free_list_from (descs r1) (free_desc_head r1) (drop (length [rx_buffer b]) (a # fl))"
    "chain_from (descs r1) (rev (take (length [rx_buffer b]) (a # fl)))"
    "length (descs r1) = length (descs r)" "length (completions r1) = length (completions r)"
    "\<forall>j. j \<notin> set (take (length [rx_buffer b]) (a # fl)) \<longrightarrow>
          descs r1 ! j = descs r ! j \<and> completions r1 ! j = completions r ! j"
    "\<forall>i<length [rx_buffer b]. descs r1 ! (rev (take (length [rx_buffer b]) (a # fl)) ! i) =
            mk_desc ([rx_buffer b] ! i) (i < length [rx_buffer b] - 1)
              (if i = length [rx_buffer b] - 1 then 0
               else rev (take (length [rx_buffer b]) (a # fl)) ! (i + 1))
          \<and> completions r1 ! (rev (take (length [rx_buffer b]) (a # fl)) ! i) =
              completed ([rx_buffer b] ! i)"
    "avail_ring r1 = (avail_ring r)[unat (masked r (ucast (avail_head r))) :=
                        word_of_nat (hd (rev (take (length [rx_buffer b]) (a # fl))))]"
    "avail_head r1 = avail_head r + 1"
    "r1\<lparr>descs := descs r, completions := completions r, free_desc_head := free_desc_head r,
        avail_ring := avail_ring r, avail_head := avail_head r\<rparr> = r"
    by blast
  have s1: "submit_chain [rx_buffer b] r dr = Inr (r1, dr @ dropped (completions r ! a))"
    using S(1) by simp
  have fl1: "free_list_from (descs r1) (free_desc_head r1) fl" using S(2) by simp
  have ch1: "chain_from (descs r1) [a]" using S(3) by simp
  have same: "\<forall>j. j \<noteq> a \<longrightarrow> descs r1 ! j = descs r ! j \<and> completions r1 ! j = completions r ! j"
    using S(6) by simp
  have new: "descs r1 ! a = mk_desc (rx_buffer b) False 0"
    "completions r1 ! a = Pending (DeliverRx b)"
    using S(7)[rule_format, of 0] by (simp_all add: rx_buffer_def)
  have f: "config_size r1 = config_size r" "used_elements r1 = used_elements r"
    using arg_cong[OF S(10), of config_size] arg_cong[OF S(10), of used_elements] by simp_all
  have ok1: "ring_ok r1" using I(1) S(4,5,8) f by (simp add: ring_ok_def)
  have dist1: "distinct (fl @ map fst (hbs @ [(a, b)]))" using I(3) by auto
  have old: "\<forall>(d, buf)\<in>set hbs. chain_from (descs r1) [d] \<and>
         desc_paddr (descs r1 ! d) = buf \<and> desc_len (descs r1 ! d) = 4096 \<and>
         writeable_flag (desc_flags (descs r1 ! d)) \<and>
         completions r1 ! d = Pending (DeliverRx buf)"
  proof (intro ballI, clarify)
    fix d buf assume m: "(d, buf) \<in> set hbs"
    then have "d \<in> set (map fst hbs)" by force
    then have "d \<noteq> a" using I(3) by auto
    then have e: "descs r1 ! d = descs r ! d" "completions r1 ! d = completions r ! d"
      using same by simp_all
    from I(4) m have o: "chain_from (descs r) [d]" "desc_paddr (descs r ! d) = buf"
      "desc_len (descs r ! d) = 4096" "writeable_flag (desc_flags (descs r ! d))"
      "completions r ! d = Pending (DeliverRx buf)"
      by auto
    show "chain_from (descs r1) [d] \<and>
         desc_paddr (descs r1 ! d) = buf \<and> desc_len (descs r1 ! d) = 4096 \<and>
         writeable_flag (desc_flags (descs r1 ! d)) \<and>
         completions r1 ! d = Pending (DeliverRx buf)"
      using o e S(4) by simp
  qed
  have nw: "chain_from (descs r1) [a] \<and>
         desc_paddr (descs r1 ! a) = b \<and> desc_len (descs r1 ! a) = 4096 \<and>
         writeable_flag (desc_flags (descs r1 ! a)) \<and>
         completions r1 ! a = Pending (DeliverRx b)"
    using ch1 new by (simp add: mk_desc_def rx_buffer_def virt_to_phys_def)
  have "rx_chains r1 fl (hbs @ [(a, b)])"
    unfolding rx_chains_def using ok1 fl1 dist1 old nw by simp
  then show ?thesis using s1 S(9,10) by blast
qed

lemma rx_submit_chains:
  assumes "rx_chains r fl hbs" "length bs \<le> length fl"
  shows "\<exists>r' dr'. submit_chains (map (\<lambda>b. [rx_buffer b]) bs) r dr = Inr (r', dr') \<and>
     rx_chains r' (drop (length bs) fl) (hbs @ zip (take (length bs) fl) bs) \<and>
     r'\<lparr>descs := descs r, completions := completions r, free_desc_head := free_desc_head r,
        avail_ring := avail_ring r, avail_head := avail_head r\<rparr> = r"
  using assms
proof (induction bs arbitrary: r fl hbs dr)
  case Nil
  then show ?case by simp
next
  case (Cons b bs)
  then obtain a fl' where fl: "fl = a # fl'" by (cases fl) auto
  from rx_chains_step[OF Cons.prems(1)[unfolded fl], of b dr] obtain r1 where S:
    "submit_chain [rx_buffer b] r dr = Inr (r1, dr @ dropped (completions r ! a))"
    "rx_chains r1 fl' (hbs @ [(a, b)])"
    "r1\<lparr>descs := descs r, completions := completions r, free_desc_head := free_desc_head r,
        avail_ring := avail_ring r, avail_head := avail_head r\<rparr> = r"
    by blast
  have le: "length bs \<le> length fl'" using Cons.prems(2) fl by simp
  from Cons.IH[OF S(2) le, of "dr @ dropped (completions r ! a)"] obtain r' dr' where R:
    "submit_chains (map (\<lambda>b. [rx_buffer b]) bs) r1 (dr @ dropped (completions r ! a)) = Inr (r', dr')"
    "rx_chains r' (drop (length bs) fl') ((hbs @ [(a, b)]) @ zip (take (length bs) fl') bs)"
    "r'\<lparr>descs := descs r1, completions := completions r1, free_desc_head := free_desc_head r1,
        avail_ring := avail_ring r1, avail_head := avail_head r1\<rparr> = r1"
    by blast
  have a: "submit_chains (map (\<lambda>b. [rx_buffer b]) (b # bs)) r dr = Inr (r', dr')"
    using S(1) R(1) by simp
  have b: "rx_chains r' (drop (length (b # bs)) fl) (hbs @ zip (take (length (b # bs)) fl) (b # bs))"
    using R(2) fl by simp
  have c: "r'\<lparr>descs := descs r, completions := completions r, free_desc_head := free_desc_head r,
        avail_ring := avail_ring r, avail_head := avail_head r\<rparr> = r"
  proof -
    have "r'\<lparr>descs := descs r, completions := completions r, free_desc_head := free_desc_head r,
        avail_ring := avail_ring r, avail_head := avail_head r\<rparr>
      = (r'\<lparr>descs := descs r1, completions := completions r1, free_desc_head := free_desc_head r1,
        avail_ring := avail_ring r1, avail_head := avail_head r1\<rparr>)
          \<lparr>descs := descs r, completions := completions r, free_desc_head := free_desc_head r,
        avail_ring := avail_ring r, avail_head := avail_head r\<rparr>" by simp
    also have "\<dots> = r" unfolding R(3) by (rule S(3))
    finally show ?thesis .
  qed
  show ?case using a b c by blast
qed

lemma fold_drop_continuation_rx:
  "dev_rxq (fold drop_continuation dr d) = dev_rxq d \<and>
   rx_queue (fold drop_continuation dr d) = rx_queue d \<and>
   rx_queue_length (fold drop_continuation dr d) = rx_queue_length d \<and>
   header_len (fold drop_continuation dr d) = header_len d"
proof (induction dr arbitrary: d)
  case Nil
  then show ?case by simp
next
  case (Cons k dr)
  show ?case using Cons.IH[of "drop_continuation k d"] by (cases k) simp_all
qed

lemma rx_chains_cong:
  assumes "descs r1 = descs r" "completions r1 = completions r"
    "free_desc_head r1 = free_desc_head r" "config_size r1 = config_size r"
    "length (avail_ring r1) = length (avail_ring r)"
    "length (used_elements r1) = length (used_elements r)"
  shows "rx_chains r1 fl hbs = rx_chains r fl hbs"
  using assms by (simp add: rx_chains_def ring_ok_def)

lemma rx_publish_ok:
  assumes inv: "rx_chains (rx_ring q) fl hbs" and le: "length bs \<le> length fl"
  shows "\<exists>dev'. rx_publish (map (\<lambda>b. [rx_buffer b]) bs) q dev = Inr dev' \<and>
     rx_chains (rx_ring (dev_rxq dev')) (drop (length bs) fl) (hbs @ zip (take (length bs) fl) bs) \<and>
     rx_queue dev' = rx_queue dev \<and> rx_queue_length dev' = rx_queue_length dev \<and>
     header_len dev' = header_len dev \<and>
     available_descriptors (rx_ring (dev_rxq dev')) = available_descriptors (rx_ring q) \<and>
     used_idx (rx_ring (dev_rxq dev')) = used_idx (rx_ring q) \<and>
     used_tail (rx_ring (dev_rxq dev')) = used_tail (rx_ring q) \<and>
     used_elements (rx_ring (dev_rxq dev')) = used_elements (rx_ring q) \<and>
     config_size (rx_ring (dev_rxq dev')) = config_size (rx_ring q)"
proof -
  let ?r = "rx_ring q"
  from rx_submit_chains[OF inv le, of "[]"] obtain r' dr' where S:
    "submit_chains (map (\<lambda>b. [rx_buffer b]) bs) ?r [] = Inr (r', dr')"
    "rx_chains r' (drop (length bs) fl) (hbs @ zip (take (length bs) fl) bs)"
    "r'\<lparr>descs := descs ?r, completions := completions ?r, free_desc_head := free_desc_head ?r,
        avail_ring := avail_ring ?r, avail_head := avail_head ?r\<rparr> = ?r"
    by blast
  define r1 where "r1 = r'\<lparr>avail_idx := avail_head r', kicks := kicks r' + 1\<rparr>"
  define dev' where "dev' = fold drop_continuation dr' (dev\<lparr>dev_rxq := q\<lparr>rx_ring := r1\<rparr>\<rparr>)"
  have p: "publish (map (\<lambda>b. [rx_buffer b]) bs) ?r = Inr (r1, dr')"
    using S(1) by (simp add: publish_def r1_def)
  have rp: "rx_publish (map (\<lambda>b. [rx_buffer b]) bs) q dev = Inr dev'"
    using p by (simp add: rx_publish_def dev'_def)
  have d: "dev_rxq dev' = q\<lparr>rx_ring := r1\<rparr>" "rx_queue dev' = rx_queue dev"
    "rx_queue_length dev' = rx_queue_length dev" "header_len dev' = header_len dev"
    using fold_drop_continuation_rx[of dr' "dev\<lparr>dev_rxq := q\<lparr>rx_ring := r1\<rparr>\<rparr>"]
    unfolding dev'_def by simp_all
  have c1: "rx_chains r1 (drop (length bs) fl) (hbs @ zip (take (length bs) fl) bs)"
    using S(2) rx_chains_cong[of r1 r'] by (simp add: r1_def)
  have f: "available_descriptors r' = available_descriptors ?r" "used_idx r' = used_idx ?r"
    "used_tail r' = used_tail ?r" "used_elements r' = used_elements ?r"
    "config_size r' = config_size ?r"
    using arg_cong[OF S(3), of available_descriptors] arg_cong[OF S(3), of used_idx]
      arg_cong[OF S(3), of used_tail] arg_cong[OF S(3), of used_elements]
      arg_cong[OF S(3), of config_size]
    by simp_all
  show ?thesis
    using rp c1 d f by (intro exI[of _ dev']) (simp add: r1_def)
qed

lemma rx_batch_ok:
  assumes ch: "rx_chains (rx_ring q) fl hbs"
    and s: "available_descriptors (rx_ring q1) = s1" "units s1 = 0"
      "wait_list s1 = []" "resumed s1 = []"
    and q1: "q1 = q\<lparr>rx_ring := (rx_ring q)\<lparr>available_descriptors := s1\<rparr>\<rparr>"
  shows "\<exists>dev'. rx_publish (map (\<lambda>i. [rx_buffer (new_buf i)]) [0 ..< length fl]) q1 dev = Inr dev' \<and>
     rx_inv dev' [] (hbs @ zip fl (map new_buf [0 ..< length fl])) \<and>
     producer_state (available_descriptors (rx_ring (dev_rxq dev'))) None \<and>
     rx_queue dev' = rx_queue dev \<and> rx_queue_length dev' = rx_queue_length dev \<and>
     header_len dev' = header_len dev \<and>
     used_idx (rx_ring (dev_rxq dev')) = used_idx (rx_ring q) \<and>
     used_tail (rx_ring (dev_rxq dev')) = used_tail (rx_ring q) \<and>
     used_elements (rx_ring (dev_rxq dev')) = used_elements (rx_ring q) \<and>
     config_size (rx_ring (dev_rxq dev')) = config_size (rx_ring q)"
proof -
  let ?bs = "map new_buf [0 ..< length fl]"
  have m: "map (\<lambda>i. [rx_buffer (new_buf i)]) [0 ..< length fl] = map (\<lambda>b. [rx_buffer b]) ?bs"
    by (simp add: o_def)
  have c1: "rx_chains (rx_ring q1) fl hbs"
    using ch rx_chains_cong[of "rx_ring q1" "rx_ring q"] by (simp add: q1)
  have le: "length ?bs \<le> length fl" by simp
  from rx_publish_ok[OF c1 le, of dev] obtain dev' where P:
    "rx_publish (map (\<lambda>b. [rx_buffer b]) ?bs) q1 dev = Inr dev'"
    "rx_chains (rx_ring (dev_rxq dev')) (drop (length ?bs) fl) (hbs @ zip (take (length ?bs) fl) ?bs)"
    "rx_queue dev' = rx_queue dev" "rx_queue_length dev' = rx_queue_length dev"
    "header_len dev' = header_len dev"
    "available_descriptors (rx_ring (dev_rxq dev')) = available_descriptors (rx_ring q1)"
    "used_idx (rx_ring (dev_rxq dev')) = used_idx (rx_ring q1)"
    "used_tail (rx_ring (dev_rxq dev')) = used_tail (rx_ring q1)"
    "used_elements (rx_ring (dev_rxq dev')) = used_elements (rx_ring q1)"
    "config_size (rx_ring (dev_rxq dev')) = config_size (rx_ring q1)"
    by blast
  have c2: "rx_chains (rx_ring (dev_rxq dev')) [] (hbs @ zip fl ?bs)" using P(2) by simp
  have sem: "available_descriptors (rx_ring (dev_rxq dev')) = s1" using P(6) s(1) by simp
  have ps: "producer_state (available_descriptors (rx_ring (dev_rxq dev'))) None"
    unfolding sem using s(3,4) by (simp add: producer_state_def)
  have inv': "rx_inv dev' [] (hbs @ zip fl ?bs)"
    unfolding rx_inv_def using c2 ps sem s(2) by simp
  have f: "used_idx (rx_ring (dev_rxq dev')) = used_idx (rx_ring q)"
    "used_tail (rx_ring (dev_rxq dev')) = used_tail (rx_ring q)"
    "used_elements (rx_ring (dev_rxq dev')) = used_elements (rx_ring q)"
    "config_size (rx_ring (dev_rxq dev')) = config_size (rx_ring q)"
    using P(7,8,9,10) by (simp_all add: q1)
  show ?thesis using P(1,3,4,5) inv' ps f unfolding m by blast
qed

lemma rx_inv_units_bound:
  assumes "rx_inv dev fl hbs"
  shows "length fl \<le> 65535"
proof -
  have I: "ring_ok (rx_ring (dev_rxq dev))"
    "free_list_from (descs (rx_ring (dev_rxq dev))) (free_desc_head (rx_ring (dev_rxq dev))) fl"
    "distinct (fl @ map fst hbs)"
    using assms by (simp_all add: rx_inv_def rx_chains_def)
  have "distinct fl" using I(3) by simp
  from free_list_length[OF I(2) this] show ?thesis using I(1) by (simp add: ring_ok_def)
qed

lemma rx_submit_ok:
  assumes inv: "rx_inv dev fl hbs"
    and idle: "producer_state (available_descriptors (rx_ring (dev_rxq dev))) None"
    and ne: "fl \<noteq> []"
  shows "\<exists>dev'. prepare_buffers new_buf (dev_rxq dev) =
         (Some (map (\<lambda>i. [rx_buffer (new_buf i)]) [0 ..< length fl]),
          (dev_rxq dev)\<lparr>rx_ring := (rx_ring (dev_rxq dev))\<lparr>available_descriptors :=
             (available_descriptors (rx_ring (dev_rxq dev)))\<lparr>sem_count := 0\<rparr>\<rparr>\<rparr>) \<and>
     rx_submit new_buf dev = Inr (True, dev') \<and>
     rx_inv dev' [] (hbs @ zip fl (map new_buf [0 ..< length fl])) \<and>
     producer_state (available_descriptors (rx_ring (dev_rxq dev'))) None \<and>
     rx_queue dev' = rx_queue dev \<and> rx_queue_length dev' = rx_queue_length dev \<and>
     header_len dev' = header_len dev \<and>
     used_idx (rx_ring (dev_rxq dev')) = used_idx (rx_ring (dev_rxq dev)) \<and>
     used_tail (rx_ring (dev_rxq dev')) = used_tail (rx_ring (dev_rxq dev)) \<and>
     used_elements (rx_ring (dev_rxq dev')) = used_elements (rx_ring (dev_rxq dev)) \<and>
     config_size (rx_ring (dev_rxq dev')) = config_size (rx_ring (dev_rxq dev))"
proof -
  let ?q = "dev_rxq dev"
  let ?s = "available_descriptors (rx_ring ?q)"
  let ?s1 = "?s\<lparr>sem_count := 0\<rparr>"
  define q1 where "q1 = ?q\<lparr>rx_ring := (rx_ring ?q)\<lparr>available_descriptors := ?s1\<rparr>\<rparr>"
  have I: "rx_chains (rx_ring ?q) fl hbs" "units ?s = length fl"
    using inv by (simp_all add: rx_inv_def)
  have w: "wait_list ?s = []" "resumed ?s = []" using idle by (simp_all add: producer_state_def)
  have c: "sem_count ?s = length fl" using I(2) w(2) by (simp add: units_def)
  have pos: "0 < sem_count ?s" using c ne by simp
  have b: "sem_count ?s < 2 ^ 32" using rx_inv_units_bound[OF inv] c by simp
  have pb: "prepare_buffers new_buf ?q =
      (Some (map (\<lambda>i. [rx_buffer (new_buf i)]) [0 ..< length fl]), q1)"
    using prepare_buffers_ready[OF w(1) pos b, of new_buf] c by (simp add: q1_def)
  have s: "available_descriptors (rx_ring q1) = ?s1" "units ?s1 = 0" "wait_list ?s1 = []"
    "resumed ?s1 = []"
    using w by (simp_all add: q1_def units_def)
  from rx_batch_ok[OF I(1) s q1_def, of new_buf dev] obtain dev' where P:
    "rx_publish (map (\<lambda>i. [rx_buffer (new_buf i)]) [0 ..< length fl]) q1 dev = Inr dev'"
    "rx_inv dev' [] (hbs @ zip fl (map new_buf [0 ..< length fl]))"
    "producer_state (available_descriptors (rx_ring (dev_rxq dev'))) None"
    "rx_queue dev' = rx_queue dev" "rx_queue_length dev' = rx_queue_length dev"
    "header_len dev' = header_len dev"
    "used_idx (rx_ring (dev_rxq dev')) = used_idx (rx_ring ?q)"
    "used_tail (rx_ring (dev_rxq dev')) = used_tail (rx_ring ?q)"
    "used_elements (rx_ring (dev_rxq dev')) = used_elements (rx_ring ?q)"
    "config_size (rx_ring (dev_rxq dev')) = config_size (rx_ring ?q)"
    by blast
  have rs: "rx_submit new_buf dev = Inr (True, dev')"
    using pb P(1) by (simp add: rx_submit_def)
  show ?thesis using pb[unfolded q1_def] rs P(2-) by blast
qed

lemma rx_submit_suspends:
  assumes inv: "rx_inv dev [] hbs"
    and idle: "producer_state (available_descriptors (rx_ring (dev_rxq dev))) None"
  shows "rx_submit new_buf dev =
       Inr (False, dev\<lparr>dev_rxq := (dev_rxq dev)\<lparr>rx_ring := (rx_ring (dev_rxq dev))
              \<lparr>available_descriptors := (available_descriptors (rx_ring (dev_rxq dev)))
                  \<lparr>wait_list := [1]\<rparr>\<rparr>\<rparr>\<rparr>) \<and>
     rx_inv (dev\<lparr>dev_rxq := (dev_rxq dev)\<lparr>rx_ring := (rx_ring (dev_rxq dev))
              \<lparr>available_descriptors := (available_descriptors (rx_ring (dev_rxq dev)))
                  \<lparr>wait_list := [1]\<rparr>\<rparr>\<rparr>\<rparr>) [] hbs"
proof -
  let ?q = "dev_rxq dev"
  let ?s = "available_descriptors (rx_ring ?q)"
  have I: "rx_chains (rx_ring ?q) [] hbs" "units ?s = 0"
    using inv by (simp_all add: rx_inv_def)
  have w: "wait_list ?s = []" "resumed ?s = []" using idle by (simp_all add: producer_state_def)
  have c: "sem_count ?s = 0" using I(2) by (simp add: units_def)
  have n: "\<not> (wait_list ?s = [] \<and> 0 < sem_count ?s)" using c by simp
  have pb: "prepare_buffers new_buf ?q = (None, ?q\<lparr>rx_ring := (rx_ring ?q)
              \<lparr>available_descriptors := ?s\<lparr>wait_list := [1]\<rparr>\<rparr>\<rparr>)"
    using prepare_buffers_suspends[OF n, of new_buf] w(1) by simp
  have a: "rx_submit new_buf dev = Inr (False, dev\<lparr>dev_rxq := ?q\<lparr>rx_ring := (rx_ring ?q)
              \<lparr>available_descriptors := ?s\<lparr>wait_list := [1]\<rparr>\<rparr>\<rparr>\<rparr>)"
    using pb by (simp add: rx_submit_def)
  have c1: "rx_chains ((rx_ring ?q)\<lparr>available_descriptors := ?s\<lparr>wait_list := [1]\<rparr>\<rparr>) [] hbs"
    using I(1) rx_chains_cong[of "(rx_ring ?q)\<lparr>available_descriptors := ?s\<lparr>wait_list := [1]\<rparr>\<rparr>" "rx_ring ?q"]
    by simp
  have "producer_state (?s\<lparr>wait_list := [1]\<rparr>) (Some 1)"
    using w c by (simp add: producer_state_def)
  then have b: "rx_inv (dev\<lparr>dev_rxq := ?q\<lparr>rx_ring := (rx_ring ?q)
              \<lparr>available_descriptors := ?s\<lparr>wait_list := [1]\<rparr>\<rparr>\<rparr>\<rparr>) [] hbs"
    unfolding rx_inv_def using c1 I(2) by (simp add: units_def)
  show ?thesis using a b by (rule conjI)
qed

lemma rx_resume_ok:
  assumes inv: "rx_inv dev fl hbs"
    and res: "resumed (available_descriptors (rx_ring (dev_rxq dev))) = [1]"
  shows "\<exists>dev'. prepare_buffers_resumed new_buf (dev_rxq dev) =
         Some (map (\<lambda>i. [rx_buffer (new_buf i)]) [0 ..< length fl],
          (dev_rxq dev)\<lparr>rx_ring := (rx_ring (dev_rxq dev))\<lparr>available_descriptors :=
             (available_descriptors (rx_ring (dev_rxq dev)))\<lparr>sem_count := 0, resumed := []\<rparr>\<rparr>\<rparr>) \<and>
     rx_resume new_buf dev = Inr (Some dev') \<and>
     rx_inv dev' [] (hbs @ zip fl (map new_buf [0 ..< length fl])) \<and>
     producer_state (available_descriptors (rx_ring (dev_rxq dev'))) None \<and>
     rx_queue dev' = rx_queue dev \<and> rx_queue_length dev' = rx_queue_length dev \<and>
     header_len dev' = header_len dev \<and>
     used_idx (rx_ring (dev_rxq dev')) = used_idx (rx_ring (dev_rxq dev)) \<and>
     used_tail (rx_ring (dev_rxq dev')) = used_tail (rx_ring (dev_rxq dev)) \<and>
     used_elements (rx_ring (dev_rxq dev')) = used_elements (rx_ring (dev_rxq dev)) \<and>
     config_size (rx_ring (dev_rxq dev')) = config_size (rx_ring (dev_rxq dev))"
proof -
  let ?q = "dev_rxq dev"
  let ?s = "available_descriptors (rx_ring ?q)"
  let ?s1 = "?s\<lparr>sem_count := 0, resumed := []\<rparr>"
  define q1 where "q1 = ?q\<lparr>rx_ring := (rx_ring ?q)\<lparr>available_descriptors := ?s1\<rparr>\<rparr>"
  have I: "rx_chains (rx_ring ?q) fl hbs" "units ?s = length fl"
    "producer_state ?s None \<or> producer_state ?s (Some 1)"
    using inv by (simp_all add: rx_inv_def)
  have w: "wait_list ?s = []" using I(3) res by (auto simp: producer_state_def)
  have c: "sem_count ?s + 1 = length fl" using I(2) res by (simp add: units_def)
  have b: "sem_count ?s + 1 < 2 ^ 32" using rx_inv_units_bound[OF inv] c by simp
  have pb: "prepare_buffers_resumed new_buf ?q =
      Some (map (\<lambda>i. [rx_buffer (new_buf i)]) [0 ..< length fl], q1)"
    using prepare_buffers_resumed_ok[OF res w b, of new_buf, unfolded c] by (simp add: q1_def)
  have s: "available_descriptors (rx_ring q1) = ?s1" "units ?s1 = 0" "wait_list ?s1 = []"
    "resumed ?s1 = []"
    using w by (simp_all add: q1_def units_def)
  from rx_batch_ok[OF I(1) s q1_def, of new_buf dev] obtain dev' where P:
    "rx_publish (map (\<lambda>i. [rx_buffer (new_buf i)]) [0 ..< length fl]) q1 dev = Inr dev'"
    "rx_inv dev' [] (hbs @ zip fl (map new_buf [0 ..< length fl]))"
    "producer_state (available_descriptors (rx_ring (dev_rxq dev'))) None"
    "rx_queue dev' = rx_queue dev" "rx_queue_length dev' = rx_queue_length dev"
    "header_len dev' = header_len dev"
    "used_idx (rx_ring (dev_rxq dev')) = used_idx (rx_ring ?q)"
    "used_tail (rx_ring (dev_rxq dev')) = used_tail (rx_ring ?q)"
    "used_elements (rx_ring (dev_rxq dev')) = used_elements (rx_ring ?q)"
    "config_size (rx_ring (dev_rxq dev')) = config_size (rx_ring ?q)"
    by blast
  have rs: "rx_resume new_buf dev = Inr (Some dev')"
    using pb P(1) by (simp add: rx_resume_def)
  show ?thesis using pb[unfolded q1_def] rs P(2-) by blast
qed

lemma rx_entry_ok:
  assumes inv: "rx_chains r fl hbs" and m: "(d, buf) \<in> set hbs"
    and ue: "used_elements r ! unat (masked r (ucast (used_tail r))) = ue"
    and hd: "unat (ue_id ue) = d"
  shows "\<exists>r' hbs'. complete_entry r = Some (Inr (r', (DeliverRx buf, ucast (ue_len ue)))) \<and>
     rx_chains r' (d # fl) hbs' \<and>
     set hbs' = set hbs - {(d, buf)} \<and>
     available_descriptors r' = signal (available_descriptors r) \<and>
     used_idx r' = used_idx r \<and>
     used_tail r' = used_tail r + 1 \<and>
     used_elements r' = used_elements r \<and>
     config_size r' = config_size r"
proof -
  have I: "ring_ok r" "free_list_from (descs r) (free_desc_head r) fl"
    "distinct (fl @ map fst hbs)"
    "\<forall>(d, buf)\<in>set hbs. chain_from (descs r) [d] \<and>
         desc_paddr (descs r ! d) = buf \<and> desc_len (descs r ! d) = 4096 \<and>
         writeable_flag (desc_flags (descs r ! d)) \<and>
         completions r ! d = Pending (DeliverRx buf)"
    using inv by (simp_all add: rx_chains_def)
  have dm: "d \<in> set (map fst hbs)" using m by force
  have dh: "distinct (map fst hbs)" using I(3) by simp
  have D: "chain_from (descs r) [d]" "completions r ! d = Pending (DeliverRx buf)"
    using I(4) m by auto
  have h: "hd [d] = unat (ue_id ue)" "distinct [d]" using hd by simp_all
  have dj: "set [d] \<inter> set fl = {}" using I(3) dm by auto
  have pr: "completions r ! unat (ue_id ue) = Pending (DeliverRx buf)" using D(2) hd by simp
  from complete_entry_ok[OF I(1) ue D(1) h I(2) dj pr] obtain r' where R0:
    "complete_entry r = Some (Inr (r', (DeliverRx buf, ucast (ue_len ue))))"
    "completions r' = (completions r)[unat (ue_id ue) := Fulfilled (ucast (ue_len ue))]"
    "free_list_from (descs r') (free_desc_head r') (rev [d] @ fl)"
    "available_descriptors r' = (signal ^^ length [d]) (available_descriptors r)"
    "used_tail r' = used_tail r + 1"
    "length (descs r') = length (descs r)"
    "\<forall>j. j \<notin> set [d] \<longrightarrow> descs r' ! j = descs r ! j"
    "r'\<lparr>descs := descs r, free_desc_head := free_desc_head r,
        available_descriptors := available_descriptors r, completions := completions r,
        used_tail := used_tail r\<rparr> = r"
    by blast
  have fr: "used_idx r' = used_idx r" "used_elements r' = used_elements r"
    "config_size r' = config_size r" "avail_ring r' = avail_ring r"
    using arg_cong[OF R0(8), of used_idx] arg_cong[OF R0(8), of used_elements]
      arg_cong[OF R0(8), of config_size] arg_cong[OF R0(8), of avail_ring]
    by simp_all
  have ok': "ring_ok r'" using I(1) R0(2,6) fr by (simp add: ring_ok_def)
  let ?hbs = "filter (\<lambda>x. x \<noteq> (d, buf)) hbs"
  have notd: "d \<notin> set (map fst ?hbs)"
  proof
    assume "d \<in> set (map fst ?hbs)"
    then obtain x where x: "x \<in> set ?hbs" "fst x = d" by auto
    then have b': "(d, snd x) \<in> set hbs" "x \<noteq> (d, buf)" by auto
    from eq_key_imp_eq_value[OF dh b'(1) m] have "snd x = buf" .
    then have "x = (d, buf)" using x(2) by (cases x) simp
    then show False using b'(2) by simp
  qed
  have dist': "distinct ((d # fl) @ map fst ?hbs)"
    using I(3) dm notd by (auto simp: distinct_map_filter)
  have fl': "free_list_from (descs r') (free_desc_head r') (d # fl)" using R0(3) by simp
  have old: "\<forall>(d', b')\<in>set ?hbs. chain_from (descs r') [d'] \<and>
         desc_paddr (descs r' ! d') = b' \<and> desc_len (descs r' ! d') = 4096 \<and>
         writeable_flag (desc_flags (descs r' ! d')) \<and>
         completions r' ! d' = Pending (DeliverRx b')"
  proof (intro ballI, clarify)
    fix d' b' assume x: "(d', b') \<in> set ?hbs"
    then have mh: "(d', b') \<in> set hbs" by simp
    have "d' \<in> set (map fst ?hbs)" using x by force
    then have nd: "d' \<noteq> d" using notd by auto
    then have e: "descs r' ! d' = descs r ! d'" "completions r' ! d' = completions r ! d'"
      using R0(7) R0(2) hd by simp_all
    from I(4) mh have o: "chain_from (descs r) [d']" "desc_paddr (descs r ! d') = b'"
      "desc_len (descs r ! d') = 4096" "writeable_flag (desc_flags (descs r ! d'))"
      "completions r ! d' = Pending (DeliverRx b')"
      by auto
    show "chain_from (descs r') [d'] \<and>
         desc_paddr (descs r' ! d') = b' \<and> desc_len (descs r' ! d') = 4096 \<and>
         writeable_flag (desc_flags (descs r' ! d')) \<and>
         completions r' ! d' = Pending (DeliverRx b')"
      using o e R0(6) by simp
  qed
  have inv': "rx_chains r' (d # fl) ?hbs"
    unfolding rx_chains_def using ok' fl' dist' old by simp
  have st: "set ?hbs = set hbs - {(d, buf)}" by auto
  have sg: "available_descriptors r' = signal (available_descriptors r)" using R0(4) by simp
  show ?thesis using R0(1,5) inv' st sg fr(1,2,3) by blast
qed

lemma complete_loop_rx:
  assumes inv: "rx_chains r fl hbs"
    and pu: "pending_used r (used_tail r) es"
    and dbs: "distinct dbs" "set dbs \<subseteq> set hbs"
      "map (\<lambda>e. unat (ue_id e)) es = map fst dbs"
  shows "\<exists>r' hbs'.
     complete_loop (used_idx r) r fired =
       Some (Inr (r', fired @ map (\<lambda>(e, db). (DeliverRx (snd db), ucast (ue_len e))) (zip es dbs))) \<and>
     rx_chains r' (rev (map fst dbs) @ fl) hbs' \<and>
     set hbs' = set hbs - set dbs \<and>
     available_descriptors r' = (signal ^^ length es) (available_descriptors r) \<and>
     used_tail r' = used_idx r \<and> used_idx r' = used_idx r \<and>
     used_elements r' = used_elements r \<and> config_size r' = config_size r"
  using assms
proof (induction es arbitrary: r fl hbs dbs fired)
  case Nil
  have e: "dbs = []" using Nil.prems(5) by simp
  have t: "used_idx r = used_tail r" using Nil.prems(2) by simp
  then have "complete_loop (used_idx r) r fired = Some (Inr (r, fired @ []))"
    by (subst complete_loop.simps) simp
  then show ?case using Nil.prems(1) t unfolding e
    by (intro exI[of _ r] exI[of _ hbs]) simp
next
  case (Cons e es)
  obtain x dbs' where x: "dbs = x # dbs'" using Cons.prems(5) by (cases dbs) auto
  obtain d buf where db: "x = (d, buf)" by (cases x)
  have m: "(d, buf) \<in> set hbs" using Cons.prems(4) x db by simp
  have hd: "unat (ue_id e) = d" using Cons.prems(5) x db by simp
  have ne: "used_idx r \<noteq> used_tail r"
    and ue: "used_elements r ! unat (masked r (ucast (used_tail r))) = e"
    and pu': "pending_used r (used_tail r + 1) es"
    using Cons.prems(2) by simp_all
  from rx_entry_ok[OF Cons.prems(1) m ue hd] obtain r1 hbs1 where R1:
    "complete_entry r = Some (Inr (r1, (DeliverRx buf, ucast (ue_len e))))"
    "rx_chains r1 (d # fl) hbs1"
    "set hbs1 = set hbs - {(d, buf)}"
    "available_descriptors r1 = signal (available_descriptors r)"
    "used_idx r1 = used_idx r" "used_tail r1 = used_tail r + 1"
    "used_elements r1 = used_elements r" "config_size r1 = config_size r"
    by blast
  have step: "complete_loop (used_idx r) r fired =
              complete_loop (used_idx r1) r1 (fired @ [(DeliverRx buf, ucast (ue_len e))])"
    using ne R1(1,5) by (subst complete_loop.simps) simp
  have pu1: "pending_used r1 (used_tail r1) es"
    using pu' pending_used_cong[OF R1(5,7,8)] R1(6) by simp
  have e1: "distinct dbs'" "set dbs' \<subseteq> set hbs1"
    "map (\<lambda>e. unat (ue_id e)) es = map fst dbs'"
    using Cons.prems(3,4,5) R1(3) x db by auto
  from Cons.IH[OF R1(2) pu1 e1, of "fired @ [(DeliverRx buf, ucast (ue_len e))]"]
  obtain r' hbs' where R':
    "complete_loop (used_idx r1) r1 (fired @ [(DeliverRx buf, ucast (ue_len e))]) =
       Some (Inr (r', (fired @ [(DeliverRx buf, ucast (ue_len e))]) @
                      map (\<lambda>(e, db). (DeliverRx (snd db), ucast (ue_len e))) (zip es dbs')))"
    "rx_chains r' (rev (map fst dbs') @ d # fl) hbs'"
    "set hbs' = set hbs1 - set dbs'"
    "available_descriptors r' = (signal ^^ length es) (available_descriptors r1)"
    "used_tail r' = used_idx r1" "used_idx r' = used_idx r1"
    "used_elements r' = used_elements r1" "config_size r' = config_size r1"
    by blast
  have a: "complete_loop (used_idx r) r fired =
       Some (Inr (r', fired @ map (\<lambda>(e, db). (DeliverRx (snd db), ucast (ue_len e)))
                                   (zip (e # es) dbs)))"
    using step R'(1) x db by simp
  have c: "rx_chains r' (rev (map fst dbs) @ fl) hbs'"
    using R'(2) x db by simp
  have d: "set hbs' = set hbs - set dbs" using R'(3) R1(3) x db by auto
  have s: "available_descriptors r' = (signal ^^ length (e # es)) (available_descriptors r)"
    using R'(4) R1(4) by (simp add: funpow_swap1)
  have f: "used_tail r' = used_idx r" "used_idx r' = used_idx r"
    "used_elements r' = used_elements r" "config_size r' = config_size r"
    using R'(5,6,7,8) R1(5,7,8) by simp_all
  show ?case using a c d s f by blast
qed

lemma fold_deliver:
  "rx_queue (fold run_continuation (map (\<lambda>(e, db). (DeliverRx (snd db), n e)) xs) d) =
     rx_queue d @ map (\<lambda>(e, db). rx_packet (header_len d) (snd db) (n e)) xs \<and>
   rx_queue_length (fold run_continuation (map (\<lambda>(e, db). (DeliverRx (snd db), n e)) xs) d) =
     rx_queue_length d + length xs \<and>
   dev_rxq (fold run_continuation (map (\<lambda>(e, db). (DeliverRx (snd db), n e)) xs) d) = dev_rxq d \<and>
   header_len (fold run_continuation (map (\<lambda>(e, db). (DeliverRx (snd db), n e)) xs) d) =
     header_len d"
proof (induction xs arbitrary: d)
  case Nil
  then show ?case by simp
next
  case (Cons x xs)
  obtain e db where x: "x = (e, db)" by (cases x)
  let ?d1 = "queue_rx_packet (rx_packet (header_len d) (snd db) (n e)) d"
  have h: "header_len ?d1 = header_len d" "rx_queue ?d1 = rx_queue d @ [rx_packet (header_len d) (snd db) (n e)]"
    "rx_queue_length ?d1 = rx_queue_length d + 1" "dev_rxq ?d1 = dev_rxq d"
    by (simp_all add: queue_rx_packet_def)
  show ?case using Cons.IH[of ?d1] unfolding x h by (simp add: h)
qed

lemma rx_inv_ring:
  "dev_rxq d1 = dev_rxq d2 \<Longrightarrow> rx_inv d1 fl hbs = rx_inv d2 fl hbs"
  by (simp add: rx_inv_def)

lemma rx_complete_ok:
  assumes inv: "rx_inv dev fl hbs"
    and pu: "pending_used (rx_ring (dev_rxq dev)) (used_tail (rx_ring (dev_rxq dev))) es"
    and dbs: "distinct dbs" "set dbs \<subseteq> set hbs"
      "map (\<lambda>e. unat (ue_id e)) es = map fst dbs"
  shows "\<exists>dev' hbs'. rx_complete dev = Some (Inr dev') \<and>
     rx_queue dev' = rx_queue dev @
        map (\<lambda>(e, db). rx_packet (header_len dev) (snd db) (ucast (ue_len e))) (zip es dbs) \<and>
     rx_queue_length dev' = rx_queue_length dev + length es \<and>
     header_len dev' = header_len dev \<and>
     rx_inv dev' (rev (map fst dbs) @ fl) hbs' \<and> set hbs' = set hbs - set dbs \<and>
     available_descriptors (rx_ring (dev_rxq dev')) =
       (signal ^^ length es) (available_descriptors (rx_ring (dev_rxq dev)))"
proof -
  let ?r = "rx_ring (dev_rxq dev)"
  let ?fs = "map (\<lambda>(e, db). (DeliverRx (snd db), ucast (ue_len e) :: size_t)) (zip es dbs)"
  have I: "rx_chains ?r fl hbs" "units (available_descriptors ?r) = length fl"
    "producer_state (available_descriptors ?r) None \<or>
     producer_state (available_descriptors ?r) (Some 1)"
    using inv by (simp_all add: rx_inv_def)
  have le: "length es = length dbs" using arg_cong[OF dbs(3), of length] by simp
  from complete_loop_rx[OF I(1) pu dbs, of "[]"] obtain r' hbs' where R0:
    "complete_loop (used_idx ?r) ?r [] = Some (Inr (r', [] @ ?fs))"
    "rx_chains r' (rev (map fst dbs) @ fl) hbs'"
    "set hbs' = set hbs - set dbs"
    "available_descriptors r' = (signal ^^ length es) (available_descriptors ?r)"
    by blast
  have R1: "complete ?r = Some (Inr (r', ?fs))"
    using R0(1) by (simp add: complete_def)
  define d1 where "d1 = dev\<lparr>dev_rxq := (dev_rxq dev)\<lparr>rx_ring := r'\<rparr>\<rparr>"
  define dev' where "dev' = fold run_continuation ?fs d1"
  have rc: "rx_complete dev = Some (Inr dev')"
    using R1 by (simp add: rx_complete_def dev'_def d1_def)
  have f: "rx_queue dev' = rx_queue d1 @
        map (\<lambda>(e, db). rx_packet (header_len d1) (snd db) (ucast (ue_len e))) (zip es dbs)"
    "rx_queue_length dev' = rx_queue_length d1 + length (zip es dbs)"
    "dev_rxq dev' = dev_rxq d1" "header_len dev' = header_len d1"
    using fold_deliver[of "\<lambda>e. ucast (ue_len e)" "zip es dbs" d1] unfolding dev'_def by blast+
  have q: "rx_queue dev' = rx_queue dev @
        map (\<lambda>(e, db). rx_packet (header_len dev) (snd db) (ucast (ue_len e))) (zip es dbs)"
    "rx_queue_length dev' = rx_queue_length dev + length es"
    "header_len dev' = header_len dev"
    using f(1,2,4) le by (simp_all add: d1_def)
  have u: "units (available_descriptors r') = length (rev (map fst dbs) @ fl)"
    using R0(4) I(2) le by (simp add: units_funpow_signal)
  have ps: "producer_state (available_descriptors r') None \<or>
     producer_state (available_descriptors r') (Some 1)"
    unfolding R0(4) using I(3) producer_state_funpow_signal by blast
  have "rx_inv d1 (rev (map fst dbs) @ fl) hbs'"
    using R0(2) u ps by (simp add: rx_inv_def d1_def)
  then have i': "rx_inv dev' (rev (map fst dbs) @ fl) hbs'"
    using rx_inv_ring[OF f(3)] by simp
  have sg: "available_descriptors (rx_ring (dev_rxq dev')) =
       (signal ^^ length es) (available_descriptors ?r)"
    using f(3) R0(4) by (simp add: d1_def)
  show ?thesis using rc q i' R0(3) sg by blast
qed

lemma rx_inv_host_use:
  assumes "rx_inv dev fl hbs"
  shows "rx_inv (dev\<lparr>dev_rxq := (dev_rxq dev)\<lparr>rx_ring := host_use e (rx_ring (dev_rxq dev))\<rparr>\<rparr>) fl hbs"
proof -
  let ?r = "rx_ring (dev_rxq dev)"
  have "rx_chains (host_use e ?r) fl hbs = rx_chains ?r fl hbs"
    by (rule rx_chains_cong) (simp_all add: host_use_def)
  then show ?thesis using assms by (simp add: rx_inv_def host_use_def)
qed

lemma rx_inv_fresh:
  assumes "0 < n" "n \<le> 65535" "length ds = n" "length av = n" "length us = n"
    and "vring_new n ds av us = Inr (rx_ring (dev_rxq dev))"
  shows "rx_inv dev (rev [0 ..< n]) [] \<and>
         producer_state (available_descriptors (rx_ring (dev_rxq dev))) None"
proof -
  from vring_new_ok[OF assms(1-5)] assms(6) have R:
    "ring_ok (rx_ring (dev_rxq dev))"
    "free_list_from (descs (rx_ring (dev_rxq dev))) (free_desc_head (rx_ring (dev_rxq dev))) (rev [0 ..< n])"
    "available_descriptors (rx_ring (dev_rxq dev)) = new_semaphore n"
    by auto
  show ?thesis using R
    by (simp add: rx_inv_def rx_chains_def producer_state_def units_def new_semaphore_def)
qed

lemma receive_front:
  assumes "rx_queue d = p # ps" "rx_queue_length d = length (rx_queue d)"
  shows "receive d = Inr (Some (p, d\<lparr>rx_queue := ps, rx_queue_length := length ps\<rparr>))"
  using assms by (simp add: receive_def)

text \<open>
  C7. Every chain the RX producer returns is one host-writable buffer of 4096 bytes whose
  completion runs the RX lambda on that buffer, and each received packet is the buffer of
  its chain from offset header_len on. The RX queue is in a state where the free list and
  the descriptors the host owns are disjoint, each descriptor the host owns is a chain of
  its own for a 4096-byte writeable buffer, and its slot holds the pending promise whose
  continuation is the RX lambda for that buffer; the constructor establishes this state
  with nothing in flight. When the producer is not suspended and the free list is not
  empty, it returns one such chain for every free descriptor, on fresh buffers, and the
  round of the submit loop hands them all to the host; with an empty free list the producer
  is suspended on its wait for one unit, and the round that starts when that wait has been
  served does the same with the descriptors that are free by then. When the reap loop
  consumes used entries {id, len} that name distinct descriptors the host owns, one packet
  for each entry is appended to the receive queue, in the order of the entries: a single
  fragment with base buf + header_len, for the buffer buf submitted in descriptor id, and
  size len - header_len computed on size_t, so its bytes are the memory from offset
  header_len of the buffer on; for len >= header_len the size is the difference of the two
  numbers. receive() returns the packet at the front of the receive queue and leaves the
  others in their order.
\<close>

theorem rx_chain_shape_and_delivery:
  assumes "rx_inv dev fl hbs"
  shows "(\<forall>new_buf vbc q'.
        prepare_buffers new_buf (dev_rxq dev) = (Some vbc, q') \<or>
        prepare_buffers_resumed new_buf (dev_rxq dev) = Some (vbc, q')
      \<longrightarrow> (\<forall>bc\<in>set vbc. \<exists>b. bc = [b] \<and> writeable b \<and> len b = 4096 \<and>
               completed b = Pending (DeliverRx (addr b)))) \<and>
     (\<forall>new_buf.
        producer_state (available_descriptors (rx_ring (dev_rxq dev))) None \<and> fl \<noteq> []
      \<longrightarrow> (\<exists>dev'. prepare_buffers new_buf (dev_rxq dev) =
             (Some (map (\<lambda>i. [rx_buffer (new_buf i)]) [0 ..< length fl]),
              (dev_rxq dev)\<lparr>rx_ring := (rx_ring (dev_rxq dev))\<lparr>available_descriptors :=
                 (available_descriptors (rx_ring (dev_rxq dev)))\<lparr>sem_count := 0\<rparr>\<rparr>\<rparr>) \<and>
           rx_submit new_buf dev = Inr (True, dev') \<and>
           rx_inv dev' [] (hbs @ zip fl (map new_buf [0 ..< length fl])) \<and>
           producer_state (available_descriptors (rx_ring (dev_rxq dev'))) None \<and>
           rx_queue dev' = rx_queue dev \<and> rx_queue_length dev' = rx_queue_length dev \<and>
           header_len dev' = header_len dev \<and>
           used_idx (rx_ring (dev_rxq dev')) = used_idx (rx_ring (dev_rxq dev)) \<and>
           used_tail (rx_ring (dev_rxq dev')) = used_tail (rx_ring (dev_rxq dev)) \<and>
           used_elements (rx_ring (dev_rxq dev')) = used_elements (rx_ring (dev_rxq dev)) \<and>
           config_size (rx_ring (dev_rxq dev')) = config_size (rx_ring (dev_rxq dev)))) \<and>
     (\<forall>new_buf.
        producer_state (available_descriptors (rx_ring (dev_rxq dev))) None \<and> fl = []
      \<longrightarrow> rx_submit new_buf dev =
             Inr (False, dev\<lparr>dev_rxq := (dev_rxq dev)\<lparr>rx_ring := (rx_ring (dev_rxq dev))
                    \<lparr>available_descriptors := (available_descriptors (rx_ring (dev_rxq dev)))
                        \<lparr>wait_list := [1]\<rparr>\<rparr>\<rparr>\<rparr>) \<and>
          rx_inv (dev\<lparr>dev_rxq := (dev_rxq dev)\<lparr>rx_ring := (rx_ring (dev_rxq dev))
                    \<lparr>available_descriptors := (available_descriptors (rx_ring (dev_rxq dev)))
                        \<lparr>wait_list := [1]\<rparr>\<rparr>\<rparr>\<rparr>) [] hbs) \<and>
     (\<forall>new_buf.
        resumed (available_descriptors (rx_ring (dev_rxq dev))) = [1]
      \<longrightarrow> (\<exists>dev'. prepare_buffers_resumed new_buf (dev_rxq dev) =
             Some (map (\<lambda>i. [rx_buffer (new_buf i)]) [0 ..< length fl],
              (dev_rxq dev)\<lparr>rx_ring := (rx_ring (dev_rxq dev))\<lparr>available_descriptors :=
                 (available_descriptors (rx_ring (dev_rxq dev)))\<lparr>sem_count := 0, resumed := []\<rparr>\<rparr>\<rparr>) \<and>
           fl \<noteq> [] \<and>
           rx_resume new_buf dev = Inr (Some dev') \<and>
           rx_inv dev' [] (hbs @ zip fl (map new_buf [0 ..< length fl])) \<and>
           producer_state (available_descriptors (rx_ring (dev_rxq dev'))) None \<and>
           rx_queue dev' = rx_queue dev \<and> rx_queue_length dev' = rx_queue_length dev \<and>
           header_len dev' = header_len dev \<and>
           used_idx (rx_ring (dev_rxq dev')) = used_idx (rx_ring (dev_rxq dev)) \<and>
           used_tail (rx_ring (dev_rxq dev')) = used_tail (rx_ring (dev_rxq dev)) \<and>
           used_elements (rx_ring (dev_rxq dev')) = used_elements (rx_ring (dev_rxq dev)) \<and>
           config_size (rx_ring (dev_rxq dev')) = config_size (rx_ring (dev_rxq dev)))) \<and>
     (\<forall>es dbs.
        pending_used (rx_ring (dev_rxq dev)) (used_tail (rx_ring (dev_rxq dev))) es \<and>
        distinct dbs \<and> set dbs \<subseteq> set hbs \<and>
        map (\<lambda>e. unat (ue_id e)) es = map fst dbs
      \<longrightarrow> (\<exists>dev' hbs'. rx_complete dev = Some (Inr dev') \<and>
           rx_queue dev' = rx_queue dev @
             map (\<lambda>(e, db). rx_packet (header_len dev) (snd db) (ucast (ue_len e))) (zip es dbs) \<and>
           rx_queue_length dev' = rx_queue_length dev + length es \<and>
           header_len dev' = header_len dev \<and>
           rx_inv dev' (rev (map fst dbs) @ fl) hbs' \<and> set hbs' = set hbs - set dbs \<and>
           available_descriptors (rx_ring (dev_rxq dev')) =
             (signal ^^ length es) (available_descriptors (rx_ring (dev_rxq dev))))) \<and>
     (\<forall>buf (e :: used_elem). \<exists>f.
        fragments (rx_packet (header_len dev) buf (ucast (ue_len e))) = [f] \<and>
        base f = buf + header_len dev \<and>
        size_frag f = ucast (ue_len e) - header_len dev \<and>
        (\<forall>mem. fragment_bytes mem f =
           map (\<lambda>i. mem (buf + header_len dev + word_of_nat i))
               [0 ..< unat (ucast (ue_len e) - header_len dev)]) \<and>
        (header_len dev \<le> ucast (ue_len e) \<longrightarrow>
           unat (size_frag f) = unat (ue_len e) - unat (header_len dev))) \<and>
     (\<forall>p ps. rx_queue dev = p # ps \<and> rx_queue_length dev = length (rx_queue dev)
      \<longrightarrow> receive dev = Inr (Some (p, dev\<lparr>rx_queue := ps, rx_queue_length := length ps\<rparr>)) \<and>
          rx_inv (dev\<lparr>rx_queue := ps, rx_queue_length := length ps\<rparr>) fl hbs) \<and>
     (\<forall>n ds av us d0. 0 < n \<and> n \<le> 65535 \<and> length ds = n \<and> length av = n \<and> length us = n \<and>
          vring_new n ds av us = Inr (rx_ring (dev_rxq d0))
      \<longrightarrow> rx_inv d0 (rev [0 ..< n]) [] \<and>
          producer_state (available_descriptors (rx_ring (dev_rxq d0))) None)"
proof -
  have c1: "\<forall>new_buf vbc q'.
        prepare_buffers new_buf (dev_rxq dev) = (Some vbc, q') \<or>
        prepare_buffers_resumed new_buf (dev_rxq dev) = Some (vbc, q')
      \<longrightarrow> (\<forall>bc\<in>set vbc. \<exists>b. bc = [b] \<and> writeable b \<and> len b = 4096 \<and>
               completed b = Pending (DeliverRx (addr b)))"
  proof (intro allI impI ballI)
    fix new_buf vbc q' bc
    assume h: "prepare_buffers new_buf (dev_rxq dev) = (Some vbc, q') \<or>
        prepare_buffers_resumed new_buf (dev_rxq dev) = Some (vbc, q')"
      and m: "bc \<in> set vbc"
    from prepare_buffers_shape[OF h] m obtain buf where "bc = [rx_buffer buf]" by blast
    then show "\<exists>b. bc = [b] \<and> writeable b \<and> len b = 4096 \<and>
               completed b = Pending (DeliverRx (addr b))"
      by (intro exI[of _ "rx_buffer buf"]) (simp add: rx_buffer_def virt_to_phys_def)
  qed
  have c2: "\<forall>new_buf.
        producer_state (available_descriptors (rx_ring (dev_rxq dev))) None \<and> fl \<noteq> []
      \<longrightarrow> (\<exists>dev'. prepare_buffers new_buf (dev_rxq dev) =
             (Some (map (\<lambda>i. [rx_buffer (new_buf i)]) [0 ..< length fl]),
              (dev_rxq dev)\<lparr>rx_ring := (rx_ring (dev_rxq dev))\<lparr>available_descriptors :=
                 (available_descriptors (rx_ring (dev_rxq dev)))\<lparr>sem_count := 0\<rparr>\<rparr>\<rparr>) \<and>
           rx_submit new_buf dev = Inr (True, dev') \<and>
           rx_inv dev' [] (hbs @ zip fl (map new_buf [0 ..< length fl])) \<and>
           producer_state (available_descriptors (rx_ring (dev_rxq dev'))) None \<and>
           rx_queue dev' = rx_queue dev \<and> rx_queue_length dev' = rx_queue_length dev \<and>
           header_len dev' = header_len dev \<and>
           used_idx (rx_ring (dev_rxq dev')) = used_idx (rx_ring (dev_rxq dev)) \<and>
           used_tail (rx_ring (dev_rxq dev')) = used_tail (rx_ring (dev_rxq dev)) \<and>
           used_elements (rx_ring (dev_rxq dev')) = used_elements (rx_ring (dev_rxq dev)) \<and>
           config_size (rx_ring (dev_rxq dev')) = config_size (rx_ring (dev_rxq dev)))"
    using rx_submit_ok[OF assms] by blast
  have c3: "\<forall>new_buf.
        producer_state (available_descriptors (rx_ring (dev_rxq dev))) None \<and> fl = []
      \<longrightarrow> rx_submit new_buf dev =
             Inr (False, dev\<lparr>dev_rxq := (dev_rxq dev)\<lparr>rx_ring := (rx_ring (dev_rxq dev))
                    \<lparr>available_descriptors := (available_descriptors (rx_ring (dev_rxq dev)))
                        \<lparr>wait_list := [1]\<rparr>\<rparr>\<rparr>\<rparr>) \<and>
          rx_inv (dev\<lparr>dev_rxq := (dev_rxq dev)\<lparr>rx_ring := (rx_ring (dev_rxq dev))
                    \<lparr>available_descriptors := (available_descriptors (rx_ring (dev_rxq dev)))
                        \<lparr>wait_list := [1]\<rparr>\<rparr>\<rparr>\<rparr>) [] hbs"
  proof (intro allI impI)
    fix new_buf
    assume h: "producer_state (available_descriptors (rx_ring (dev_rxq dev))) None \<and> fl = []"
    then have i: "rx_inv dev [] hbs" using assms by simp
    from h have p: "producer_state (available_descriptors (rx_ring (dev_rxq dev))) None" by simp
    show "rx_submit new_buf dev =
             Inr (False, dev\<lparr>dev_rxq := (dev_rxq dev)\<lparr>rx_ring := (rx_ring (dev_rxq dev))
                    \<lparr>available_descriptors := (available_descriptors (rx_ring (dev_rxq dev)))
                        \<lparr>wait_list := [1]\<rparr>\<rparr>\<rparr>\<rparr>) \<and>
          rx_inv (dev\<lparr>dev_rxq := (dev_rxq dev)\<lparr>rx_ring := (rx_ring (dev_rxq dev))
                    \<lparr>available_descriptors := (available_descriptors (rx_ring (dev_rxq dev)))
                        \<lparr>wait_list := [1]\<rparr>\<rparr>\<rparr>\<rparr>) [] hbs"
      by (rule rx_submit_suspends[OF i p])
  qed
  have c4: "\<forall>new_buf.
        resumed (available_descriptors (rx_ring (dev_rxq dev))) = [1]
      \<longrightarrow> (\<exists>dev'. prepare_buffers_resumed new_buf (dev_rxq dev) =
             Some (map (\<lambda>i. [rx_buffer (new_buf i)]) [0 ..< length fl],
              (dev_rxq dev)\<lparr>rx_ring := (rx_ring (dev_rxq dev))\<lparr>available_descriptors :=
                 (available_descriptors (rx_ring (dev_rxq dev)))\<lparr>sem_count := 0, resumed := []\<rparr>\<rparr>\<rparr>) \<and>
           fl \<noteq> [] \<and>
           rx_resume new_buf dev = Inr (Some dev') \<and>
           rx_inv dev' [] (hbs @ zip fl (map new_buf [0 ..< length fl])) \<and>
           producer_state (available_descriptors (rx_ring (dev_rxq dev'))) None \<and>
           rx_queue dev' = rx_queue dev \<and> rx_queue_length dev' = rx_queue_length dev \<and>
           header_len dev' = header_len dev \<and>
           used_idx (rx_ring (dev_rxq dev')) = used_idx (rx_ring (dev_rxq dev)) \<and>
           used_tail (rx_ring (dev_rxq dev')) = used_tail (rx_ring (dev_rxq dev)) \<and>
           used_elements (rx_ring (dev_rxq dev')) = used_elements (rx_ring (dev_rxq dev)) \<and>
           config_size (rx_ring (dev_rxq dev')) = config_size (rx_ring (dev_rxq dev)))"
  proof (intro allI impI)
    fix new_buf
    assume h: "resumed (available_descriptors (rx_ring (dev_rxq dev))) = [1]"
    have "units (available_descriptors (rx_ring (dev_rxq dev))) = length fl"
      using assms by (simp add: rx_inv_def)
    then have ne: "fl \<noteq> []" using h by (auto simp: units_def)
    from rx_resume_ok[OF assms h, of new_buf] ne
    show "\<exists>dev'. prepare_buffers_resumed new_buf (dev_rxq dev) =
             Some (map (\<lambda>i. [rx_buffer (new_buf i)]) [0 ..< length fl],
              (dev_rxq dev)\<lparr>rx_ring := (rx_ring (dev_rxq dev))\<lparr>available_descriptors :=
                 (available_descriptors (rx_ring (dev_rxq dev)))\<lparr>sem_count := 0, resumed := []\<rparr>\<rparr>\<rparr>) \<and>
           fl \<noteq> [] \<and>
           rx_resume new_buf dev = Inr (Some dev') \<and>
           rx_inv dev' [] (hbs @ zip fl (map new_buf [0 ..< length fl])) \<and>
           producer_state (available_descriptors (rx_ring (dev_rxq dev'))) None \<and>
           rx_queue dev' = rx_queue dev \<and> rx_queue_length dev' = rx_queue_length dev \<and>
           header_len dev' = header_len dev \<and>
           used_idx (rx_ring (dev_rxq dev')) = used_idx (rx_ring (dev_rxq dev)) \<and>
           used_tail (rx_ring (dev_rxq dev')) = used_tail (rx_ring (dev_rxq dev)) \<and>
           used_elements (rx_ring (dev_rxq dev')) = used_elements (rx_ring (dev_rxq dev)) \<and>
           config_size (rx_ring (dev_rxq dev')) = config_size (rx_ring (dev_rxq dev))"
      by blast
  qed
  have c5: "\<forall>es dbs.
        pending_used (rx_ring (dev_rxq dev)) (used_tail (rx_ring (dev_rxq dev))) es \<and>
        distinct dbs \<and> set dbs \<subseteq> set hbs \<and>
        map (\<lambda>e. unat (ue_id e)) es = map fst dbs
      \<longrightarrow> (\<exists>dev' hbs'. rx_complete dev = Some (Inr dev') \<and>
           rx_queue dev' = rx_queue dev @
             map (\<lambda>(e, db). rx_packet (header_len dev) (snd db) (ucast (ue_len e))) (zip es dbs) \<and>
           rx_queue_length dev' = rx_queue_length dev + length es \<and>
           header_len dev' = header_len dev \<and>
           rx_inv dev' (rev (map fst dbs) @ fl) hbs' \<and> set hbs' = set hbs - set dbs \<and>
           available_descriptors (rx_ring (dev_rxq dev')) =
             (signal ^^ length es) (available_descriptors (rx_ring (dev_rxq dev))))"
    using rx_complete_ok[OF assms] by blast
  have c6: "\<forall>buf (e :: used_elem). \<exists>f.
        fragments (rx_packet (header_len dev) buf (ucast (ue_len e))) = [f] \<and>
        base f = buf + header_len dev \<and>
        size_frag f = ucast (ue_len e) - header_len dev \<and>
        (\<forall>mem. fragment_bytes mem f =
           map (\<lambda>i. mem (buf + header_len dev + word_of_nat i))
               [0 ..< unat (ucast (ue_len e) - header_len dev)]) \<and>
        (header_len dev \<le> ucast (ue_len e) \<longrightarrow>
           unat (size_frag f) = unat (ue_len e) - unat (header_len dev))"
  proof (intro allI)
    fix buf :: "64 word" and e :: used_elem
    show "\<exists>f.
        fragments (rx_packet (header_len dev) buf (ucast (ue_len e))) = [f] \<and>
        base f = buf + header_len dev \<and>
        size_frag f = ucast (ue_len e) - header_len dev \<and>
        (\<forall>mem. fragment_bytes mem f =
           map (\<lambda>i. mem (buf + header_len dev + word_of_nat i))
               [0 ..< unat (ucast (ue_len e) - header_len dev)]) \<and>
        (header_len dev \<le> ucast (ue_len e) \<longrightarrow>
           unat (size_frag f) = unat (ue_len e) - unat (header_len dev))"
      by (simp add: rx_packet_def fragment_bytes_def unat_sub word_le_nat_alt unat_ucast_32_64)
  qed
  have c7: "\<forall>p ps. rx_queue dev = p # ps \<and> rx_queue_length dev = length (rx_queue dev)
      \<longrightarrow> receive dev = Inr (Some (p, dev\<lparr>rx_queue := ps, rx_queue_length := length ps\<rparr>)) \<and>
          rx_inv (dev\<lparr>rx_queue := ps, rx_queue_length := length ps\<rparr>) fl hbs"
    using receive_front[of dev] assms by (simp add: rx_inv_def)
  have c8: "\<forall>n ds av us d0. 0 < n \<and> n \<le> 65535 \<and> length ds = n \<and> length av = n \<and> length us = n \<and>
          vring_new n ds av us = Inr (rx_ring (dev_rxq d0))
      \<longrightarrow> rx_inv d0 (rev [0 ..< n]) [] \<and>
          producer_state (available_descriptors (rx_ring (dev_rxq d0))) None"
    using rx_inv_fresh by blast
  show ?thesis by (intro conjI c1 c2 c3 c4 c5 c6 c7 c8)
qed

lemma signal2_waiting:
  "signal (signal \<lparr>sem_count = 0, wait_list = [1], resumed = []\<rparr>) =
     \<lparr>sem_count = 1, wait_list = [], resumed = [1]\<rparr>"
  by (simp add: signal_def)

theorem rx_chain_shape_and_delivery_witness:
  "rx_inv (dev4\<lparr>dev_rxq := \<lparr>rx_ring = ring4\<rparr>\<rparr>) [3, 2, 1, 0] [] \<and>
   (\<exists>q1 d1 d2 d3 d4 d5 d6 hbs'.
      prepare_buffers rx_new_buf \<lparr>rx_ring = ring4\<rparr> =
        (Some [[rx_buffer 0x10000], [rx_buffer 0x11000], [rx_buffer 0x12000], [rx_buffer 0x13000]], q1) \<and>
      rx_submit rx_new_buf (dev4\<lparr>dev_rxq := \<lparr>rx_ring = ring4\<rparr>\<rparr>) = Inr (True, d1) \<and>
      rx_inv d1 [] [(3, 0x10000), (2, 0x11000), (1, 0x12000), (0, 0x13000)] \<and>
      rx_submit rx_new_buf d1 = Inr (False, d2) \<and>
      rx_complete (d2\<lparr>dev_rxq := (dev_rxq d2)\<lparr>rx_ring :=
           host_use \<lparr>ue_id = 2, ue_len = 110\<rparr>
             (host_use \<lparr>ue_id = 3, ue_len = 74\<rparr> (rx_ring (dev_rxq d2)))\<rparr>\<rparr>) = Some (Inr d3) \<and>
      rx_queue d3 = [rx_packet 10 0x10000 74, rx_packet 10 0x11000 110] \<and>
      fragments (rx_packet 10 0x10000 74) = [\<lparr>base = 0x1000A, size_frag = 64\<rparr>] \<and>
      receive d3 = Inr (Some (rx_packet 10 0x10000 74, d4)) \<and>
      receive d4 = Inr (Some (rx_packet 10 0x11000 110, d5)) \<and>
      rx_resume (\<lambda>i. rx_new_buf (4 + i)) d3 = Inr (Some d6) \<and>
      set hbs' = {(1, 0x12000), (0, 0x13000)} \<and>
      rx_inv d6 [] (hbs' @ [(2, 0x14000), (3, 0x15000)]))"
proof -
  let ?d0 = "dev4\<lparr>dev_rxq := \<lparr>rx_ring = ring4\<rparr>\<rparr>"
  let ?fl = "[3, 2, 1, 0::nat]"
  let ?hbs = "[(3::nat, 0x10000 :: 64 word), (2, 0x11000), (1, 0x12000), (0, 0x13000)]"
  let ?e1 = "\<lparr>ue_id = 3, ue_len = 74\<rparr> :: used_elem"
  let ?e2 = "\<lparr>ue_id = 2, ue_len = 110\<rparr> :: used_elem"
  let ?dbs = "[(3::nat, 0x10000 :: 64 word), (2, 0x11000)]"
  let ?p1 = "rx_packet 10 0x10000 74"
  let ?p2 = "rx_packet 10 0x11000 110"
  let ?nb = "\<lambda>i. rx_new_buf (4 + i)"
  note T = rx_chain_shape_and_delivery
  have r0: "rx_ring (dev_rxq ?d0) = ring4" "dev_rxq ?d0 = \<lparr>rx_ring = ring4\<rparr>" by simp_all
  have vn: "vring_new 4 (replicate 4 zero_desc) (replicate 4 0) (replicate 4 zero_used) =
              Inr (rx_ring (dev_rxq ?d0))"
    using vring_new_ring4 by simp
  have fresh: "rx_inv ?d0 (rev [0 ..< 4]) [] \<and>
               producer_state (available_descriptors (rx_ring (dev_rxq ?d0))) None"
    by (rule rx_inv_fresh[OF _ _ _ _ _ vn]) simp_all
  have inv0: "rx_inv ?d0 ?fl []" using fresh by (simp add: upt4)
  have hl0: "header_len ?d0 = 10" by (simp add: dev4_def sizeof_net_hdr_def)
  have q0: "rx_queue ?d0 = []" "rx_queue_length ?d0 = 0" by (simp_all add: dev4_def)
  have u0: "used_idx (rx_ring (dev_rxq ?d0)) = 0" "used_tail (rx_ring (dev_rxq ?d0)) = 0"
    "config_size (rx_ring (dev_rxq ?d0)) = 4"
    "used_elements (rx_ring (dev_rxq ?d0)) = [zero_used, zero_used, zero_used, zero_used]"
    by (simp_all add: ring4_def)
  have z: "map (\<lambda>i. [rx_buffer (rx_new_buf i)]) [0 ..< length ?fl] =
             [[rx_buffer 0x10000], [rx_buffer 0x11000], [rx_buffer 0x12000], [rx_buffer 0x13000]]"
    "[] @ zip ?fl (map rx_new_buf [0 ..< length ?fl]) = ?hbs"
    by (simp_all add: upt4 rx_new_buf_def)
  txt \<open>the first round takes the four units and submits four buffers\<close>
  have h1: "producer_state (available_descriptors (rx_ring (dev_rxq ?d0))) None \<and> ?fl \<noteq> []"
    using fresh by simp
  from T[OF inv0, THEN conjunct2, THEN conjunct1, rule_format, of rx_new_buf, OF h1]
  obtain d1 where W1:
    "prepare_buffers rx_new_buf (dev_rxq ?d0) =
       (Some (map (\<lambda>i. [rx_buffer (rx_new_buf i)]) [0 ..< length ?fl]),
        (dev_rxq ?d0)\<lparr>rx_ring := (rx_ring (dev_rxq ?d0))\<lparr>available_descriptors :=
                 (available_descriptors (rx_ring (dev_rxq ?d0)))\<lparr>sem_count := 0\<rparr>\<rparr>\<rparr>)"
    "rx_submit rx_new_buf ?d0 = Inr (True, d1)"
    "rx_inv d1 [] ([] @ zip ?fl (map rx_new_buf [0 ..< length ?fl]))"
    "producer_state (available_descriptors (rx_ring (dev_rxq d1))) None"
    "rx_queue d1 = rx_queue ?d0" "rx_queue_length d1 = rx_queue_length ?d0"
    "header_len d1 = header_len ?d0"
    "used_idx (rx_ring (dev_rxq d1)) = used_idx (rx_ring (dev_rxq ?d0))"
    "used_tail (rx_ring (dev_rxq d1)) = used_tail (rx_ring (dev_rxq ?d0))"
    "used_elements (rx_ring (dev_rxq d1)) = used_elements (rx_ring (dev_rxq ?d0))"
    "config_size (rx_ring (dev_rxq d1)) = config_size (rx_ring (dev_rxq ?d0))"
    by (elim exE conjE) (rule that)
  define q1 where "q1 = (dev_rxq ?d0)\<lparr>rx_ring := (rx_ring (dev_rxq ?d0))\<lparr>available_descriptors :=
                 (available_descriptors (rx_ring (dev_rxq ?d0)))\<lparr>sem_count := 0\<rparr>\<rparr>\<rparr>"
  have pb: "prepare_buffers rx_new_buf \<lparr>rx_ring = ring4\<rparr> =
        (Some [[rx_buffer 0x10000], [rx_buffer 0x11000], [rx_buffer 0x12000], [rx_buffer 0x13000]], q1)"
    using W1(1) unfolding z(1) q1_def r0(2) .
  have inv1: "rx_inv d1 [] ?hbs" using W1(3) unfolding z(2) .
  let ?s1 = "available_descriptors (rx_ring (dev_rxq d1))"
  have s1: "?s1 = \<lparr>sem_count = 0, wait_list = [], resumed = []\<rparr>"
  proof -
    have "units ?s1 = 0" using inv1 by (simp add: rx_inv_def)
    moreover have "wait_list ?s1 = []" "resumed ?s1 = []"
      using W1(4) by (simp_all add: producer_state_def)
    ultimately show ?thesis by (cases ?s1) (simp add: units_def)
  qed
  txt \<open>the second round finds no unit: the producer is suspended\<close>
  define d2 where "d2 = d1\<lparr>dev_rxq := (dev_rxq d1)\<lparr>rx_ring := (rx_ring (dev_rxq d1))
                    \<lparr>available_descriptors := (available_descriptors (rx_ring (dev_rxq d1)))
                        \<lparr>wait_list := [1]\<rparr>\<rparr>\<rparr>\<rparr>"
  have h2: "producer_state (available_descriptors (rx_ring (dev_rxq d1))) None \<and> [] = ([] :: nat list)"
    using W1(4) by simp
  from T[OF inv1, THEN conjunct2, THEN conjunct2, THEN conjunct1, rule_format, of rx_new_buf, OF h2]
  have W2: "rx_submit rx_new_buf d1 = Inr (False, d2)" "rx_inv d2 [] ?hbs"
    unfolding d2_def by simp_all
  let ?r2 = "rx_ring (dev_rxq d2)"
  have u2: "used_idx ?r2 = 0" "used_tail ?r2 = 0" "config_size ?r2 = 4"
    "used_elements ?r2 = [zero_used, zero_used, zero_used, zero_used]"
    using W1(8,9,10,11) u0 by (simp_all add: d2_def)
  have s2: "available_descriptors ?r2 = \<lparr>sem_count = 0, wait_list = [1], resumed = []\<rparr>"
    using s1 by (simp add: d2_def)
  have q2: "rx_queue d2 = []" "rx_queue_length d2 = 0" "header_len d2 = 10"
    using W1(5,6,7) q0 hl0 by (simp_all add: d2_def)
  txt \<open>the host returns two of the buffers, with 74 and with 110 bytes\<close>
  let ?rh = "host_use ?e2 (host_use ?e1 ?r2)"
  let ?d2h = "d2\<lparr>dev_rxq := (dev_rxq d2)\<lparr>rx_ring := ?rh\<rparr>\<rparr>"
  have inv2: "rx_inv ?d2h [] ?hbs"
    using rx_inv_host_use[OF rx_inv_host_use[OF W2(2), of ?e1], of ?e2] by simp
  have rh: "rx_ring (dev_rxq ?d2h) = ?rh" by simp
  have uh: "used_idx ?rh = 2" "used_tail ?rh = 0" "config_size ?rh = 4"
    "used_elements ?rh = [?e1, ?e2, zero_used, zero_used]"
    using u2 by (simp_all add: host_use_def masked_def mask_ring_def)
  have pu: "pending_used (rx_ring (dev_rxq ?d2h)) (used_tail (rx_ring (dev_rxq ?d2h))) [?e1, ?e2]"
    unfolding rh using uh by (simp add: masked_def mask_ring_def)
  have h3: "pending_used (rx_ring (dev_rxq ?d2h)) (used_tail (rx_ring (dev_rxq ?d2h))) [?e1, ?e2] \<and>
        distinct ?dbs \<and> set ?dbs \<subseteq> set ?hbs \<and>
        map (\<lambda>e. unat (ue_id e)) [?e1, ?e2] = map fst ?dbs"
  proof (intro conjI)
    show "pending_used (rx_ring (dev_rxq ?d2h)) (used_tail (rx_ring (dev_rxq ?d2h))) [?e1, ?e2]"
      by (rule pu)
    show "distinct ?dbs" by simp
    show "set ?dbs \<subseteq> set ?hbs" by simp
    show "map (\<lambda>e. unat (ue_id e)) [?e1, ?e2] = map fst ?dbs" by simp
  qed
  from T[OF inv2, THEN conjunct2, THEN conjunct2, THEN conjunct2, THEN conjunct2, THEN conjunct1,
      rule_format, OF h3]
  obtain d3 hbs3 where W3:
    "rx_complete ?d2h = Some (Inr d3)"
    "rx_queue d3 = rx_queue ?d2h @
       map (\<lambda>(e, db). rx_packet (header_len ?d2h) (snd db) (ucast (ue_len e))) (zip [?e1, ?e2] ?dbs)"
    "rx_queue_length d3 = rx_queue_length ?d2h + length [?e1, ?e2]"
    "header_len d3 = header_len ?d2h"
    "rx_inv d3 (rev (map fst ?dbs) @ []) hbs3" "set hbs3 = set ?hbs - set ?dbs"
    "available_descriptors (rx_ring (dev_rxq d3)) =
       (signal ^^ length [?e1, ?e2]) (available_descriptors (rx_ring (dev_rxq ?d2h)))"
    by (elim exE conjE) (rule that)
  have rq3: "rx_queue d3 = [?p1, ?p2]" using W3(2) q2 by simp
  have ql3: "rx_queue_length d3 = length (rx_queue d3)" using W3(3) q2 rq3 by simp
  have hl3: "header_len d3 = 10" using W3(4) q2 by simp
  have inv3: "rx_inv d3 [2, 3] hbs3" using W3(5) by simp
  have st3: "set hbs3 = {(1, 0x12000), (0, 0x13000)}" using W3(6) by auto
  have s3: "available_descriptors (rx_ring (dev_rxq d3)) =
              \<lparr>sem_count = 1, wait_list = [], resumed = [1]\<rparr>"
  proof -
    have "available_descriptors (rx_ring (dev_rxq ?d2h)) =
            \<lparr>sem_count = 0, wait_list = [1], resumed = []\<rparr>"
      using s2 by (simp add: host_use_def)
    then have "available_descriptors (rx_ring (dev_rxq d3)) =
            signal (signal \<lparr>sem_count = 0, wait_list = [1], resumed = []\<rparr>)"
      using W3(7) by simp
    then show ?thesis unfolding signal2_waiting .
  qed
  txt \<open>the first packet is the first buffer from its tenth byte on, 64 bytes long\<close>
  from T[OF inv3, THEN conjunct2, THEN conjunct2, THEN conjunct2, THEN conjunct2, THEN conjunct2,
      THEN conjunct1, rule_format, of "0x10000" ?e1]
  obtain f where F: "fragments (rx_packet (header_len d3) 0x10000 (ucast (ue_len ?e1))) = [f]"
    "base f = 0x10000 + header_len d3" "size_frag f = ucast (ue_len ?e1) - header_len d3"
    by (elim exE conjE) (rule that)
  have "f = \<lparr>base = 0x1000A, size_frag = 64\<rparr>" using F(2,3) unfolding hl3 by (cases f) simp
  then have fr: "fragments ?p1 = [\<lparr>base = 0x1000A, size_frag = 64\<rparr>]"
    using F(1) unfolding hl3 by simp
  txt \<open>receive() hands out the two packets in the order of the entries\<close>
  define d4 where "d4 = d3\<lparr>rx_queue := [?p2], rx_queue_length := length [?p2]\<rparr>"
  define d5 where "d5 = d4\<lparr>rx_queue := [], rx_queue_length := length ([] :: packet list)\<rparr>"
  have h4: "rx_queue d3 = ?p1 # [?p2] \<and> rx_queue_length d3 = length (rx_queue d3)"
    using rq3 ql3 by simp
  from T[OF inv3, THEN conjunct2, THEN conjunct2, THEN conjunct2, THEN conjunct2, THEN conjunct2,
      THEN conjunct2, THEN conjunct1, rule_format, OF h4]
  have W4: "receive d3 = Inr (Some (?p1, d4))" "rx_inv d4 [2, 3] hbs3"
    unfolding d4_def by simp_all
  have h5: "rx_queue d4 = ?p2 # [] \<and> rx_queue_length d4 = length (rx_queue d4)"
    by (simp add: d4_def)
  from T[OF W4(2), THEN conjunct2, THEN conjunct2, THEN conjunct2, THEN conjunct2, THEN conjunct2,
      THEN conjunct2, THEN conjunct1, rule_format, OF h5]
  have W5: "receive d4 = Inr (Some (?p2, d5))"
    unfolding d5_def by simp
  txt \<open>the producer resumes and submits the two descriptors that came back\<close>
  have z2: "hbs3 @ zip [2, 3] (map ?nb [0 ..< length [2::nat, 3]]) =
            hbs3 @ [(2, 0x14000), (3, 0x15000)]"
    by (simp add: rx_new_buf_def)
  have h6: "resumed (available_descriptors (rx_ring (dev_rxq d3))) = [1]" using s3 by simp
  from T[OF inv3, THEN conjunct2, THEN conjunct2, THEN conjunct2, THEN conjunct1, rule_format,
      of ?nb, OF h6]
  obtain d6 where W6:
    "rx_resume ?nb d3 = Inr (Some d6)"
    "rx_inv d6 [] (hbs3 @ zip [2, 3] (map ?nb [0 ..< length [2::nat, 3]]))"
    by blast
  have inv6: "rx_inv d6 [] (hbs3 @ [(2, 0x14000), (3, 0x15000)])" using W6(2) unfolding z2 .
  have "\<exists>q1 d1 d2 d3 d4 d5 d6 hbs'.
      prepare_buffers rx_new_buf \<lparr>rx_ring = ring4\<rparr> =
        (Some [[rx_buffer 0x10000], [rx_buffer 0x11000], [rx_buffer 0x12000], [rx_buffer 0x13000]], q1) \<and>
      rx_submit rx_new_buf ?d0 = Inr (True, d1) \<and>
      rx_inv d1 [] ?hbs \<and>
      rx_submit rx_new_buf d1 = Inr (False, d2) \<and>
      rx_complete (d2\<lparr>dev_rxq := (dev_rxq d2)\<lparr>rx_ring :=
           host_use ?e2 (host_use ?e1 (rx_ring (dev_rxq d2)))\<rparr>\<rparr>) = Some (Inr d3) \<and>
      rx_queue d3 = [?p1, ?p2] \<and>
      fragments ?p1 = [\<lparr>base = 0x1000A, size_frag = 64\<rparr>] \<and>
      receive d3 = Inr (Some (?p1, d4)) \<and>
      receive d4 = Inr (Some (?p2, d5)) \<and>
      rx_resume ?nb d3 = Inr (Some d6) \<and>
      set hbs' = {(1, 0x12000), (0, 0x13000)} \<and>
      rx_inv d6 [] (hbs' @ [(2, 0x14000), (3, 0x15000)])"
    apply (rule exI[of _ q1], rule exI[of _ d1], rule exI[of _ d2], rule exI[of _ d3])
    apply (rule exI[of _ d4], rule exI[of _ d5], rule exI[of _ d6], rule exI[of _ hbs3])
    apply (intro conjI)
    apply (rule pb, rule W1(2), rule inv1, rule W2(1), rule W3(1), rule rq3, rule fr)
    apply (rule W4(1), rule W5, rule W6(1), rule st3, rule inv6)
    done
  then show ?thesis using inv0 by (rule conjI[rotated])
qed

subsection \<open>The semaphore and the free list\<close>

lemma ring4_rx_reached:
  "(case rx_submit rx_new_buf (dev4\<lparr>dev_rxq := \<lparr>rx_ring = ring4\<rparr>\<rparr>) of
      Inr (True, d1) \<Rightarrow>
        (case rx_submit rx_new_buf d1 of
           Inr (False, d2) \<Rightarrow>
             host_use \<lparr>ue_id = 3, ue_len = 74\<rparr> (rx_ring (dev_rxq d2)) = ring4_rx
         | _ \<Rightarrow> False)
    | _ \<Rightarrow> False)"
  by (simp add: rx_submit_def prepare_buffers_def wait_available_def wait_def
      prepare_buffers_cont_def current_def try_wait_def Let_def rx_publish_def publish_def
      submit_chain_def allocate_desc_def dropped_def masked_def mask_ring_def host_use_def
      ring4_def ring4_rx_def rx_desc_def rx_buffer_def virt_to_phys_def zero_desc_def
      zero_used_def dev4_def new_semaphore_def upt4 rx_new_buf_def)

lemma tx_inv_semaphore:
  assumes "tx_inv dev fl cps"
  shows "free_list_from (descs (tx_ring (dev_txq dev))) (free_desc_head (tx_ring (dev_txq dev))) fl \<and>
     units (available_descriptors (tx_ring (dev_txq dev))) = length fl \<and>
     (tx_held (dev_txq dev) = None \<longrightarrow>
        sem_count (available_descriptors (tx_ring (dev_txq dev))) = length fl)"
  using assms by (auto simp: tx_inv_def tx_chains_def producer_state_def units_def)

lemma rx_inv_semaphore:
  assumes "rx_inv dev fl hbs"
  shows "free_list_from (descs (rx_ring (dev_rxq dev))) (free_desc_head (rx_ring (dev_rxq dev))) fl \<and>
     units (available_descriptors (rx_ring (dev_rxq dev))) = length fl \<and>
     (producer_state (available_descriptors (rx_ring (dev_rxq dev))) None \<longrightarrow>
        sem_count (available_descriptors (rx_ring (dev_rxq dev))) = length fl)"
  using assms by (auto simp: rx_inv_def rx_chains_def producer_state_def units_def)

text \<open>
  C3, as the code has it. free_desc pushes one descriptor on the free list and signals the
  semaphore once. allocate_desc pops one descriptor and leaves the semaphore as it is: the
  decrement is the wait of the producer, made before the submit loop allocates the
  descriptors the producer reserved. A signal that finds the producer suspended on its wait
  hands the unit to that wait instead of leaving it in the count. So what equals the length
  of the free list, between the rounds of the submit loop and of the reap loop, is the
  units of the semaphore: its count plus the units of a wait that has been served and whose
  continuation has not run yet. This holds after the constructor, where the count is the
  ring size, and is kept by a round of the submit loop with the TX producer or the RX
  producer, whether the batch is published or the producer is suspended, by the round of a
  resumed producer, and by the reap loop over used entries that name distinct chains the
  host owns. The count itself equals the length of the free list whenever no producer is
  suspended.
\<close>

theorem semaphore_tracks_free_list:
  "(\<forall>r fl x. free_list_from (descs r) (free_desc_head r) fl \<and> length (descs r) \<le> 65535 \<and>
        x < length (descs r) \<and> x \<notin> set fl
      \<longrightarrow> (\<exists>r'. free_desc x r = Inr r' \<and>
             free_list_from (descs r') (free_desc_head r') (x # fl) \<and>
             available_descriptors r' = signal (available_descriptors r) \<and>
             units (available_descriptors r') = units (available_descriptors r) + 1)) \<and>
   (\<forall>r x fl'. free_list_from (descs r) (free_desc_head r) (x # fl')
      \<longrightarrow> (\<exists>r'. allocate_desc r = Inr (x, r') \<and>
             free_list_from (descs r') (free_desc_head r') fl' \<and>
             available_descriptors r' = available_descriptors r)) \<and>
   (\<forall>n ds av us. 0 < n \<and> n \<le> 65535 \<and> length ds = n \<and> length av = n \<and> length us = n
      \<longrightarrow> (\<exists>r0. vring_new n ds av us = Inr r0 \<and>
             free_list_from (descs r0) (free_desc_head r0) (rev [0 ..< n]) \<and>
             available_descriptors r0 = new_semaphore n \<and>
             (\<forall>d. tx_ring (dev_txq d) = r0 \<and> tx_held (dev_txq d) = None
                \<longrightarrow> tx_inv d (rev [0 ..< n]) []) \<and>
             (\<forall>d. rx_ring (dev_rxq d) = r0
                \<longrightarrow> rx_inv d (rev [0 ..< n]) [] \<and>
                    producer_state (available_descriptors (rx_ring (dev_rxq d))) None))) \<and>
   (\<forall>dev fl cps. tx_inv dev fl cps
      \<longrightarrow> free_list_from (descs (tx_ring (dev_txq dev))) (free_desc_head (tx_ring (dev_txq dev))) fl \<and>
          units (available_descriptors (tx_ring (dev_txq dev))) = length fl \<and>
          (tx_held (dev_txq dev) = None \<longrightarrow>
             sem_count (available_descriptors (tx_ring (dev_txq dev))) = length fl) \<and>
          (\<forall>prepend vhdr mem p rest qp mem1.
             tx_held (dev_txq dev) = None \<and>
             tx_queue (dev_txq dev) = p # rest \<and> 0 < tx_queue_length (dev_txq dev) \<and>
             prepend \<lparr>base = vhdr, size_frag = header_len dev\<rparr> p (zero_net_hdr_mrg vhdr mem) =
               (qp, mem1) \<and>
             fragments qp \<noteq> [] \<and> length (fragments qp) \<le> length fl
           \<longrightarrow> (\<exists>dev'. tx_submit prepend vhdr mem dev =
                          Inr (True, dev', vhdr_out_of_scope vhdr mem1) \<and>
                 tx_inv dev' (drop (length (fragments qp)) fl)
                   ((rev (take (length (fragments qp)) fl), qp) # cps) \<and>
                 tx_held (dev_txq dev') = None)) \<and>
          (\<forall>prepend vhdr mem p rest qp mem1.
             tx_held (dev_txq dev) = None \<and>
             tx_queue (dev_txq dev) = p # rest \<and> 0 < tx_queue_length (dev_txq dev) \<and>
             prepend \<lparr>base = vhdr, size_frag = header_len dev\<rparr> p (zero_net_hdr_mrg vhdr mem) =
               (qp, mem1) \<and>
             length fl < length (fragments qp)
           \<longrightarrow> (\<exists>dev'. tx_submit prepend vhdr mem dev =
                          Inr (False, dev', vhdr_out_of_scope vhdr mem1) \<and>
                 tx_inv dev' fl cps \<and> tx_held (dev_txq dev') = Some qp \<and>
                 wait_list (available_descriptors (tx_ring (dev_txq dev'))) =
                   [length (fragments qp)])) \<and>
          (\<forall>qp. tx_held (dev_txq dev) = Some qp \<and>
                resumed (available_descriptors (tx_ring (dev_txq dev))) \<noteq> []
           \<longrightarrow> (\<exists>dev'. tx_resume dev = Inr (Some dev') \<and>
                 tx_inv dev' (drop (length (fragments qp)) fl)
                   ((rev (take (length (fragments qp)) fl), qp) # cps) \<and>
                 tx_held (dev_txq dev') = None)) \<and>
          (\<forall>es eps.
             pending_used (tx_ring (dev_txq dev)) (used_tail (tx_ring (dev_txq dev))) es \<and>
             distinct eps \<and> set eps \<subseteq> set cps \<and>
             map (\<lambda>e. unat (ue_id e)) es = map (\<lambda>x. hd (fst x)) eps
           \<longrightarrow> (\<exists>dev' cps'. tx_complete dev = Some (Inr dev') \<and>
                 tx_inv dev' (rev (concat (map fst eps)) @ fl) cps' \<and>
                 tx_held (dev_txq dev') = tx_held (dev_txq dev) \<and>
                 available_descriptors (tx_ring (dev_txq dev')) =
                   (signal ^^ length (concat (map fst eps)))
                     (available_descriptors (tx_ring (dev_txq dev)))))) \<and>
   (\<forall>dev fl hbs. rx_inv dev fl hbs
      \<longrightarrow> free_list_from (descs (rx_ring (dev_rxq dev))) (free_desc_head (rx_ring (dev_rxq dev))) fl \<and>
          units (available_descriptors (rx_ring (dev_rxq dev))) = length fl \<and>
          (producer_state (available_descriptors (rx_ring (dev_rxq dev))) None \<longrightarrow>
             sem_count (available_descriptors (rx_ring (dev_rxq dev))) = length fl) \<and>
          (\<forall>new_buf.
             producer_state (available_descriptors (rx_ring (dev_rxq dev))) None \<and> fl \<noteq> []
           \<longrightarrow> (\<exists>dev'. rx_submit new_buf dev = Inr (True, dev') \<and>
                 rx_inv dev' [] (hbs @ zip fl (map new_buf [0 ..< length fl])) \<and>
                 producer_state (available_descriptors (rx_ring (dev_rxq dev'))) None)) \<and>
          (\<forall>new_buf.
             producer_state (available_descriptors (rx_ring (dev_rxq dev))) None \<and> fl = []
           \<longrightarrow> (\<exists>dev'. rx_submit new_buf dev = Inr (False, dev') \<and>
                 rx_inv dev' [] hbs \<and>
                 available_descriptors (rx_ring (dev_rxq dev')) =
                   (available_descriptors (rx_ring (dev_rxq dev)))\<lparr>wait_list := [1]\<rparr>)) \<and>
          (\<forall>new_buf.
             resumed (available_descriptors (rx_ring (dev_rxq dev))) = [1]
           \<longrightarrow> (\<exists>dev'. rx_resume new_buf dev = Inr (Some dev') \<and>
                 rx_inv dev' [] (hbs @ zip fl (map new_buf [0 ..< length fl])) \<and>
                 producer_state (available_descriptors (rx_ring (dev_rxq dev'))) None)) \<and>
          (\<forall>es dbs.
             pending_used (rx_ring (dev_rxq dev)) (used_tail (rx_ring (dev_rxq dev))) es \<and>
             distinct dbs \<and> set dbs \<subseteq> set hbs \<and>
             map (\<lambda>e. unat (ue_id e)) es = map fst dbs
           \<longrightarrow> (\<exists>dev' hbs'. rx_complete dev = Some (Inr dev') \<and>
                 rx_inv dev' (rev (map fst dbs) @ fl) hbs' \<and>
                 available_descriptors (rx_ring (dev_rxq dev')) =
                   (signal ^^ length es) (available_descriptors (rx_ring (dev_rxq dev))))))"
proof -
  have A: "\<forall>r fl x. free_list_from (descs r) (free_desc_head r) fl \<and> length (descs r) \<le> 65535 \<and>
        x < length (descs r) \<and> x \<notin> set fl
      \<longrightarrow> (\<exists>r'. free_desc x r = Inr r' \<and>
             free_list_from (descs r') (free_desc_head r') (x # fl) \<and>
             available_descriptors r' = signal (available_descriptors r) \<and>
             units (available_descriptors r') = units (available_descriptors r) + 1)"
  proof (intro allI impI)
    fix r :: vring and fl x
    assume "free_list_from (descs r) (free_desc_head r) fl \<and> length (descs r) \<le> 65535 \<and>
        x < length (descs r) \<and> x \<notin> set fl"
    then have h: "free_list_from (descs r) (free_desc_head r) fl" "x < length (descs r)"
      "x \<notin> set fl" "length (descs r) \<le> 65535" by simp_all
    from free_desc_ok[OF h] obtain r' where R:
      "free_desc x r = Inr r'" "free_list_from (descs r') (free_desc_head r') (x # fl)"
      "available_descriptors r' = signal (available_descriptors r)" by blast
    have "units (available_descriptors r') = units (available_descriptors r) + 1"
      unfolding R(3) by (rule units_signal)
    then show "\<exists>r'. free_desc x r = Inr r' \<and>
             free_list_from (descs r') (free_desc_head r') (x # fl) \<and>
             available_descriptors r' = signal (available_descriptors r) \<and>
             units (available_descriptors r') = units (available_descriptors r) + 1"
      using R by blast
  qed
  have B: "\<forall>r x fl'. free_list_from (descs r) (free_desc_head r) (x # fl')
      \<longrightarrow> (\<exists>r'. allocate_desc r = Inr (x, r') \<and>
             free_list_from (descs r') (free_desc_head r') fl' \<and>
             available_descriptors r' = available_descriptors r)"
  proof (intro allI impI)
    fix r :: vring and x fl'
    assume h: "free_list_from (descs r) (free_desc_head r) (x # fl')"
    let ?r' = "r\<lparr>free_desc_head := uint (desc_next (descs r ! x))\<rparr>"
    have "allocate_desc r = Inr (x, ?r')" using allocate_desc_ok[OF h] .
    moreover have "free_list_from (descs ?r') (free_desc_head ?r') fl'" using h by simp
    ultimately show "\<exists>r'. allocate_desc r = Inr (x, r') \<and>
        free_list_from (descs r') (free_desc_head r') fl' \<and>
        available_descriptors r' = available_descriptors r"
      by (intro exI[of _ ?r']) simp
  qed
  have C: "\<forall>n ds av us. 0 < n \<and> n \<le> 65535 \<and> length ds = n \<and> length av = n \<and> length us = n
      \<longrightarrow> (\<exists>r0. vring_new n ds av us = Inr r0 \<and>
             free_list_from (descs r0) (free_desc_head r0) (rev [0 ..< n]) \<and>
             available_descriptors r0 = new_semaphore n \<and>
             (\<forall>d. tx_ring (dev_txq d) = r0 \<and> tx_held (dev_txq d) = None
                \<longrightarrow> tx_inv d (rev [0 ..< n]) []) \<and>
             (\<forall>d. rx_ring (dev_rxq d) = r0
                \<longrightarrow> rx_inv d (rev [0 ..< n]) [] \<and>
                    producer_state (available_descriptors (rx_ring (dev_rxq d))) None))"
  proof (intro allI impI)
    fix n :: nat and ds :: "desc list" and av :: "16 word list" and us :: "used_elem list"
    assume "0 < n \<and> n \<le> 65535 \<and> length ds = n \<and> length av = n \<and> length us = n"
    then have h: "0 < n" "n \<le> 65535" "length ds = n" "length av = n" "length us = n"
      by simp_all
    from vring_new_ok[OF h] obtain r0 where R0: "vring_new n ds av us = Inr r0"
      "free_list_from (descs r0) (free_desc_head r0) (rev [0 ..< n])"
      "available_descriptors r0 = new_semaphore n"
      by blast
    have t: "\<forall>d. tx_ring (dev_txq d) = r0 \<and> tx_held (dev_txq d) = None
                \<longrightarrow> tx_inv d (rev [0 ..< n]) []"
    proof (intro allI impI)
      fix d :: virtio_net_device
      assume a: "tx_ring (dev_txq d) = r0 \<and> tx_held (dev_txq d) = None"
      then have "vring_new n ds av us = Inr (tx_ring (dev_txq d))" using R0(1) by simp
      from tx_inv_fresh[OF h this] a show "tx_inv d (rev [0 ..< n]) []" by simp
    qed
    have x: "\<forall>d. rx_ring (dev_rxq d) = r0
                \<longrightarrow> rx_inv d (rev [0 ..< n]) [] \<and>
                    producer_state (available_descriptors (rx_ring (dev_rxq d))) None"
    proof (intro allI impI)
      fix d :: virtio_net_device
      assume "rx_ring (dev_rxq d) = r0"
      then have "vring_new n ds av us = Inr (rx_ring (dev_rxq d))" using R0(1) by simp
      from rx_inv_fresh[OF h this]
      show "rx_inv d (rev [0 ..< n]) [] \<and>
            producer_state (available_descriptors (rx_ring (dev_rxq d))) None" .
    qed
    show "\<exists>r0. vring_new n ds av us = Inr r0 \<and>
             free_list_from (descs r0) (free_desc_head r0) (rev [0 ..< n]) \<and>
             available_descriptors r0 = new_semaphore n \<and>
             (\<forall>d. tx_ring (dev_txq d) = r0 \<and> tx_held (dev_txq d) = None
                \<longrightarrow> tx_inv d (rev [0 ..< n]) []) \<and>
             (\<forall>d. rx_ring (dev_rxq d) = r0
                \<longrightarrow> rx_inv d (rev [0 ..< n]) [] \<and>
                    producer_state (available_descriptors (rx_ring (dev_rxq d))) None)"
      using R0 t x by (intro exI[of _ r0] conjI)
  qed
  have D: "\<forall>dev fl cps. tx_inv dev fl cps
      \<longrightarrow> free_list_from (descs (tx_ring (dev_txq dev))) (free_desc_head (tx_ring (dev_txq dev))) fl \<and>
          units (available_descriptors (tx_ring (dev_txq dev))) = length fl \<and>
          (tx_held (dev_txq dev) = None \<longrightarrow>
             sem_count (available_descriptors (tx_ring (dev_txq dev))) = length fl) \<and>
          (\<forall>prepend vhdr mem p rest qp mem1.
             tx_held (dev_txq dev) = None \<and>
             tx_queue (dev_txq dev) = p # rest \<and> 0 < tx_queue_length (dev_txq dev) \<and>
             prepend \<lparr>base = vhdr, size_frag = header_len dev\<rparr> p (zero_net_hdr_mrg vhdr mem) =
               (qp, mem1) \<and>
             fragments qp \<noteq> [] \<and> length (fragments qp) \<le> length fl
           \<longrightarrow> (\<exists>dev'. tx_submit prepend vhdr mem dev =
                          Inr (True, dev', vhdr_out_of_scope vhdr mem1) \<and>
                 tx_inv dev' (drop (length (fragments qp)) fl)
                   ((rev (take (length (fragments qp)) fl), qp) # cps) \<and>
                 tx_held (dev_txq dev') = None)) \<and>
          (\<forall>prepend vhdr mem p rest qp mem1.
             tx_held (dev_txq dev) = None \<and>
             tx_queue (dev_txq dev) = p # rest \<and> 0 < tx_queue_length (dev_txq dev) \<and>
             prepend \<lparr>base = vhdr, size_frag = header_len dev\<rparr> p (zero_net_hdr_mrg vhdr mem) =
               (qp, mem1) \<and>
             length fl < length (fragments qp)
           \<longrightarrow> (\<exists>dev'. tx_submit prepend vhdr mem dev =
                          Inr (False, dev', vhdr_out_of_scope vhdr mem1) \<and>
                 tx_inv dev' fl cps \<and> tx_held (dev_txq dev') = Some qp \<and>
                 wait_list (available_descriptors (tx_ring (dev_txq dev'))) =
                   [length (fragments qp)])) \<and>
          (\<forall>qp. tx_held (dev_txq dev) = Some qp \<and>
                resumed (available_descriptors (tx_ring (dev_txq dev))) \<noteq> []
           \<longrightarrow> (\<exists>dev'. tx_resume dev = Inr (Some dev') \<and>
                 tx_inv dev' (drop (length (fragments qp)) fl)
                   ((rev (take (length (fragments qp)) fl), qp) # cps) \<and>
                 tx_held (dev_txq dev') = None)) \<and>
          (\<forall>es eps.
             pending_used (tx_ring (dev_txq dev)) (used_tail (tx_ring (dev_txq dev))) es \<and>
             distinct eps \<and> set eps \<subseteq> set cps \<and>
             map (\<lambda>e. unat (ue_id e)) es = map (\<lambda>x. hd (fst x)) eps
           \<longrightarrow> (\<exists>dev' cps'. tx_complete dev = Some (Inr dev') \<and>
                 tx_inv dev' (rev (concat (map fst eps)) @ fl) cps' \<and>
                 tx_held (dev_txq dev') = tx_held (dev_txq dev) \<and>
                 available_descriptors (tx_ring (dev_txq dev')) =
                   (signal ^^ length (concat (map fst eps)))
                     (available_descriptors (tx_ring (dev_txq dev)))))"
  proof (intro allI impI)
    fix dev :: virtio_net_device and fl cps
    assume inv: "tx_inv dev fl cps"
    have d1: "\<forall>prepend vhdr mem p rest qp mem1.
             tx_held (dev_txq dev) = None \<and>
             tx_queue (dev_txq dev) = p # rest \<and> 0 < tx_queue_length (dev_txq dev) \<and>
             prepend \<lparr>base = vhdr, size_frag = header_len dev\<rparr> p (zero_net_hdr_mrg vhdr mem) =
               (qp, mem1) \<and>
             fragments qp \<noteq> [] \<and> length (fragments qp) \<le> length fl
           \<longrightarrow> (\<exists>dev'. tx_submit prepend vhdr mem dev =
                          Inr (True, dev', vhdr_out_of_scope vhdr mem1) \<and>
                 tx_inv dev' (drop (length (fragments qp)) fl)
                   ((rev (take (length (fragments qp)) fl), qp) # cps) \<and>
                 tx_held (dev_txq dev') = None)"
    proof (intro allI impI)
      fix prepend :: packet_ctor and vhdr mem p rest qp mem1
      assume "tx_held (dev_txq dev) = None \<and>
             tx_queue (dev_txq dev) = p # rest \<and> 0 < tx_queue_length (dev_txq dev) \<and>
             prepend \<lparr>base = vhdr, size_frag = header_len dev\<rparr> p (zero_net_hdr_mrg vhdr mem) =
               (qp, mem1) \<and>
             fragments qp \<noteq> [] \<and> length (fragments qp) \<le> length fl"
      then have q: "tx_held (dev_txq dev) = None"
        "tx_queue (dev_txq dev) = p # rest" "0 < tx_queue_length (dev_txq dev)"
        "prepend \<lparr>base = vhdr, size_frag = header_len dev\<rparr> p (zero_net_hdr_mrg vhdr mem) = (qp, mem1)"
        "fragments qp \<noteq> []" "length (fragments qp) \<le> length fl" by blast+
      from tx_submit_ok[where prepend = prepend and vhdr = vhdr and mem = mem, OF inv q]
      show "\<exists>dev'. tx_submit prepend vhdr mem dev =
                          Inr (True, dev', vhdr_out_of_scope vhdr mem1) \<and>
                 tx_inv dev' (drop (length (fragments qp)) fl)
                   ((rev (take (length (fragments qp)) fl), qp) # cps) \<and>
                 tx_held (dev_txq dev') = None"
        by blast
    qed
    have d2: "\<forall>prepend vhdr mem p rest qp mem1.
             tx_held (dev_txq dev) = None \<and>
             tx_queue (dev_txq dev) = p # rest \<and> 0 < tx_queue_length (dev_txq dev) \<and>
             prepend \<lparr>base = vhdr, size_frag = header_len dev\<rparr> p (zero_net_hdr_mrg vhdr mem) =
               (qp, mem1) \<and>
             length fl < length (fragments qp)
           \<longrightarrow> (\<exists>dev'. tx_submit prepend vhdr mem dev =
                          Inr (False, dev', vhdr_out_of_scope vhdr mem1) \<and>
                 tx_inv dev' fl cps \<and> tx_held (dev_txq dev') = Some qp \<and>
                 wait_list (available_descriptors (tx_ring (dev_txq dev'))) =
                   [length (fragments qp)])"
    proof (intro allI impI)
      fix prepend :: packet_ctor and vhdr mem p rest qp mem1
      assume "tx_held (dev_txq dev) = None \<and>
             tx_queue (dev_txq dev) = p # rest \<and> 0 < tx_queue_length (dev_txq dev) \<and>
             prepend \<lparr>base = vhdr, size_frag = header_len dev\<rparr> p (zero_net_hdr_mrg vhdr mem) =
               (qp, mem1) \<and>
             length fl < length (fragments qp)"
      then have q: "tx_held (dev_txq dev) = None"
        "tx_queue (dev_txq dev) = p # rest" "0 < tx_queue_length (dev_txq dev)"
        "prepend \<lparr>base = vhdr, size_frag = header_len dev\<rparr> p (zero_net_hdr_mrg vhdr mem) = (qp, mem1)"
        "length fl < length (fragments qp)" by blast+
      from tx_submit_suspends[where prepend = prepend and vhdr = vhdr and mem = mem, OF inv q]
      show "\<exists>dev'. tx_submit prepend vhdr mem dev =
                          Inr (False, dev', vhdr_out_of_scope vhdr mem1) \<and>
                 tx_inv dev' fl cps \<and> tx_held (dev_txq dev') = Some qp \<and>
                 wait_list (available_descriptors (tx_ring (dev_txq dev'))) =
                   [length (fragments qp)]"
        by blast
    qed
    have d3: "\<forall>qp. tx_held (dev_txq dev) = Some qp \<and>
                resumed (available_descriptors (tx_ring (dev_txq dev))) \<noteq> []
           \<longrightarrow> (\<exists>dev'. tx_resume dev = Inr (Some dev') \<and>
                 tx_inv dev' (drop (length (fragments qp)) fl)
                   ((rev (take (length (fragments qp)) fl), qp) # cps) \<and>
                 tx_held (dev_txq dev') = None)"
      using tx_resume_ok[OF inv] by blast
    have d4: "\<forall>es eps.
             pending_used (tx_ring (dev_txq dev)) (used_tail (tx_ring (dev_txq dev))) es \<and>
             distinct eps \<and> set eps \<subseteq> set cps \<and>
             map (\<lambda>e. unat (ue_id e)) es = map (\<lambda>x. hd (fst x)) eps
           \<longrightarrow> (\<exists>dev' cps'. tx_complete dev = Some (Inr dev') \<and>
                 tx_inv dev' (rev (concat (map fst eps)) @ fl) cps' \<and>
                 tx_held (dev_txq dev') = tx_held (dev_txq dev) \<and>
                 available_descriptors (tx_ring (dev_txq dev')) =
                   (signal ^^ length (concat (map fst eps)))
                     (available_descriptors (tx_ring (dev_txq dev))))"
      using tx_complete_ok[OF inv] by blast
    show "free_list_from (descs (tx_ring (dev_txq dev))) (free_desc_head (tx_ring (dev_txq dev))) fl \<and>
          units (available_descriptors (tx_ring (dev_txq dev))) = length fl \<and>
          (tx_held (dev_txq dev) = None \<longrightarrow>
             sem_count (available_descriptors (tx_ring (dev_txq dev))) = length fl) \<and>
          (\<forall>prepend vhdr mem p rest qp mem1.
             tx_held (dev_txq dev) = None \<and>
             tx_queue (dev_txq dev) = p # rest \<and> 0 < tx_queue_length (dev_txq dev) \<and>
             prepend \<lparr>base = vhdr, size_frag = header_len dev\<rparr> p (zero_net_hdr_mrg vhdr mem) =
               (qp, mem1) \<and>
             fragments qp \<noteq> [] \<and> length (fragments qp) \<le> length fl
           \<longrightarrow> (\<exists>dev'. tx_submit prepend vhdr mem dev =
                          Inr (True, dev', vhdr_out_of_scope vhdr mem1) \<and>
                 tx_inv dev' (drop (length (fragments qp)) fl)
                   ((rev (take (length (fragments qp)) fl), qp) # cps) \<and>
                 tx_held (dev_txq dev') = None)) \<and>
          (\<forall>prepend vhdr mem p rest qp mem1.
             tx_held (dev_txq dev) = None \<and>
             tx_queue (dev_txq dev) = p # rest \<and> 0 < tx_queue_length (dev_txq dev) \<and>
             prepend \<lparr>base = vhdr, size_frag = header_len dev\<rparr> p (zero_net_hdr_mrg vhdr mem) =
               (qp, mem1) \<and>
             length fl < length (fragments qp)
           \<longrightarrow> (\<exists>dev'. tx_submit prepend vhdr mem dev =
                          Inr (False, dev', vhdr_out_of_scope vhdr mem1) \<and>
                 tx_inv dev' fl cps \<and> tx_held (dev_txq dev') = Some qp \<and>
                 wait_list (available_descriptors (tx_ring (dev_txq dev'))) =
                   [length (fragments qp)])) \<and>
          (\<forall>qp. tx_held (dev_txq dev) = Some qp \<and>
                resumed (available_descriptors (tx_ring (dev_txq dev))) \<noteq> []
           \<longrightarrow> (\<exists>dev'. tx_resume dev = Inr (Some dev') \<and>
                 tx_inv dev' (drop (length (fragments qp)) fl)
                   ((rev (take (length (fragments qp)) fl), qp) # cps) \<and>
                 tx_held (dev_txq dev') = None)) \<and>
          (\<forall>es eps.
             pending_used (tx_ring (dev_txq dev)) (used_tail (tx_ring (dev_txq dev))) es \<and>
             distinct eps \<and> set eps \<subseteq> set cps \<and>
             map (\<lambda>e. unat (ue_id e)) es = map (\<lambda>x. hd (fst x)) eps
           \<longrightarrow> (\<exists>dev' cps'. tx_complete dev = Some (Inr dev') \<and>
                 tx_inv dev' (rev (concat (map fst eps)) @ fl) cps' \<and>
                 tx_held (dev_txq dev') = tx_held (dev_txq dev) \<and>
                 available_descriptors (tx_ring (dev_txq dev')) =
                   (signal ^^ length (concat (map fst eps)))
                     (available_descriptors (tx_ring (dev_txq dev)))))"
      using tx_inv_semaphore[OF inv] d1 d2 d3 d4 by (intro conjI) blast+
  qed
  have E: "\<forall>dev fl hbs. rx_inv dev fl hbs
      \<longrightarrow> free_list_from (descs (rx_ring (dev_rxq dev))) (free_desc_head (rx_ring (dev_rxq dev))) fl \<and>
          units (available_descriptors (rx_ring (dev_rxq dev))) = length fl \<and>
          (producer_state (available_descriptors (rx_ring (dev_rxq dev))) None \<longrightarrow>
             sem_count (available_descriptors (rx_ring (dev_rxq dev))) = length fl) \<and>
          (\<forall>new_buf.
             producer_state (available_descriptors (rx_ring (dev_rxq dev))) None \<and> fl \<noteq> []
           \<longrightarrow> (\<exists>dev'. rx_submit new_buf dev = Inr (True, dev') \<and>
                 rx_inv dev' [] (hbs @ zip fl (map new_buf [0 ..< length fl])) \<and>
                 producer_state (available_descriptors (rx_ring (dev_rxq dev'))) None)) \<and>
          (\<forall>new_buf.
             producer_state (available_descriptors (rx_ring (dev_rxq dev))) None \<and> fl = []
           \<longrightarrow> (\<exists>dev'. rx_submit new_buf dev = Inr (False, dev') \<and>
                 rx_inv dev' [] hbs \<and>
                 available_descriptors (rx_ring (dev_rxq dev')) =
                   (available_descriptors (rx_ring (dev_rxq dev)))\<lparr>wait_list := [1]\<rparr>)) \<and>
          (\<forall>new_buf.
             resumed (available_descriptors (rx_ring (dev_rxq dev))) = [1]
           \<longrightarrow> (\<exists>dev'. rx_resume new_buf dev = Inr (Some dev') \<and>
                 rx_inv dev' [] (hbs @ zip fl (map new_buf [0 ..< length fl])) \<and>
                 producer_state (available_descriptors (rx_ring (dev_rxq dev'))) None)) \<and>
          (\<forall>es dbs.
             pending_used (rx_ring (dev_rxq dev)) (used_tail (rx_ring (dev_rxq dev))) es \<and>
             distinct dbs \<and> set dbs \<subseteq> set hbs \<and>
             map (\<lambda>e. unat (ue_id e)) es = map fst dbs
           \<longrightarrow> (\<exists>dev' hbs'. rx_complete dev = Some (Inr dev') \<and>
                 rx_inv dev' (rev (map fst dbs) @ fl) hbs' \<and>
                 available_descriptors (rx_ring (dev_rxq dev')) =
                   (signal ^^ length es) (available_descriptors (rx_ring (dev_rxq dev)))))"
  proof (intro allI impI)
    fix dev :: virtio_net_device and fl hbs
    assume inv: "rx_inv dev fl hbs"
    have e1: "\<forall>new_buf.
             producer_state (available_descriptors (rx_ring (dev_rxq dev))) None \<and> fl \<noteq> []
           \<longrightarrow> (\<exists>dev'. rx_submit new_buf dev = Inr (True, dev') \<and>
                 rx_inv dev' [] (hbs @ zip fl (map new_buf [0 ..< length fl])) \<and>
                 producer_state (available_descriptors (rx_ring (dev_rxq dev'))) None)"
      using rx_submit_ok[OF inv] by blast
    have e2: "\<forall>new_buf.
             producer_state (available_descriptors (rx_ring (dev_rxq dev))) None \<and> fl = []
           \<longrightarrow> (\<exists>dev'. rx_submit new_buf dev = Inr (False, dev') \<and>
                 rx_inv dev' [] hbs \<and>
                 available_descriptors (rx_ring (dev_rxq dev')) =
                   (available_descriptors (rx_ring (dev_rxq dev)))\<lparr>wait_list := [1]\<rparr>)"
    proof (intro allI impI)
      fix new_buf
      assume h: "producer_state (available_descriptors (rx_ring (dev_rxq dev))) None \<and> fl = []"
      then have i: "rx_inv dev [] hbs" using inv by simp
      from h have p: "producer_state (available_descriptors (rx_ring (dev_rxq dev))) None" by simp
      let ?d = "dev\<lparr>dev_rxq := (dev_rxq dev)\<lparr>rx_ring := (rx_ring (dev_rxq dev))
              \<lparr>available_descriptors := (available_descriptors (rx_ring (dev_rxq dev)))
                  \<lparr>wait_list := [1]\<rparr>\<rparr>\<rparr>\<rparr>"
      from rx_submit_suspends[OF i p, of new_buf]
      have "rx_submit new_buf dev = Inr (False, ?d)" "rx_inv ?d [] hbs" by simp_all
      then show "\<exists>dev'. rx_submit new_buf dev = Inr (False, dev') \<and>
                 rx_inv dev' [] hbs \<and>
                 available_descriptors (rx_ring (dev_rxq dev')) =
                   (available_descriptors (rx_ring (dev_rxq dev)))\<lparr>wait_list := [1]\<rparr>"
        by (intro exI[of _ ?d]) simp
    qed
    have e3: "\<forall>new_buf.
             resumed (available_descriptors (rx_ring (dev_rxq dev))) = [1]
           \<longrightarrow> (\<exists>dev'. rx_resume new_buf dev = Inr (Some dev') \<and>
                 rx_inv dev' [] (hbs @ zip fl (map new_buf [0 ..< length fl])) \<and>
                 producer_state (available_descriptors (rx_ring (dev_rxq dev'))) None)"
      using rx_resume_ok[OF inv] by blast
    have e4: "\<forall>es dbs.
             pending_used (rx_ring (dev_rxq dev)) (used_tail (rx_ring (dev_rxq dev))) es \<and>
             distinct dbs \<and> set dbs \<subseteq> set hbs \<and>
             map (\<lambda>e. unat (ue_id e)) es = map fst dbs
           \<longrightarrow> (\<exists>dev' hbs'. rx_complete dev = Some (Inr dev') \<and>
                 rx_inv dev' (rev (map fst dbs) @ fl) hbs' \<and>
                 available_descriptors (rx_ring (dev_rxq dev')) =
                   (signal ^^ length es) (available_descriptors (rx_ring (dev_rxq dev))))"
      using rx_complete_ok[OF inv] by blast
    show "free_list_from (descs (rx_ring (dev_rxq dev))) (free_desc_head (rx_ring (dev_rxq dev))) fl \<and>
          units (available_descriptors (rx_ring (dev_rxq dev))) = length fl \<and>
          (producer_state (available_descriptors (rx_ring (dev_rxq dev))) None \<longrightarrow>
             sem_count (available_descriptors (rx_ring (dev_rxq dev))) = length fl) \<and>
          (\<forall>new_buf.
             producer_state (available_descriptors (rx_ring (dev_rxq dev))) None \<and> fl \<noteq> []
           \<longrightarrow> (\<exists>dev'. rx_submit new_buf dev = Inr (True, dev') \<and>
                 rx_inv dev' [] (hbs @ zip fl (map new_buf [0 ..< length fl])) \<and>
                 producer_state (available_descriptors (rx_ring (dev_rxq dev'))) None)) \<and>
          (\<forall>new_buf.
             producer_state (available_descriptors (rx_ring (dev_rxq dev))) None \<and> fl = []
           \<longrightarrow> (\<exists>dev'. rx_submit new_buf dev = Inr (False, dev') \<and>
                 rx_inv dev' [] hbs \<and>
                 available_descriptors (rx_ring (dev_rxq dev')) =
                   (available_descriptors (rx_ring (dev_rxq dev)))\<lparr>wait_list := [1]\<rparr>)) \<and>
          (\<forall>new_buf.
             resumed (available_descriptors (rx_ring (dev_rxq dev))) = [1]
           \<longrightarrow> (\<exists>dev'. rx_resume new_buf dev = Inr (Some dev') \<and>
                 rx_inv dev' [] (hbs @ zip fl (map new_buf [0 ..< length fl])) \<and>
                 producer_state (available_descriptors (rx_ring (dev_rxq dev'))) None)) \<and>
          (\<forall>es dbs.
             pending_used (rx_ring (dev_rxq dev)) (used_tail (rx_ring (dev_rxq dev))) es \<and>
             distinct dbs \<and> set dbs \<subseteq> set hbs \<and>
             map (\<lambda>e. unat (ue_id e)) es = map fst dbs
           \<longrightarrow> (\<exists>dev' hbs'. rx_complete dev = Some (Inr dev') \<and>
                 rx_inv dev' (rev (map fst dbs) @ fl) hbs' \<and>
                 available_descriptors (rx_ring (dev_rxq dev')) =
                   (signal ^^ length es) (available_descriptors (rx_ring (dev_rxq dev)))))"
      using rx_inv_semaphore[OF inv] e1 e2 e3 e4 by (intro conjI) blast+
  qed
  show ?thesis by (intro conjI A B C D E)
qed

lemma signal1_waiting:
  "signal \<lparr>sem_count = 0, wait_list = [1], resumed = []\<rparr> =
     \<lparr>sem_count = 0, wait_list = [], resumed = [1]\<rparr>"
  by (simp add: signal_def)

theorem semaphore_tracks_free_list_witness:
  "(\<exists>r'. free_desc 3 ring4_inflight = Inr r' \<and>
         free_list_from (descs r') (free_desc_head r') [3, 1, 0] \<and>
         available_descriptors r' = new_semaphore 3) \<and>
   (\<exists>r'. allocate_desc ring4 = Inr (3, r') \<and>
         free_list_from (descs r') (free_desc_head r') [2, 1, 0] \<and>
         available_descriptors r' = new_semaphore 4) \<and>
   (\<exists>d1 d2 d3 d4.
      rx_submit rx_new_buf (dev4\<lparr>dev_rxq := \<lparr>rx_ring = ring4\<rparr>\<rparr>) = Inr (True, d1) \<and>
      free_list_from (descs (rx_ring (dev_rxq d1))) (free_desc_head (rx_ring (dev_rxq d1))) [] \<and>
      available_descriptors (rx_ring (dev_rxq d1)) = new_semaphore 0 \<and>
      rx_submit rx_new_buf d1 = Inr (False, d2) \<and>
      available_descriptors (rx_ring (dev_rxq d2)) = \<lparr>sem_count = 0, wait_list = [1], resumed = []\<rparr> \<and>
      rx_complete (d2\<lparr>dev_rxq := (dev_rxq d2)\<lparr>rx_ring :=
           host_use \<lparr>ue_id = 3, ue_len = 74\<rparr> (rx_ring (dev_rxq d2))\<rparr>\<rparr>) = Some (Inr d3) \<and>
      free_list_from (descs (rx_ring (dev_rxq d3))) (free_desc_head (rx_ring (dev_rxq d3))) [3] \<and>
      available_descriptors (rx_ring (dev_rxq d3)) = \<lparr>sem_count = 0, wait_list = [], resumed = [1]\<rparr> \<and>
      units (available_descriptors (rx_ring (dev_rxq d3))) = 1 \<and>
      rx_resume (\<lambda>i. rx_new_buf (4 + i)) d3 = Inr (Some d4) \<and>
      free_list_from (descs (rx_ring (dev_rxq d4))) (free_desc_head (rx_ring (dev_rxq d4))) [] \<and>
      sem_count (available_descriptors (rx_ring (dev_rxq d4))) = 0) \<and>
   (\<exists>t1 mem1.
      tx_submit (copy_prepend 0x9000) 0x7000 (\<lambda>a. Some 255) (send pkt2 dev4) = Inr (True, t1, mem1) \<and>
      free_list_from (descs (tx_ring (dev_txq t1))) (free_desc_head (tx_ring (dev_txq t1))) [0] \<and>
      sem_count (available_descriptors (tx_ring (dev_txq t1))) = 1)"
proof -
  note T = semaphore_tracks_free_list
  note TX = T[THEN conjunct2, THEN conjunct2, THEN conjunct2, THEN conjunct1, rule_format]
  note RX = T[THEN conjunct2, THEN conjunct2, THEN conjunct2, THEN conjunct2, rule_format]
  let ?fl = "[3, 2, 1, 0::nat]"
  txt \<open>the two operations of the free list\<close>
  have hA: "free_list_from (descs ring4_inflight) (free_desc_head ring4_inflight) [1, 0] \<and>
        length (descs ring4_inflight) \<le> 65535 \<and>
        3 < length (descs ring4_inflight) \<and> 3 \<notin> set [1, 0::nat]"
    by (simp add: ring4_inflight_def zero_desc_def)
  from T[THEN conjunct1, rule_format, OF hA] obtain ra where A:
    "free_desc 3 ring4_inflight = Inr ra"
    "free_list_from (descs ra) (free_desc_head ra) [3, 1, 0]"
    "available_descriptors ra = signal (available_descriptors ring4_inflight)"
    by blast
  have A3: "available_descriptors ra = new_semaphore 3"
    using A(3) by (simp add: ring4_inflight_def new_semaphore_def signal_def)
  have PA: "\<exists>r'. free_desc 3 ring4_inflight = Inr r' \<and>
         free_list_from (descs r') (free_desc_head r') [3, 1, 0] \<and>
         available_descriptors r' = new_semaphore 3"
    using A(1,2) A3 by (intro exI[of _ ra] conjI)
  have hB: "free_list_from (descs ring4) (free_desc_head ring4) (3 # [2, 1, 0])"
    by (simp add: ring4_def zero_desc_def)
  from T[THEN conjunct2, THEN conjunct1, rule_format, OF hB] obtain rb where B:
    "allocate_desc ring4 = Inr (3, rb)"
    "free_list_from (descs rb) (free_desc_head rb) [2, 1, 0]"
    "available_descriptors rb = available_descriptors ring4"
    by blast
  have B3: "available_descriptors rb = new_semaphore 4" using B(3) by (simp add: ring4_def)
  have PB: "\<exists>r'. allocate_desc ring4 = Inr (3, r') \<and>
         free_list_from (descs r') (free_desc_head r') [2, 1, 0] \<and>
         available_descriptors r' = new_semaphore 4"
    using B(1,2) B3 by (intro exI[of _ rb] conjI)
  txt \<open>the constructor\<close>
  have hC: "0 < (4::nat) \<and> (4::nat) \<le> 65535 \<and> length (replicate 4 zero_desc) = 4 \<and>
            length (replicate 4 (0 :: 16 word)) = 4 \<and> length (replicate 4 zero_used) = 4"
    by simp
  from T[THEN conjunct2, THEN conjunct2, THEN conjunct1, rule_format, OF hC] obtain r0 where C:
    "vring_new 4 (replicate 4 zero_desc) (replicate 4 0) (replicate 4 zero_used) = Inr r0"
    "\<forall>d. tx_ring (dev_txq d) = r0 \<and> tx_held (dev_txq d) = None \<longrightarrow> tx_inv d (rev [0 ..< 4]) []"
    "\<forall>d. rx_ring (dev_rxq d) = r0 \<longrightarrow> rx_inv d (rev [0 ..< 4]) [] \<and>
          producer_state (available_descriptors (rx_ring (dev_rxq d))) None"
    by blast
  have r0: "r0 = ring4" using C(1) vring_new_ring4 by simp
  txt \<open>the RX queue: a batch, a suspended producer, a reaped entry, the resumed producer\<close>
  let ?d0 = "dev4\<lparr>dev_rxq := \<lparr>rx_ring = ring4\<rparr>\<rparr>"
  let ?e1 = "\<lparr>ue_id = 3, ue_len = 74\<rparr> :: used_elem"
  let ?hbs = "[(3::nat, 0x10000 :: 64 word), (2, 0x11000), (1, 0x12000), (0, 0x13000)]"
  let ?nb = "\<lambda>i. rx_new_buf (4 + i)"
  have f0: "rx_inv ?d0 (rev [0 ..< 4]) [] \<and>
            producer_state (available_descriptors (rx_ring (dev_rxq ?d0))) None"
    using C(3)[rule_format, of ?d0] r0 by simp
  have inv0: "rx_inv ?d0 ?fl []" using f0 by (simp add: upt4)
  have u0: "used_idx (rx_ring (dev_rxq ?d0)) = 0" "used_tail (rx_ring (dev_rxq ?d0)) = 0"
    "config_size (rx_ring (dev_rxq ?d0)) = 4"
    "used_elements (rx_ring (dev_rxq ?d0)) = [zero_used, zero_used, zero_used, zero_used]"
    by (simp_all add: ring4_def)
  have z: "[] @ zip ?fl (map rx_new_buf [0 ..< length ?fl]) = ?hbs"
    by (simp add: upt4 rx_new_buf_def)
  have h1: "producer_state (available_descriptors (rx_ring (dev_rxq ?d0))) None \<and> ?fl \<noteq> []"
    using f0 by simp
  from RX[OF inv0, THEN conjunct2, THEN conjunct2, THEN conjunct2, THEN conjunct1, rule_format,
      of rx_new_buf, OF h1]
  obtain d1 where W1:
    "rx_submit rx_new_buf ?d0 = Inr (True, d1)"
    "rx_inv d1 [] ([] @ zip ?fl (map rx_new_buf [0 ..< length ?fl]))"
    "producer_state (available_descriptors (rx_ring (dev_rxq d1))) None"
    by (elim exE conjE) (rule that)
  have inv1: "rx_inv d1 [] ?hbs" using W1(2) unfolding z .
  let ?s1 = "available_descriptors (rx_ring (dev_rxq d1))"
  have fl1: "free_list_from (descs (rx_ring (dev_rxq d1))) (free_desc_head (rx_ring (dev_rxq d1))) []"
    using RX[OF inv1, THEN conjunct1] .
  have c1: "sem_count ?s1 = length ([] :: nat list)"
    using RX[OF inv1, THEN conjunct2, THEN conjunct2, THEN conjunct1, rule_format, OF W1(3)] .
  have s1: "?s1 = new_semaphore 0"
  proof -
    have "wait_list ?s1 = []" "resumed ?s1 = []"
      using W1(3) by (simp_all add: producer_state_def)
    then show ?thesis using c1 by (cases ?s1) (simp add: new_semaphore_def)
  qed
  have h2: "producer_state (available_descriptors (rx_ring (dev_rxq d1))) None \<and> [] = ([] :: nat list)"
    using W1(3) by simp
  from RX[OF inv1, THEN conjunct2, THEN conjunct2, THEN conjunct2, THEN conjunct2, THEN conjunct1,
      rule_format, of rx_new_buf, OF h2]
  obtain d2 where W2:
    "rx_submit rx_new_buf d1 = Inr (False, d2)" "rx_inv d2 [] ?hbs"
    "available_descriptors (rx_ring (dev_rxq d2)) = ?s1\<lparr>wait_list := [1]\<rparr>"
    by (elim exE conjE) (rule that)
  have s2: "available_descriptors (rx_ring (dev_rxq d2)) =
              \<lparr>sem_count = 0, wait_list = [1], resumed = []\<rparr>"
    using W2(3) unfolding s1 by (simp add: new_semaphore_def)
  have r1: "host_use ?e1 (rx_ring (dev_rxq d2)) = ring4_rx"
    using ring4_rx_reached W1(1) W2(1) by simp
  let ?d2h = "d2\<lparr>dev_rxq := (dev_rxq d2)\<lparr>rx_ring := host_use ?e1 (rx_ring (dev_rxq d2))\<rparr>\<rparr>"
  have inv2: "rx_inv ?d2h [] ?hbs" using rx_inv_host_use[OF W2(2)] .
  have rh: "rx_ring (dev_rxq ?d2h) = ring4_rx" using r1 by simp
  have pu: "pending_used (rx_ring (dev_rxq ?d2h)) (used_tail (rx_ring (dev_rxq ?d2h))) [?e1]"
    unfolding rh by (simp add: ring4_rx_def masked_def mask_ring_def)
  have h3: "pending_used (rx_ring (dev_rxq ?d2h)) (used_tail (rx_ring (dev_rxq ?d2h))) [?e1] \<and>
        distinct [(3::nat, 0x10000 :: 64 word)] \<and> set [(3::nat, 0x10000 :: 64 word)] \<subseteq> set ?hbs \<and>
        map (\<lambda>e. unat (ue_id e)) [?e1] = map fst [(3::nat, 0x10000 :: 64 word)]"
    using pu by simp
  from RX[OF inv2, THEN conjunct2, THEN conjunct2, THEN conjunct2, THEN conjunct2, THEN conjunct2,
      THEN conjunct2, rule_format, OF h3]
  obtain d3 hbs3 where W3:
    "rx_complete ?d2h = Some (Inr d3)"
    "rx_inv d3 (rev (map fst [(3::nat, 0x10000 :: 64 word)]) @ []) hbs3"
    "available_descriptors (rx_ring (dev_rxq d3)) =
       (signal ^^ length [?e1]) (available_descriptors (rx_ring (dev_rxq ?d2h)))"
    by (elim exE conjE) (rule that)
  have inv3: "rx_inv d3 [3] hbs3" using W3(2) by simp
  have fl3: "free_list_from (descs (rx_ring (dev_rxq d3))) (free_desc_head (rx_ring (dev_rxq d3))) [3]"
    using RX[OF inv3, THEN conjunct1] .
  have s3: "available_descriptors (rx_ring (dev_rxq d3)) =
              \<lparr>sem_count = 0, wait_list = [], resumed = [1]\<rparr>"
  proof -
    have "available_descriptors (rx_ring (dev_rxq ?d2h)) =
            \<lparr>sem_count = 0, wait_list = [1], resumed = []\<rparr>"
      using s2 by (simp add: host_use_def)
    then have "available_descriptors (rx_ring (dev_rxq d3)) =
            signal \<lparr>sem_count = 0, wait_list = [1], resumed = []\<rparr>"
      using W3(3) by simp
    then show ?thesis unfolding signal1_waiting .
  qed
  have u3: "units (available_descriptors (rx_ring (dev_rxq d3))) = 1"
    using RX[OF inv3, THEN conjunct2, THEN conjunct1] by simp
  have h4: "resumed (available_descriptors (rx_ring (dev_rxq d3))) = [1]" using s3 by simp
  from RX[OF inv3, THEN conjunct2, THEN conjunct2, THEN conjunct2, THEN conjunct2, THEN conjunct2,
      THEN conjunct1, rule_format, of ?nb, OF h4]
  obtain d4 where W4:
    "rx_resume ?nb d3 = Inr (Some d4)"
    "rx_inv d4 [] (hbs3 @ zip [3] (map ?nb [0 ..< length [3::nat]]))"
    "producer_state (available_descriptors (rx_ring (dev_rxq d4))) None"
    by (elim exE conjE) (rule that)
  have fl4: "free_list_from (descs (rx_ring (dev_rxq d4))) (free_desc_head (rx_ring (dev_rxq d4))) []"
    using RX[OF W4(2), THEN conjunct1] .
  have c4: "sem_count (available_descriptors (rx_ring (dev_rxq d4))) = 0"
    using RX[OF W4(2), THEN conjunct2, THEN conjunct2, THEN conjunct1, rule_format, OF W4(3)]
    by simp
  have PR: "\<exists>d1 d2 d3 d4.
      rx_submit rx_new_buf ?d0 = Inr (True, d1) \<and>
      free_list_from (descs (rx_ring (dev_rxq d1))) (free_desc_head (rx_ring (dev_rxq d1))) [] \<and>
      available_descriptors (rx_ring (dev_rxq d1)) = new_semaphore 0 \<and>
      rx_submit rx_new_buf d1 = Inr (False, d2) \<and>
      available_descriptors (rx_ring (dev_rxq d2)) = \<lparr>sem_count = 0, wait_list = [1], resumed = []\<rparr> \<and>
      rx_complete (d2\<lparr>dev_rxq := (dev_rxq d2)\<lparr>rx_ring :=
           host_use ?e1 (rx_ring (dev_rxq d2))\<rparr>\<rparr>) = Some (Inr d3) \<and>
      free_list_from (descs (rx_ring (dev_rxq d3))) (free_desc_head (rx_ring (dev_rxq d3))) [3] \<and>
      available_descriptors (rx_ring (dev_rxq d3)) = \<lparr>sem_count = 0, wait_list = [], resumed = [1]\<rparr> \<and>
      units (available_descriptors (rx_ring (dev_rxq d3))) = 1 \<and>
      rx_resume ?nb d3 = Inr (Some d4) \<and>
      free_list_from (descs (rx_ring (dev_rxq d4))) (free_desc_head (rx_ring (dev_rxq d4))) [] \<and>
      sem_count (available_descriptors (rx_ring (dev_rxq d4))) = 0"
    apply (rule exI[of _ d1], rule exI[of _ d2], rule exI[of _ d3], rule exI[of _ d4])
    apply (intro conjI)
    apply (rule W1(1), rule fl1, rule s1, rule W2(1), rule s2, rule W3(1), rule fl3, rule s3)
    apply (rule u3, rule W4(1), rule fl4, rule c4)
    done
  txt \<open>the TX queue: a packet of two fragments takes three of the four units\<close>
  let ?t0 = "send pkt2 dev4"
  let ?qa = "pkt2_hdr 0x9000"
  let ?m0 = "(\<lambda>a. Some 255) :: memory"
  have tq0: "dev_txq ?t0 = txq4" by (simp add: send_def post_def dev4_def txq4_def)
  have hT: "tx_ring (dev_txq ?t0) = r0 \<and> tx_held (dev_txq ?t0) = None"
    unfolding tq0 r0 by (simp add: txq4_def)
  have tinv0: "tx_inv ?t0 ?fl []" using C(2)[rule_format, OF hT] by (simp add: upt4)
  have hl0: "header_len ?t0 = 10" by (simp add: send_def dev4_def sizeof_net_hdr_def)
  define m1 where "m1 = snd (copy_prepend 0x9000 \<lparr>base = 0x7000, size_frag = 10\<rparr> pkt2
                              (zero_net_hdr_mrg 0x7000 ?m0))"
  have fr: "length (fragments ?qa) = 3" by (simp add: pkt2_hdr_def pkt2_def)
  have h5: "tx_held (dev_txq ?t0) = None \<and>
        tx_queue (dev_txq ?t0) = pkt2 # [] \<and> 0 < tx_queue_length (dev_txq ?t0) \<and>
        copy_prepend 0x9000 \<lparr>base = 0x7000, size_frag = header_len ?t0\<rparr> pkt2
          (zero_net_hdr_mrg 0x7000 ?m0) = (?qa, m1) \<and>
        fragments ?qa \<noteq> [] \<and> length (fragments ?qa) \<le> length ?fl"
  proof (intro conjI)
    show "tx_held (dev_txq ?t0) = None" by (simp add: tq0 txq4_def)
    show "tx_queue (dev_txq ?t0) = pkt2 # []" by (simp add: tq0 txq4_def)
    show "0 < tx_queue_length (dev_txq ?t0)" by (simp add: tq0 txq4_def)
    show "copy_prepend 0x9000 \<lparr>base = 0x7000, size_frag = header_len ?t0\<rparr> pkt2
          (zero_net_hdr_mrg 0x7000 ?m0) = (?qa, m1)"
      unfolding hl0 m1_def by (simp add: copy_prepend_def pkt2_hdr_def)
    show "fragments ?qa \<noteq> []" by (simp add: pkt2_hdr_def)
    show "length (fragments ?qa) \<le> length ?fl" unfolding fr by simp
  qed
  from TX[OF tinv0, THEN conjunct2, THEN conjunct2, THEN conjunct2, THEN conjunct1, rule_format,
      where prepend = "copy_prepend 0x9000" and vhdr = "0x7000" and mem = ?m0 and p = pkt2
        and rest = "[]" and qp = ?qa and ?mem1.0 = m1, OF h5]
  obtain t1 where X1:
    "tx_submit (copy_prepend 0x9000) 0x7000 ?m0 ?t0 = Inr (True, t1, vhdr_out_of_scope 0x7000 m1)"
    "tx_inv t1 (drop (length (fragments ?qa)) ?fl) ((rev (take (length (fragments ?qa)) ?fl), ?qa) # [])"
    "tx_held (dev_txq t1) = None"
    by (elim exE conjE) (rule that)
  have tinv1: "tx_inv t1 [0] [([1, 2, 3], ?qa)]" using X1(2) unfolding fr by simp
  have tfl: "free_list_from (descs (tx_ring (dev_txq t1))) (free_desc_head (tx_ring (dev_txq t1))) [0]"
    using TX[OF tinv1, THEN conjunct1] .
  have tc: "sem_count (available_descriptors (tx_ring (dev_txq t1))) = 1"
    using TX[OF tinv1, THEN conjunct2, THEN conjunct2, THEN conjunct1, rule_format, OF X1(3)]
    by simp
  have PT: "\<exists>t1 mem1.
      tx_submit (copy_prepend 0x9000) 0x7000 ?m0 ?t0 = Inr (True, t1, mem1) \<and>
      free_list_from (descs (tx_ring (dev_txq t1))) (free_desc_head (tx_ring (dev_txq t1))) [0] \<and>
      sem_count (available_descriptors (tx_ring (dev_txq t1))) = 1"
    using X1(1) tfl tc by (intro exI[of _ t1] exI[of _ "vhdr_out_of_scope 0x7000 m1"] conjI)
  show ?thesis by (intro conjI PA PB PR PT)
qed

text \<open>Two states in which the count of the semaphore is not the length of the free list.
  On the ring of four as the constructor leaves it, allocate_desc returns descriptor 3 and
  leaves three descriptors on the free list, with the semaphore still at 4. On the RX ring
  whose producer is suspended on its wait for one unit, the reap loop consumes the entry for
  descriptor 3 and pushes it on the free list; the signal serves the wait, so the free list
  has one descriptor and the semaphore counts 0.\<close>

theorem semaphore_is_not_free_list_length_counterexample:
  "allocate_desc ring4 = Inr (3, ring4\<lparr>free_desc_head := 2\<rparr>) \<and>
   free_list_from (descs (ring4\<lparr>free_desc_head := 2\<rparr>))
      (free_desc_head (ring4\<lparr>free_desc_head := 2\<rparr>)) [2, 1, 0] \<and>
   sem_count (available_descriptors (ring4\<lparr>free_desc_head := 2\<rparr>)) = 4 \<and>
   wait_list (available_descriptors ring4_rx) = [1] \<and>
   map_option (map_sum (\<lambda>e. e)
       (\<lambda>x. (free_list_from (descs (fst x)) (free_desc_head (fst x)) [3],
             sem_count (available_descriptors (fst x)))))
     (complete ring4_rx) = Some (Inr (True, 0))"
proof -
  let ?ue = "\<lparr>ue_id = 3, ue_len = 74\<rparr> :: used_elem"
  have a: "allocate_desc ring4 = Inr (3, ring4\<lparr>free_desc_head := 2\<rparr>)"
    "free_list_from (descs (ring4\<lparr>free_desc_head := 2\<rparr>))
      (free_desc_head (ring4\<lparr>free_desc_head := 2\<rparr>)) [2, 1, 0]"
    "sem_count (available_descriptors (ring4\<lparr>free_desc_head := 2\<rparr>)) = 4"
    by (simp_all add: allocate_desc_def ring4_def zero_desc_def new_semaphore_def)
  have w: "wait_list (available_descriptors ring4_rx) = [1]" by (simp add: ring4_rx_def)
  have ok: "ring_ok ring4_rx" by (simp add: ring_ok_def ring4_rx_def)
  have sl: "used_elements ring4_rx ! unat (masked ring4_rx (ucast (used_tail ring4_rx))) = ?ue"
    by (simp add: ring4_rx_def masked_def mask_ring_def)
  have one: "used_idx ring4_rx = used_tail ring4_rx + 1" by (simp add: ring4_rx_def)
  have ch: "chain_from (descs ring4_rx) [3]" "hd [3] = unat (ue_id ?ue)" "distinct [3::nat]"
    by (simp_all add: ring4_rx_def rx_desc_def)
  have fl: "free_list_from (descs ring4_rx) (free_desc_head ring4_rx) []"
    "set [3::nat] \<inter> set [] = {}"
    by (simp_all add: ring4_rx_def)
  have pr: "completions ring4_rx ! unat (ue_id ?ue) = Pending (DeliverRx 0x10000)"
    by (simp add: ring4_rx_def rx_new_buf_def)
  from complete_one_ok[OF ok sl one ch fl pr] obtain r' where R:
    "complete ring4_rx = Some (Inr (r', [(DeliverRx 0x10000, ucast (ue_len ?ue))]))"
    "free_list_from (descs r') (free_desc_head r') (rev [3] @ [])"
    "available_descriptors r' = (signal ^^ length [3::nat]) (available_descriptors ring4_rx)"
    by blast
  have "sem_count (available_descriptors r') = 0"
    using R(3) by (simp add: ring4_rx_def signal_def)
  then have b: "map_option (map_sum (\<lambda>e. e)
       (\<lambda>x. (free_list_from (descs (fst x)) (free_desc_head (fst x)) [3],
             sem_count (available_descriptors (fst x)))))
     (complete ring4_rx) = Some (Inr (True, 0))"
    using R(1,2) by simp
  show ?thesis by (intro conjI a w b)
qed


end
